(* ===== verification/Prelude.thy ===== *)
theory Prelude
  imports Main "HOL-Library.Word"
begin

text \<open>
  Shared material of the development.

  \<^item> The machine types of the crate: \<open>usize\<close> and \<open>u64\<close> are 64-bit words (a 64-bit target).
  \<^item> The read-modify-write operations of \<open>core::sync::atomic::AtomicUsize\<close> that the crate calls.
    Each is a function from the current value of the cell to the value returned and the new value.
    Memory orderings are not modelled: every access is one indivisible step (sequential
    consistency).
  \<^item> \<open>outcome\<close>: what one step of an operation can do besides going on: \<open>crate::abort()\<close>, a
    Rust panic, or not being enabled.
  \<^item> Sums of per-task contributions over a list of tasks (\<open>wsum\<close>), on which the counting
    invariants of all the locks rest.
\<close>

unbundle bit_operations_syntax

type_synonym usize = "64 word"
type_synonym u64 = "64 word"

named_theorems atomic_defs "definitions of the atomic operations"

datatype 'x outcome = Next 'x | Abort | Panic | Disabled

lemma map_outcome_fails [simp]:
  "map_outcome f r = Abort \<longleftrightarrow> r = Abort" "map_outcome f r = Panic \<longleftrightarrow> r = Panic"
  by (cases r; simp)+

lemma map_outcome_Next_iff: "map_outcome f r = Next y \<longleftrightarrow> (\<exists>x. r = Next x \<and> y = f x)"
  by (cases r) auto

subsection \<open>Atomic operations\<close>

text \<open>
  \<open>compare_exchange cur old new\<close> returns \<open>Ok(previous)\<close> as \<open>Inr\<close> and \<open>Err(actual)\<close> as \<open>Inl\<close>,
  with the new value of the cell.
\<close>

definition compare_exchange :: "usize \<Rightarrow> usize \<Rightarrow> usize \<Rightarrow> (usize + usize) \<times> usize" where
  [atomic_defs]: "compare_exchange cur old new =
     (if cur = old then (Inr cur, new) else (Inl cur, cur))"

text \<open>The weak form may fail although the cell holds the expected value.\<close>

definition compare_exchange_weak ::
    "bool \<Rightarrow> usize \<Rightarrow> usize \<Rightarrow> usize \<Rightarrow> (usize + usize) \<times> usize" where
  [atomic_defs]: "compare_exchange_weak spurious cur old new =
     (if spurious then (Inl cur, cur) else compare_exchange cur old new)"

text \<open>\<open>unwrap_or_else(|x| x)\<close>: the previous value, on success and on failure.\<close>

definition unwrap_or_else_id :: "'b + 'b \<Rightarrow> 'b" where
  [atomic_defs]: "unwrap_or_else_id r = (case r of Inl x \<Rightarrow> x | Inr x \<Rightarrow> x)"

definition is_ok :: "'e + 'b \<Rightarrow> bool" where
  [atomic_defs]: "is_ok r = (case r of Inl _ \<Rightarrow> False | Inr _ \<Rightarrow> True)"

definition fetch_add :: "usize \<Rightarrow> usize \<Rightarrow> usize \<times> usize" where
  [atomic_defs]: "fetch_add cur n = (cur, cur + n)"

definition fetch_sub :: "usize \<Rightarrow> usize \<Rightarrow> usize \<times> usize" where
  [atomic_defs]: "fetch_sub cur n = (cur, cur - n)"

definition fetch_or :: "usize \<Rightarrow> usize \<Rightarrow> usize \<times> usize" where
  [atomic_defs]: "fetch_or cur n = (cur, cur OR n)"

definition fetch_and :: "usize \<Rightarrow> usize \<Rightarrow> usize \<times> usize" where
  [atomic_defs]: "fetch_and cur n = (cur, cur AND n)"

definition usize_MAX :: usize where
  "usize_MAX = - 1"

definition isize_MAX :: usize where
  "isize_MAX = 2 ^ 63 - 1"

lemma unat_usize_MAX: "unat usize_MAX = 2 ^ 64 - 1"
  by (simp add: usize_MAX_def unsigned_minus_1_eq_mask mask_eq_exp_minus_1)

lemma unat_isize_MAX: "unat isize_MAX = 2 ^ 63 - 1"
  by (simp add: isize_MAX_def)

lemma unat_usize_MAX_div_2: "unat (usize_MAX div 2) = 2 ^ 63 - 1"
  by (simp add: unat_div unat_usize_MAX)

lemma le_isize_MAX_iff: "x \<le> isize_MAX \<longleftrightarrow> unat x \<le> 2 ^ 63 - 1"
  by (simp add: word_le_nat_alt unat_isize_MAX)

lemma le_usize_MAX_div_2_iff: "x \<le> usize_MAX div 2 \<longleftrightarrow> unat x \<le> 2 ^ 63 - 1"
  by (simp add: word_le_nat_alt unat_usize_MAX_div_2)

subsection \<open>Words as counters\<close>

lemma unat_add_no_wrap:
  fixes x y :: usize
  assumes "unat x + unat y < 2 ^ 64"
  shows "unat (x + y) = unat x + unat y"
  using assms by (simp add: unat_word_ariths)

lemma unat_sub_no_wrap:
  fixes x y :: usize
  assumes "unat y \<le> unat x"
  shows "unat (x - y) = unat x - unat y"
  using assms by (simp add: unat_sub word_le_nat_alt)

lemma usize_eq_iff: "(x :: usize) = y \<longleftrightarrow> unat x = unat y"
  by (simp add: word_unat_eq_iff)

lemma unat_mod_2: "unat ((x :: usize) mod 2) = unat x mod 2"
  by (simp add: unat_mod)

lemma mod_2_eq_0_iff: "(x :: usize) mod 2 = 0 \<longleftrightarrow> even (unat x)"
  by (simp add: usize_eq_iff unat_mod_2 even_iff_mod_2_eq_zero)

lemma mod_2_eq_1_iff: "(x :: usize) mod 2 = 1 \<longleftrightarrow> odd (unat x)"
  by (simp add: usize_eq_iff unat_mod_2 odd_iff_mod_2_eq_one)

lemma and_1_eq_0_iff: "(x :: usize) AND 1 = 0 \<longleftrightarrow> even (unat x)"
  by (simp add: and_one_eq mod_2_eq_0_iff)

lemma unat_or_1: "unat ((x :: usize) OR 1) = (if even (unat x) then Suc (unat x) else unat x)"
proof (cases "even (unat x)")
  case True
  have "unat x < 18446744073709551616" using unsigned_less [of x] by simp
  with True have "unat x + 1 < 18446744073709551616" by presburger
  then have "unat (x + 1) = Suc (unat x)" by (simp add: unat_add_no_wrap)
  moreover have "x OR 1 = x + 1"
    using True mod_2_eq_0_iff [of x] by (simp add: or_one_eq even_iff_mod_2_eq_zero)
  ultimately show ?thesis using True by simp
next
  case False
  have "x OR 1 = x"
    using False mod_2_eq_0_iff [of x] by (simp add: or_one_eq even_iff_mod_2_eq_zero)
  then show ?thesis using False by simp
qed

lemma and_not_1: "(x :: usize) AND NOT 1 = x - x mod 2"
proof -
  have "NOT x AND (x AND 1) = 0" by (simp flip: and.assoc)
  then have "x - (x AND 1) = x AND NOT (x AND 1)" by (rule disjunctive_diff_eq_and_not)
  moreover have "x AND NOT (x AND 1) = x AND NOT 1"
    unfolding bit.de_Morgan_conj
    by (simp only: bit.conj_disj_distrib bit.conj_cancel_right or.left_neutral)
  ultimately show ?thesis by (simp only: and_one_eq)
qed

lemma unat_and_not_1: "unat ((x :: usize) AND NOT 1) = 2 * (unat x div 2)"
proof -
  have "unat (x - x mod 2) = unat x - unat x mod 2"
    by (simp add: unat_sub_no_wrap unat_mod_2)
  then show ?thesis by (simp only: and_not_1 minus_mod_eq_mult_div)
qed

subsection \<open>Sums of contributions over a list of tasks\<close>

definition wsum :: "('t \<Rightarrow> nat) \<Rightarrow> 't list \<Rightarrow> nat" where
  "wsum f ts = sum_list (map f ts)"

lemma wsum_Nil [simp]: "wsum f [] = 0"
  by (simp add: wsum_def)

lemma wsum_append [simp]: "wsum f (ts @ us) = wsum f ts + wsum f us"
  by (simp add: wsum_def)

lemma wsum_Cons [simp]: "wsum f (t # ts) = f t + wsum f ts"
  by (simp add: wsum_def)

lemma wsum_member_le: "k < length ts \<Longrightarrow> f (ts ! k) \<le> wsum f ts"
  by (simp add: wsum_def member_le_sum_list)

lemma wsum_update:
  assumes "k < length ts"
  shows "wsum f (ts[k := t]) = wsum f ts - f (ts ! k) + f t"
  using assms wsum_member_le [OF assms, of f] by (simp add: wsum_def map_update sum_list_update)

lemma wsum_pair_le:
  "j < length ts \<Longrightarrow> k < length ts \<Longrightarrow> j \<noteq> k \<Longrightarrow> f (ts ! j) + f (ts ! k) \<le> wsum f ts"
proof (induction ts arbitrary: j k)
  case Nil
  then show ?case by simp
next
  case (Cons u us)
  then show ?case
    using wsum_member_le [of _ us f] by (cases j; cases k) (auto simp: add_increasing)
qed

lemma wsum_mono: "(\<And>t. t \<in> set ts \<Longrightarrow> f t \<le> g t) \<Longrightarrow> wsum f ts \<le> wsum g ts"
  by (induction ts) (auto intro: add_mono)

lemma wsum_pos_iff: "0 < wsum f ts \<longleftrightarrow> (\<exists>t \<in> set ts. 0 < f t)"
  by (induction ts) auto

lemma wsum_add: "wsum (\<lambda>t. f t + g t) ts = wsum f ts + wsum g ts"
  by (induction ts) simp_all

lemma wsum_cong: "(\<And>t. t \<in> set ts \<Longrightarrow> f t = g t) \<Longrightarrow> wsum f ts = wsum g ts"
  by (induction ts) auto

end
