(* ===== verification/Interleaving.thy ===== *)
theory Interleaving
  imports Prelude
begin

text \<open>
  Concurrent execution, shared by all the primitives.

  A primitive is a value in shared memory and a list of tasks. A task is one use of the
  primitive: a future that \<open>lock()\<close>, \<open>read()\<close>, \<open>acquire()\<close> \<dots> returned together with the guard it
  produces, or one call of a non-blocking method. A task is at a program point of the source, and
  the function \<open>stp i s t\<close> performs its next indivisible action: at most one access to shared
  memory. The argument \<open>i\<close> says what the client does with the task (poll it, drop it, unlock)
  or gives what the action reads from outside (the clock, a spurious failure of a weak
  compare-exchange). Any task may move next, so every interleaving of the atomic accesses is a
  run.

  \<^item> \<open>sys_step\<close>, \<open>reachable\<close>: the step relation and the reachable states.
  \<^item> \<open>exec\<close>: the executable form, driven by an explicit schedule; used by witnesses.
  \<^item> Locale \<open>inv_system\<close>: a state invariant that every step keeps holds in every reachable state.
  \<^item> Locale \<open>counting_system\<close>: the invariants of a lock word. Each task contributes a number to
    each of several totals; \<open>good s c\<close> relates the shared state to the totals; it suffices that a
    step keeps \<open>good\<close> for its own task's contribution.
  \<^item> Locale \<open>refinement_system\<close>: every step is a step of an abstract specification or none.
\<close>

record ('s, 't) sys =
  shared :: 's
  tasks :: "'t list"

inductive sys_step ::
    "('i \<Rightarrow> 's \<Rightarrow> 't \<Rightarrow> ('s \<times> 't) outcome) \<Rightarrow> ('t \<Rightarrow> bool) \<Rightarrow> ('s, 't) sys \<Rightarrow> ('s, 't) sys \<Rightarrow> bool"
  for stp and fresh where
  spawn: "fresh t \<Longrightarrow> sys_step stp fresh S (S\<lparr>tasks := tasks S @ [t]\<rparr>)"
| act: "k < length (tasks S) \<Longrightarrow> stp i (shared S) (tasks S ! k) = Next (s', t') \<Longrightarrow>
     sys_step stp fresh S \<lparr>shared = s', tasks = (tasks S)[k := t']\<rparr>"

inductive reachable ::
    "('i \<Rightarrow> 's \<Rightarrow> 't \<Rightarrow> ('s \<times> 't) outcome) \<Rightarrow> ('t \<Rightarrow> bool) \<Rightarrow> ('s \<Rightarrow> bool) \<Rightarrow> ('s, 't) sys \<Rightarrow> bool"
  for stp and fresh and start where
  init: "start s \<Longrightarrow> reachable stp fresh start \<lparr>shared = s, tasks = []\<rparr>"
| step: "reachable stp fresh start S \<Longrightarrow> sys_step stp fresh S S' \<Longrightarrow>
     reachable stp fresh start S'"

inductive_cases sys_stepE: "sys_step stp fresh S S'"

subsection \<open>Explicit schedules\<close>

datatype ('i, 't) sched = Spawn 't | Act nat 'i

fun exec1 ::
    "('i \<Rightarrow> 's \<Rightarrow> 't \<Rightarrow> ('s \<times> 't) outcome) \<Rightarrow> ('t \<Rightarrow> bool) \<Rightarrow> ('i, 't) sched \<Rightarrow> ('s, 't) sys \<Rightarrow>
     ('s, 't) sys outcome" where
  "exec1 stp fresh (Spawn t) S =
     (if fresh t then Next (S\<lparr>tasks := tasks S @ [t]\<rparr>) else Disabled)"
| "exec1 stp fresh (Act k i) S =
     (if k < length (tasks S) then
        map_outcome (\<lambda>(s', t'). \<lparr>shared = s', tasks = (tasks S)[k := t']\<rparr>)
          (stp i (shared S) (tasks S ! k))
      else Disabled)"

fun exec ::
    "('i \<Rightarrow> 's \<Rightarrow> 't \<Rightarrow> ('s \<times> 't) outcome) \<Rightarrow> ('t \<Rightarrow> bool) \<Rightarrow> ('i, 't) sched list \<Rightarrow> ('s, 't) sys \<Rightarrow>
     ('s, 't) sys outcome" where
  "exec stp fresh [] S = Next S"
| "exec stp fresh (e # es) S =
     (case exec1 stp fresh e S of
        Next S' \<Rightarrow> exec stp fresh es S'
      | Abort \<Rightarrow> Abort | Panic \<Rightarrow> Panic | Disabled \<Rightarrow> Disabled)"

lemma exec1_sys_step: "exec1 stp fresh e S = Next S' \<Longrightarrow> sys_step stp fresh S S'"
proof (cases e)
  case (Act k i)
  assume "exec1 stp fresh e S = Next S'"
  with Act show ?thesis
    by (cases "stp i (shared S) (tasks S ! k)")
       (auto split: if_splits prod.splits intro: sys_step.act)
qed (auto split: if_splits intro: sys_step.spawn)

lemma exec_reachable:
  "exec stp fresh es S = Next S' \<Longrightarrow> reachable stp fresh start S \<Longrightarrow> reachable stp fresh start S'"
proof (induction es arbitrary: S)
  case Nil
  then show ?case by simp
next
  case (Cons e es)
  from Cons.prems(1) obtain T where T: "exec1 stp fresh e S = Next T" "exec stp fresh es T = Next S'"
    by (cases "exec1 stp fresh e S") auto
  from Cons.prems(2) exec1_sys_step [OF T(1)] have "reachable stp fresh start T"
    by (rule reachable.step)
  with T(2) show ?case by (rule Cons.IH)
qed

lemma exec_reachable_init:
  assumes "start s" and "exec stp fresh es \<lparr>shared = s, tasks = []\<rparr> = Next S"
  shows "reachable stp fresh start S"
  by (rule exec_reachable [OF assms(2)])
     (rule reachable.init [where stp = stp and start = start, OF assms(1)])

subsection \<open>Invariants\<close>

locale inv_system =
  fixes stp :: "'i \<Rightarrow> 's \<Rightarrow> 't \<Rightarrow> ('s \<times> 't) outcome"
    and fresh :: "'t \<Rightarrow> bool"
    and start :: "'s \<Rightarrow> bool"
    and inv :: "('s, 't) sys \<Rightarrow> bool"
  assumes inv_init: "start s \<Longrightarrow> inv \<lparr>shared = s, tasks = []\<rparr>"
    and inv_spawn: "inv S \<Longrightarrow> fresh t \<Longrightarrow> inv (S\<lparr>tasks := tasks S @ [t]\<rparr>)"
    and inv_act: "inv S \<Longrightarrow> k < length (tasks S) \<Longrightarrow>
      stp i (shared S) (tasks S ! k) = Next (s', t') \<Longrightarrow>
      inv \<lparr>shared = s', tasks = (tasks S)[k := t']\<rparr>"
begin

lemma inv_step: "sys_step stp fresh S S' \<Longrightarrow> inv S \<Longrightarrow> inv S'"
  by (erule sys_stepE) (auto intro: inv_spawn inv_act)

lemma reachable_inv: "reachable stp fresh start S \<Longrightarrow> inv S"
  by (induction rule: reachable.induct) (auto intro: inv_init inv_step)

end

text \<open>
  The counting invariants. \<open>wt k t\<close> is what task \<open>t\<close> contributes to total \<open>k\<close>.
\<close>

definition totals :: "('k \<Rightarrow> 't \<Rightarrow> nat) \<Rightarrow> 't list \<Rightarrow> 'k \<Rightarrow> nat" where
  "totals wt ts k = wsum (wt k) ts"

definition counting_inv ::
    "('k \<Rightarrow> 't \<Rightarrow> nat) \<Rightarrow> ('t \<Rightarrow> bool) \<Rightarrow> ('s \<Rightarrow> ('k \<Rightarrow> nat) \<Rightarrow> bool) \<Rightarrow> ('s, 't) sys \<Rightarrow> bool" where
  "counting_inv wt wft good S \<longleftrightarrow>
     (\<forall>t \<in> set (tasks S). wft t) \<and> good (shared S) (totals wt (tasks S))"

lemma totals_Nil [simp]: "totals wt [] = (\<lambda>_. 0)"
  by (rule ext) (simp add: totals_def)

locale counting_system =
  fixes stp :: "'i \<Rightarrow> 's \<Rightarrow> 't \<Rightarrow> ('s \<times> 't) outcome"
    and fresh :: "'t \<Rightarrow> bool"
    and start :: "'s \<Rightarrow> bool"
    and wt :: "'k \<Rightarrow> 't \<Rightarrow> nat"
    and wft :: "'t \<Rightarrow> bool"
    and good :: "'s \<Rightarrow> ('k \<Rightarrow> nat) \<Rightarrow> bool"
  assumes start_good: "start s \<Longrightarrow> good s (\<lambda>_. 0)"
    and fresh_wf: "fresh t \<Longrightarrow> wft t"
    and fresh_wt: "fresh t \<Longrightarrow> wt k t = 0"
    and step_wf: "stp i s t = Next (s', t') \<Longrightarrow> wft t \<Longrightarrow> wft t'"
    and step_good: "stp i s t = Next (s', t') \<Longrightarrow> wft t \<Longrightarrow> good s c \<Longrightarrow> (\<And>k. wt k t \<le> c k) \<Longrightarrow>
      good s' (\<lambda>k. c k - wt k t + wt k t')"

sublocale counting_system \<subseteq> inv_system stp fresh start "counting_inv wt wft good"
proof
  fix s assume "start s"
  then show "counting_inv wt wft good \<lparr>shared = s, tasks = []\<rparr>"
    using start_good by (simp add: counting_inv_def)
next
  fix S :: "('s, 't) sys" and t
  assume inv: "counting_inv wt wft good S" and t: "fresh t"
  have "totals wt (tasks S @ [t]) = totals wt (tasks S)"
    by (rule ext) (simp add: totals_def fresh_wt [OF t])
  with inv fresh_wf [OF t] show "counting_inv wt wft good (S\<lparr>tasks := tasks S @ [t]\<rparr>)"
    by (simp add: counting_inv_def)
next
  fix S :: "('s, 't) sys" and k i s' t'
  assume inv: "counting_inv wt wft good S" and k: "k < length (tasks S)"
    and stp: "stp i (shared S) (tasks S ! k) = Next (s', t')"
  from inv k have wft: "wft (tasks S ! k)" and good: "good (shared S) (totals wt (tasks S))"
    by (auto simp: counting_inv_def)
  have le: "wt j (tasks S ! k) \<le> totals wt (tasks S) j" for j
    using wsum_member_le [OF k, of "wt j"] by (simp add: totals_def)
  have upd: "totals wt ((tasks S)[k := t']) =
      (\<lambda>j. totals wt (tasks S) j - wt j (tasks S ! k) + wt j t')"
    by (rule ext) (simp add: totals_def wsum_update [OF k])
  have "wft t'" by (rule step_wf [OF stp wft])
  moreover have "good s' (totals wt ((tasks S)[k := t']))"
    unfolding upd by (rule step_good [OF stp wft good le])
  ultimately show "counting_inv wt wft good \<lparr>shared = s', tasks = (tasks S)[k := t']\<rparr>"
    using inv by (auto simp: counting_inv_def dest!: set_update_subset_insert [THEN subsetD])
qed

context counting_system
begin

lemma reachable_good: "reachable stp fresh start S \<Longrightarrow> good (shared S) (totals wt (tasks S))"
  by (drule reachable_inv) (simp add: counting_inv_def)

lemma reachable_wf: "reachable stp fresh start S \<Longrightarrow> k < length (tasks S) \<Longrightarrow> wft (tasks S ! k)"
  by (drule reachable_inv) (simp add: counting_inv_def)

lemma reachable_wf_all: "reachable stp fresh start S \<Longrightarrow> t \<in> set (tasks S) \<Longrightarrow> wft t"
  by (drule reachable_inv) (simp add: counting_inv_def)

end

lemma totals_member_le: "k < length ts \<Longrightarrow> wt j (ts ! k) \<le> totals wt ts j"
  by (simp add: totals_def wsum_member_le)

lemma totals_unique:
  "totals wt ts j \<le> 1 \<Longrightarrow> k < length ts \<Longrightarrow> l < length ts \<Longrightarrow>
   0 < wt j (ts ! k) \<Longrightarrow> 0 < wt j (ts ! l) \<Longrightarrow> k = l"
  using wsum_pair_le [of k ts l "wt j"] by (cases "k = l") (auto simp: totals_def)

lemma totals_pos_iff: "0 < totals wt ts j \<longleftrightarrow> (\<exists>t \<in> set ts. 0 < wt j t)"
  by (simp add: totals_def wsum_pos_iff)

text \<open>The set of the tasks with a property, by their index.\<close>

definition indices :: "('t \<Rightarrow> bool) \<Rightarrow> 't list \<Rightarrow> nat set" where
  "indices P ts = {k. k < length ts \<and> P (ts ! k)}"

lemma indices_Nil [simp]: "indices P [] = {}"
  by (simp add: indices_def)

lemma indices_empty_iff: "indices P ts = {} \<longleftrightarrow> (\<forall>t \<in> set ts. \<not> P t)"
  unfolding indices_def all_set_conv_all_nth by blast

lemma indices_snoc: "\<not> P t \<Longrightarrow> indices P (ts @ [t]) = indices P ts"
  by (auto simp: indices_def nth_append less_Suc_eq)

lemma indices_update:
  "k < length ts \<Longrightarrow>
   indices P (ts[k := t]) = (if P t then insert k (indices P ts) else indices P ts - {k})"
  by (auto simp: indices_def nth_list_update split: if_splits)

lemma indices_empty:
  assumes "totals wt ts j = 0" and "\<And>t. P t \<Longrightarrow> 0 < wt j t"
  shows "indices P ts = {}"
proof -
  have "\<not> P (ts ! k)" if "k < length ts" for k
    using totals_member_le [OF that, of wt j] assms(1) assms(2) [of "ts ! k"] by auto
  then show ?thesis by (auto simp: indices_def)
qed

lemma indices_subset_singleton:
  assumes "totals wt ts j \<le> 1" and "\<And>t. P t \<Longrightarrow> 0 < wt j t" and "k < length ts" and "0 < wt j (ts ! k)"
  shows "indices P ts \<subseteq> {k}"
proof
  fix l assume "l \<in> indices P ts"
  then have "l < length ts" and "0 < wt j (ts ! l)" using assms(2) by (auto simp: indices_def)
  from totals_unique [OF assms(1) this(1) assms(3) this(2) assms(4)] show "l \<in> {k}" by simp
qed

lemma card_indices: "card (indices P ts) = wsum (\<lambda>t. of_bool (P t)) ts"
proof (induction ts rule: rev_induct)
  case Nil
  then show ?case by simp
next
  case (snoc t ts)
  have "indices P (ts @ [t]) = indices P ts \<union> (if P t then {length ts} else {})"
    by (auto simp: indices_def nth_append less_Suc_eq)
  moreover have "finite (indices P ts)" "length ts \<notin> indices P ts"
    by (simp_all add: indices_def)
  ultimately show ?case using snoc.IH by simp
qed

subsection \<open>Refinement\<close>

locale refinement_system = inv_system stp fresh start inv
  for stp :: "'i \<Rightarrow> 's \<Rightarrow> 't \<Rightarrow> ('s \<times> 't) outcome"
    and fresh :: "'t \<Rightarrow> bool"
    and start :: "'s \<Rightarrow> bool"
    and inv :: "('s, 't) sys \<Rightarrow> bool" +
  fixes abs_state :: "('s, 't) sys \<Rightarrow> 'b"
    and astart :: "'b \<Rightarrow> bool"
    and astep :: "'b \<Rightarrow> 'b \<Rightarrow> bool"
  assumes abs_init: "start s \<Longrightarrow> astart (abs_state \<lparr>shared = s, tasks = []\<rparr>)"
    and abs_spawn: "inv S \<Longrightarrow> fresh t \<Longrightarrow>
      abs_state (S\<lparr>tasks := tasks S @ [t]\<rparr>) = abs_state S"
    and abs_act: "inv S \<Longrightarrow> k < length (tasks S) \<Longrightarrow>
      stp i (shared S) (tasks S ! k) = Next (s', t') \<Longrightarrow>
      abs_state \<lparr>shared = s', tasks = (tasks S)[k := t']\<rparr> = abs_state S \<or>
      astep (abs_state S) (abs_state \<lparr>shared = s', tasks = (tasks S)[k := t']\<rparr>)"
begin

lemma step_refines:
  "reachable stp fresh start S \<Longrightarrow> sys_step stp fresh S S' \<Longrightarrow>
   abs_state S' = abs_state S \<or> astep (abs_state S) (abs_state S')"
  by (drule reachable_inv, erule sys_stepE) (simp_all add: abs_spawn abs_act)

lemma reachable_refines:
  "reachable stp fresh start S \<Longrightarrow> \<exists>a. astart a \<and> astep\<^sup>*\<^sup>* a (abs_state S)"
proof (induction rule: reachable.induct)
  case (init s)
  then show ?case using abs_init by blast
next
  case (step S S')
  then obtain a where a: "astart a" "astep\<^sup>*\<^sup>* a (abs_state S)" by blast
  have "astep\<^sup>*\<^sup>* a (abs_state S')"
    using step_refines [OF step.hyps] a(2) by (auto intro: rtranclp.rtrancl_into_rtrancl)
  with a(1) show ?case by blast
qed

end

text \<open>Fewer actions, fewer states.\<close>

lemma reachable_mono:
  assumes "reachable stp fresh start S"
    and "\<And>i s t x. stp i s t = Next x \<Longrightarrow> stp' i s t = Next x"
  shows "reachable stp' fresh start S"
  using assms(1)
proof (induction rule: reachable.induct)
  case (step S S')
  from step.hyps(2) have "sys_step stp' fresh S S'"
    by (rule sys_stepE) (auto intro: sys_step.intros assms(2))
  with step.IH show ?case by (rule reachable.step)
qed (rule reachable.init)

subsection \<open>Components\<close>

text \<open>
  A system that contains another one: the shared state and each task have a part that moves by the
  steps of the component, or stays. The reachable states of the system then contain reachable states
  of the component, so its properties carry over.
\<close>

definition part :: "('s \<Rightarrow> 's0) \<Rightarrow> ('t \<Rightarrow> 't0) \<Rightarrow> ('s, 't) sys \<Rightarrow> ('s0, 't0) sys" where
  "part sp tp S = \<lparr>shared = sp (shared S), tasks = map tp (tasks S)\<rparr>"

lemma part_simps [simp]:
  "shared (part sp tp S) = sp (shared S)" "tasks (part sp tp S) = map tp (tasks S)"
  by (simp_all add: part_def)

locale component_system =
  fixes stp :: "'i \<Rightarrow> 's \<Rightarrow> 't \<Rightarrow> ('s \<times> 't) outcome"
    and fresh :: "'t \<Rightarrow> bool"
    and start :: "'s \<Rightarrow> bool"
    and stp0 :: "'j \<Rightarrow> 's0 \<Rightarrow> 't0 \<Rightarrow> ('s0 \<times> 't0) outcome"
    and fresh0 :: "'t0 \<Rightarrow> bool"
    and start0 :: "'s0 \<Rightarrow> bool"
    and sp :: "'s \<Rightarrow> 's0"
    and tp :: "'t \<Rightarrow> 't0"
  assumes part_start: "start s \<Longrightarrow> start0 (sp s)"
    and part_fresh: "fresh t \<Longrightarrow> fresh0 (tp t)"
    and part_act: "stp i s t = Next (s', t') \<Longrightarrow>
      sp s' = sp s \<and> tp t' = tp t \<or> (\<exists>j. stp0 j (sp s) (tp t) = Next (sp s', tp t'))"

sublocale component_system \<subseteq> inv_system stp fresh start "\<lambda>S. reachable stp0 fresh0 start0 (part sp tp S)"
proof
  show "start s \<Longrightarrow> reachable stp0 fresh0 start0 (part sp tp \<lparr>shared = s, tasks = []\<rparr>)" for s
    using reachable.init [where start = start0 and s = "sp s" and stp = stp0 and fresh = fresh0]
    by (simp add: part_def part_start)
next
  fix S :: "('s, 't) sys" and t
  assume inv: "reachable stp0 fresh0 start0 (part sp tp S)" and t: "fresh t"
  show "reachable stp0 fresh0 start0 (part sp tp (S\<lparr>tasks := tasks S @ [t]\<rparr>))"
    using reachable.step [OF inv sys_step.spawn [where fresh = fresh0, OF part_fresh [OF t]]]
    by (simp add: part_def)
next
  fix S :: "('s, 't) sys" and k i s' t'
  assume inv: "reachable stp0 fresh0 start0 (part sp tp S)" and k: "k < length (tasks S)"
    and step: "stp i (shared S) (tasks S ! k) = Next (s', t')"
  from part_act [OF step] show "reachable stp0 fresh0 start0 (part sp tp \<lparr>shared = s', tasks = (tasks S)[k := t']\<rparr>)"
  proof (elim disjE exE)
    assume "sp s' = sp (shared S) \<and> tp t' = tp (tasks S ! k)"
    then have "part sp tp \<lparr>shared = s', tasks = (tasks S)[k := t']\<rparr> = part sp tp S"
      using k by (simp add: part_def map_update list_update_same_conv)
    with inv show ?thesis by simp
  next
    fix j assume j: "stp0 j (sp (shared S)) (tp (tasks S ! k)) = Next (sp s', tp t')"
    have "sys_step stp0 fresh0 (part sp tp S) \<lparr>shared = sp s', tasks = (tasks (part sp tp S))[k := tp t']\<rparr>"
      by (rule sys_step.act [of k _ stp0 j]) (use k j in simp_all)
    from reachable.step [OF inv this] show ?thesis by (simp add: part_def map_update)
  qed
qed

end
