(* ===== verification/Event_Interface.thy ===== *)
theory Event_Interface
  imports Prelude
begin

text \<open>
  The interface of the crates \<open>event-listener\<close> and \<open>event-listener-strategy\<close>, which are not part
  of the repository. An \<open>Event\<close> is a value of an arbitrary type \<open>'e\<close>, an \<open>EventListener\<close> a value
  of an arbitrary type \<open>'l\<close>, and the operations the crate calls are a parameter of every
  definition that uses them:

  \<^item> \<open>ev_listen\<close>: \<open>Event::listen()\<close>;
  \<^item> \<open>ev_notify n\<close>: \<open>Event::notify(n)\<close>; \<open>ev_notify_additional n\<close>: \<open>Event::notify_additional(n)\<close>;
  \<^item> \<open>ev_poll l\<close>: \<open>strategy.poll(&mut Some(l), cx)\<close>, where \<open>True\<close> is \<open>Poll::Ready\<close> (the strategy has
    then taken the listener out of the option) and \<open>False\<close> is \<open>Poll::Pending\<close>;
  \<^item> \<open>ev_drop l\<close>: dropping an \<open>EventListener\<close>.

  Each operation is one indivisible action. Safety properties hold for every such parameter. The
  properties about wake-ups assume \<open>event_laws\<close>: the documented behaviour, over two views of an
  event, the listeners that are registered (\<open>active\<close>) and those of them that have been notified
  and have not yet taken the notification (\<open>notified\<close>).
\<close>

record ('e, 'l) event_ops =
  ev_listen :: "'e \<Rightarrow> 'l \<times> 'e"
  ev_notify :: "usize \<Rightarrow> 'e \<Rightarrow> 'e"
  ev_notify_additional :: "usize \<Rightarrow> 'e \<Rightarrow> 'e"
  ev_poll :: "'l \<Rightarrow> 'e \<Rightarrow> bool \<times> 'e"
  ev_drop :: "'l \<Rightarrow> 'e \<Rightarrow> 'e"

record ('e, 'l) event_view =
  active :: "'e \<Rightarrow> 'l set"
  notified :: "'e \<Rightarrow> 'l set"

text \<open>
  The laws, one per operation.
  \<^item> \<open>listen\<close> registers a new listener that is not notified.
  \<^item> \<open>notify(n)\<close> makes at least \<open>n\<close> of the registered listeners notified (all, if there are fewer),
    counting those that already are, and takes back no notification.
  \<^item> \<open>notify_additional(n)\<close> notifies \<open>n\<close> listeners that were not yet notified (all, if fewer).
  \<^item> A poll is ready exactly when the listener has been notified, and then unregisters it.
  \<^item> Dropping a listener unregisters it; if it had been notified, another registered listener is
    notified in its place, if there is one.
\<close>

definition listen_law :: "('e, 'l) event_ops \<Rightarrow> ('e, 'l) event_view \<Rightarrow> bool" where
  "listen_law ev vw \<longleftrightarrow> (\<forall>e l e'. ev_listen ev e = (l, e') \<longrightarrow>
     l \<notin> active vw e \<and> active vw e' = insert l (active vw e) \<and> notified vw e' = notified vw e)"

definition notify_law :: "('e, 'l) event_ops \<Rightarrow> ('e, 'l) event_view \<Rightarrow> bool" where
  "notify_law ev vw \<longleftrightarrow> (\<forall>n e.
     active vw (ev_notify ev n e) = active vw e \<and>
     notified vw e \<subseteq> notified vw (ev_notify ev n e) \<and>
     min (unat n) (card (active vw e)) \<le> card (notified vw (ev_notify ev n e)))"

definition notify_additional_law :: "('e, 'l) event_ops \<Rightarrow> ('e, 'l) event_view \<Rightarrow> bool" where
  "notify_additional_law ev vw \<longleftrightarrow> (\<forall>n e.
     active vw (ev_notify_additional ev n e) = active vw e \<and>
     notified vw e \<subseteq> notified vw (ev_notify_additional ev n e) \<and>
     min (unat n) (card (active vw e - notified vw e)) \<le>
       card (notified vw (ev_notify_additional ev n e) - notified vw e))"

definition poll_law :: "('e, 'l) event_ops \<Rightarrow> ('e, 'l) event_view \<Rightarrow> bool" where
  "poll_law ev vw \<longleftrightarrow> (\<forall>l e r e'. l \<in> active vw e \<longrightarrow> ev_poll ev l e = (r, e') \<longrightarrow>
     (r \<longleftrightarrow> l \<in> notified vw e) \<and>
     active vw e' = (if r then active vw e - {l} else active vw e) \<and>
     notified vw e' = (if r then notified vw e - {l} else notified vw e))"

definition drop_law :: "('e, 'l) event_ops \<Rightarrow> ('e, 'l) event_view \<Rightarrow> bool" where
  "drop_law ev vw \<longleftrightarrow> (\<forall>l e. l \<in> active vw e \<longrightarrow>
     active vw (ev_drop ev l e) = active vw e - {l} \<and>
     notified vw e - {l} \<subseteq> notified vw (ev_drop ev l e) \<and>
     (l \<notin> notified vw e \<longrightarrow> notified vw (ev_drop ev l e) = notified vw e) \<and>
     (l \<in> notified vw e \<longrightarrow> active vw e - {l} \<noteq> {} \<longrightarrow> notified vw (ev_drop ev l e) \<noteq> {}))"

definition view_law :: "('e, 'l) event_view \<Rightarrow> bool" where
  "view_law vw \<longleftrightarrow> (\<forall>e. finite (active vw e) \<and> notified vw e \<subseteq> active vw e)"

definition event_laws :: "('e, 'l) event_ops \<Rightarrow> ('e, 'l) event_view \<Rightarrow> bool" where
  "event_laws ev vw \<longleftrightarrow> view_law vw \<and> listen_law ev vw \<and> notify_law ev vw \<and>
     notify_additional_law ev vw \<and> poll_law ev vw \<and> drop_law ev vw"

lemma event_lawsD:
  assumes "event_laws ev vw"
  shows "view_law vw" "listen_law ev vw" "notify_law ev vw"
    "notify_additional_law ev vw" "poll_law ev vw" "drop_law ev vw"
  using assms by (simp_all add: event_laws_def)

text \<open>A newly created event (\<open>Event::new()\<close>) has no listener.\<close>

definition fresh_event :: "('e, 'l) event_view \<Rightarrow> 'e \<Rightarrow> bool" where
  "fresh_event vw e \<longleftrightarrow> active vw e = {}"

lemma fresh_event_notified: "view_law vw \<Longrightarrow> fresh_event vw e \<Longrightarrow> notified vw e = {}"
  by (auto simp: view_law_def fresh_event_def)

lemma notified_active: "event_laws ev vw \<Longrightarrow> l \<in> notified vw e \<Longrightarrow> l \<in> active vw e"
  by (auto simp: event_laws_def view_law_def)

lemma notify_active: "event_laws ev vw \<Longrightarrow> active vw (ev_notify ev n e) = active vw e"
  by (simp add: event_laws_def notify_law_def)

lemma notify_keeps: "event_laws ev vw \<Longrightarrow> l \<in> notified vw e \<Longrightarrow> l \<in> notified vw (ev_notify ev n e)"
  by (auto simp: event_laws_def notify_law_def)

lemma notify_some:
  assumes laws: "event_laws ev vw" and l: "l \<in> active vw e" and n: "n \<noteq> 0"
  shows "notified vw (ev_notify ev n e) \<noteq> {}"
proof -
  have "finite (active vw e)" using laws by (simp add: event_laws_def view_law_def)
  with l have "0 < card (active vw e)" by (auto simp: card_gt_0_iff)
  moreover have "min (unat n) (card (active vw e)) \<le> card (notified vw (ev_notify ev n e))"
    using laws unfolding event_laws_def notify_law_def by blast
  moreover have "0 < unat n" using n by (simp add: unat_gt_0)
  ultimately have "0 < card (notified vw (ev_notify ev n e))" by simp
  then show ?thesis by auto
qed

lemmas notify_one = notify_some [where n = 1, simplified]

lemma notify_all:
  assumes laws: "event_laws ev vw" and few: "card (active vw e) \<le> unat n"
  shows "notified vw (ev_notify ev n e) = active vw e"
proof -
  have fin: "finite (active vw (ev_notify ev n e))"
    and sub: "notified vw (ev_notify ev n e) \<subseteq> active vw (ev_notify ev n e)"
    using laws by (simp_all add: event_laws_def view_law_def)
  have "min (unat n) (card (active vw e)) \<le> card (notified vw (ev_notify ev n e))"
    using laws unfolding event_laws_def notify_law_def by blast
  with few have "card (active vw (ev_notify ev n e)) \<le> card (notified vw (ev_notify ev n e))"
    by (simp add: notify_active [OF laws])
  with fin sub have "notified vw (ev_notify ev n e) = active vw (ev_notify ev n e)"
    by (simp add: card_seteq)
  then show ?thesis by (simp add: notify_active [OF laws])
qed

lemma notify_additional_active:
  "event_laws ev vw \<Longrightarrow> active vw (ev_notify_additional ev n e) = active vw e"
  by (simp add: event_laws_def notify_additional_law_def)

lemma notify_additional_keeps:
  "event_laws ev vw \<Longrightarrow> l \<in> notified vw e \<Longrightarrow> l \<in> notified vw (ev_notify_additional ev n e)"
  by (auto simp: event_laws_def notify_additional_law_def)

lemma notify_additional_all:
  assumes laws: "event_laws ev vw" and few: "card (active vw e) \<le> unat n"
  shows "notified vw (ev_notify_additional ev n e) = active vw e"
proof -
  let ?e' = "ev_notify_additional ev n e"
  have fin: "finite (active vw e)" and sub: "notified vw ?e' \<subseteq> active vw e"
    using laws notify_additional_active [OF laws, of n e] unfolding event_laws_def view_law_def by metis+
  have keep: "notified vw e \<subseteq> notified vw ?e'" using notify_additional_keeps [OF laws] by blast
  have "card (active vw e - notified vw e) \<le> unat n"
    using few card_mono [OF fin, of "active vw e - notified vw e"] by simp
  moreover have "min (unat n) (card (active vw e - notified vw e)) \<le> card (notified vw ?e' - notified vw e)"
    using laws unfolding event_laws_def notify_additional_law_def by blast
  ultimately have le: "card (active vw e - notified vw e) \<le> card (notified vw ?e' - notified vw e)" by simp
  have "notified vw ?e' - notified vw e = active vw e - notified vw e"
    by (rule card_seteq) (use fin sub le in auto)
  with sub keep show ?thesis by blast
qed

lemma listenD:
  assumes "event_laws ev vw" and "ev_listen ev e = (l, e')"
  shows "l \<notin> active vw e" "active vw e' = insert l (active vw e)" "notified vw e' = notified vw e"
  using assms unfolding event_laws_def listen_law_def by blast+

lemma pollD:
  assumes "event_laws ev vw" and "l \<in> active vw e" and "ev_poll ev l e = (r, e')"
  shows "r \<longleftrightarrow> l \<in> notified vw e"
    "active vw e' = (if r then active vw e - {l} else active vw e)"
    "notified vw e' = (if r then notified vw e - {l} else notified vw e)"
  using assms unfolding event_laws_def poll_law_def by blast+

text \<open>A listener that has been notified; a new one has not.\<close>

definition heard :: "('e, 'l) event_view \<Rightarrow> 'e \<Rightarrow> 'l option \<Rightarrow> bool" where
  "heard vw e lo \<longleftrightarrow> (\<exists>x. lo = Some x \<and> x \<in> notified vw e)"

lemma heard_simps [simp]: "\<not> heard vw e None" "heard vw e (Some x) \<longleftrightarrow> x \<in> notified vw e"
  by (simp_all add: heard_def)

lemma listen_untold:
  assumes laws: "event_laws ev vw" and l: "ev_listen ev e = (l, e')"
  shows "l \<notin> notified vw e'"
  using listenD [OF laws l] notified_active [OF laws, of l e] by auto

lemma dropD:
  assumes "event_laws ev vw" and "l \<in> active vw e"
  shows "active vw (ev_drop ev l e) = active vw e - {l}"
    "notified vw e - {l} \<subseteq> notified vw (ev_drop ev l e)"
    "l \<notin> notified vw e \<Longrightarrow> notified vw (ev_drop ev l e) = notified vw e"
    "l \<in> notified vw e \<Longrightarrow> active vw e - {l} \<noteq> {} \<Longrightarrow> notified vw (ev_drop ev l e) \<noteq> {}"
  using assms unfolding event_laws_def drop_law_def by blast+

end
