(* ===== verification/Mutex.thy ===== *)
theory Mutex
  imports Interleaving Event_Interface
begin

text \<open>
  \<^verbatim>\<open>src/mutex.rs\<close>: the asynchronous mutex.

  The state word holds the lock bit and, in the other bits, the number of starved lock
  operations. A task is a \<open>Lock\<close> future with the guard it yields. \<open>hot_step\<close> and \<open>fair_step\<close> are
  the two loops of \<open>AcquireSlow::poll_with_strategy\<close>, one indivisible action per step; \<open>lock_step\<close>
  puts the future's life together: first poll, slow path, cancellation, guard, unlock.

  Definitions follow the configuration with \<open>std\<close> outside wasm and loom. The clock is an input
  of the step, in nanoseconds.
\<close>

subsection \<open>The mutex and its non-blocking operations\<close>

record ('e, 'a) mutex =
  mstate :: usize
  lock_ops :: 'e
  mdata :: 'a

definition mutex_new :: "'e \<Rightarrow> 'a \<Rightarrow> ('e, 'a) mutex" where
  "mutex_new e d = \<lparr>mstate = 0, lock_ops = e, mdata = d\<rparr>"

text \<open>\<open>From\<close> and \<open>Default\<close>; \<open>d\<close> is the default of the value.\<close>

definition mutex_from :: "'e \<Rightarrow> 'a \<Rightarrow> ('e, 'a) mutex" where
  [simp]: "mutex_from e val = mutex_new e val"

definition mutex_default :: "'e \<Rightarrow> 'a \<Rightarrow> ('e, 'a) mutex" where
  [simp]: "mutex_default e d = mutex_new e d"

definition into_inner :: "('e, 'a) mutex \<Rightarrow> 'a" where
  "into_inner m = mdata m"

definition get_mut :: "('a \<Rightarrow> 'a) \<Rightarrow> ('e, 'a) mutex \<Rightarrow> ('e, 'a) mutex" where
  "get_mut f m = m\<lparr>mdata := f (mdata m)\<rparr>"

text \<open>\<open>Deref\<close> and \<open>DerefMut\<close> of the guard: what the client reads and writes through it.\<close>

definition mutex_guard_deref :: "('e, 'a) mutex \<Rightarrow> 'a" where
  [simp]: "mutex_guard_deref m = mdata m"

definition mutex_guard_deref_mut :: "'a \<Rightarrow> ('e, 'a) mutex \<Rightarrow> ('e, 'a) mutex" where
  [simp]: "mutex_guard_deref_mut v m = m\<lparr>mdata := v\<rparr>"

text \<open>\<open>True\<close> stands for \<open>Some(guard)\<close>.\<close>

definition try_lock :: "('e, 'a) mutex \<Rightarrow> bool \<times> ('e, 'a) mutex" where
  "try_lock m = (let (r, c) = compare_exchange (mstate m) 0 1 in (is_ok r, m\<lparr>mstate := c\<rparr>))"

text \<open>\<open>unlock_unchecked\<close> is two actions: clear the lock bit, then notify one lock operation.\<close>

definition unlock_sub :: "('e, 'a) mutex \<Rightarrow> ('e, 'a) mutex" where
  "unlock_sub m = m\<lparr>mstate := snd (fetch_sub (mstate m) 1)\<rparr>"

definition unlock_notify :: "('e, 'l) event_ops \<Rightarrow> ('e, 'a) mutex \<Rightarrow> ('e, 'a) mutex" where
  "unlock_notify ev m = m\<lparr>lock_ops := ev_notify ev 1 (lock_ops m)\<rparr>"

definition unlock_unchecked :: "('e, 'l) event_ops \<Rightarrow> ('e, 'a) mutex \<Rightarrow> ('e, 'a) mutex" where
  "unlock_unchecked ev m = unlock_notify ev (unlock_sub m)"

subsection \<open>The slow path\<close>

record 'l acquire_slow =
  sl_mutex :: bool
  sl_listener :: "'l option"
  sl_start :: "nat option"
  sl_starved :: bool

definition acquire_slow_new :: "'l acquire_slow" where
  "acquire_slow_new = \<lparr>sl_mutex = True, sl_listener = None, sl_start = None, sl_starved = False\<rparr>"

text \<open>Program points of the two loops. The listener, the start time and the flag are in the record.\<close>

datatype hot_pc = HotListen | HotCas | HotWait | HotRetry | HotNotify | AddStarved

datatype fair_pc = FairListen | FairCas | FairNotify | FairWait | FairOr | TakeMutex

text \<open>
  A lock operation: not yet polled; about to try the fast path; suspended after \<open>Pending\<close>;
  inside one of the loops; holding the guard; between the two actions of unlocking; finished.
  The option in the last three is a listener the completed future still owns until it is dropped.
  \<open>LTryLock\<close> is a direct call of \<open>Mutex::try_lock\<close>.
\<close>

datatype 'l lock =
    LNew
  | LTryLock
  | LTry
  | LSlow "'l acquire_slow"
  | LHot hot_pc "'l acquire_slow"
  | LFair fair_pc "'l acquire_slow"
  | LHeld "'l option"
  | LUnlock "'l option"
  | LDone "'l option"

definition take_mutex ::
    "('e, 'a) mutex \<Rightarrow> 'l acquire_slow \<Rightarrow> bool \<times> ('e, 'a) mutex \<times> 'l acquire_slow" where
  "take_mutex m s =
     (sl_mutex s,
      (if sl_starved s \<and> sl_mutex s then m\<lparr>mstate := snd (fetch_sub (mstate m) 2)\<rparr> else m),
      s\<lparr>sl_mutex := False\<rparr>)"

text \<open>\<open>return Poll::Ready(self.take_mutex().unwrap())\<close>\<close>

definition ready_take ::
    "('e, 'a) mutex \<Rightarrow> 'l acquire_slow \<Rightarrow> (('e, 'a) mutex \<times> 'l lock) outcome" where
  "ready_take m s = (case take_mutex m s of
     (b, m', s') \<Rightarrow> if b then Next (m', LHeld (sl_listener s')) else Panic)"

text \<open>The head of each loop: listen first unless there is a listener.\<close>

definition hot_top :: "'l acquire_slow \<Rightarrow> 'l lock" where
  "hot_top s = LHot (if sl_listener s = None then HotListen else HotWait) s"

definition fair_top :: "'l acquire_slow \<Rightarrow> 'l lock" where
  "fair_top s = LFair (if sl_listener s = None then FairListen else FairWait) s"

text \<open>
  Entry of \<open>poll_with_strategy\<close>: the start time is taken on the first poll, the reference to the
  mutex is expected to be there, and the starved flag selects the loop.
\<close>

definition slow_enter ::
    "nat \<Rightarrow> ('e, 'a) mutex \<Rightarrow> 'l acquire_slow \<Rightarrow> (('e, 'a) mutex \<times> 'l lock) outcome" where
  "slow_enter now m s =
     (let s' = s\<lparr>sl_start := Some (case sl_start s of None \<Rightarrow> now | Some t \<Rightarrow> t)\<rparr> in
      if \<not> sl_mutex s' then Panic
      else if \<not> sl_starved s' then Next (m, hot_top s') else Next (m, fair_top s'))"

text \<open>\<open>start.elapsed() > Duration::from_micros(500)\<close>\<close>

definition elapsed_500us :: "nat \<Rightarrow> 'l acquire_slow \<Rightarrow> bool" where
  "elapsed_500us now s = (case sl_start s of None \<Rightarrow> False | Some t \<Rightarrow> 500 * 1000 < now - t)"

text \<open>\<open>compare_exchange(old, new).unwrap_or_else(|x| x)\<close> on the state word.\<close>

definition cas_state :: "usize \<Rightarrow> usize \<Rightarrow> ('e, 'a) mutex \<Rightarrow> usize \<times> ('e, 'a) mutex" where
  "cas_state old new m =
     (let (r, c) = compare_exchange (mstate m) old new
      in (unwrap_or_else_id r, m\<lparr>mstate := c\<rparr>))"

fun hot_step ::
    "('e, 'l) event_ops \<Rightarrow> nat \<Rightarrow> hot_pc \<Rightarrow> ('e, 'a) mutex \<Rightarrow> 'l acquire_slow \<Rightarrow>
     (('e, 'a) mutex \<times> 'l lock) outcome" where
  "hot_step ev now HotListen m s =
     (let (l, e) = ev_listen ev (lock_ops m)
      in Next (m\<lparr>lock_ops := e\<rparr>, LHot HotCas (s\<lparr>sl_listener := Some l\<rparr>)))"
| "hot_step ev now HotCas m s =
     (let (x, m') = cas_state 0 1 m in
      if x = 0 then ready_take m' s
      else if x = 1 then Next (m', hot_top s)
      else Next (m', LHot AddStarved s))"
| "hot_step ev now HotWait m s =
     (case sl_listener s of
        None \<Rightarrow> Panic
      | Some l \<Rightarrow>
          (let (ready, e) = ev_poll ev l (lock_ops m) in
           if ready then Next (m\<lparr>lock_ops := e\<rparr>, LHot HotRetry (s\<lparr>sl_listener := None\<rparr>))
           else Next (m\<lparr>lock_ops := e\<rparr>, LSlow s)))"
| "hot_step ev now HotRetry m s =
     (let (x, m') = cas_state 0 1 m in
      if x = 0 then ready_take m' s
      else if x = 1 then
        (if elapsed_500us now s then Next (m', LHot AddStarved s) else Next (m', hot_top s))
      else Next (m', LHot HotNotify s))"
| "hot_step ev now HotNotify m s =
     Next (m\<lparr>lock_ops := ev_notify ev 1 (lock_ops m)\<rparr>, LHot AddStarved s)"
| "hot_step ev now AddStarved m s =
     (let (old, c) = fetch_add (mstate m) 2 in
      if usize_MAX div 2 < old then Abort
      else Next (m\<lparr>mstate := c\<rparr>, fair_top (s\<lparr>sl_starved := True\<rparr>)))"

fun fair_step ::
    "('e, 'l) event_ops \<Rightarrow> fair_pc \<Rightarrow> ('e, 'a) mutex \<Rightarrow> 'l acquire_slow \<Rightarrow>
     (('e, 'a) mutex \<times> 'l lock) outcome" where
  "fair_step ev FairListen m s =
     (let (l, e) = ev_listen ev (lock_ops m)
      in Next (m\<lparr>lock_ops := e\<rparr>, LFair FairCas (s\<lparr>sl_listener := Some l\<rparr>)))"
| "fair_step ev FairCas m s =
     (let (x, m') = cas_state 2 (2 OR 1) m in
      if x = 2 then Next (m', LFair TakeMutex s)
      else if x mod 2 = 1 then Next (m', fair_top s)
      else Next (m', LFair FairNotify s))"
| "fair_step ev FairNotify m s =
     Next (m\<lparr>lock_ops := ev_notify ev 1 (lock_ops m)\<rparr>, fair_top s)"
| "fair_step ev FairWait m s =
     (case sl_listener s of
        None \<Rightarrow> Panic
      | Some l \<Rightarrow>
          (let (ready, e) = ev_poll ev l (lock_ops m) in
           if ready then Next (m\<lparr>lock_ops := e\<rparr>, LFair FairOr (s\<lparr>sl_listener := None\<rparr>))
           else Next (m\<lparr>lock_ops := e\<rparr>, LSlow s)))"
| "fair_step ev FairOr m s =
     (let (old, c) = fetch_or (mstate m) 1 in
      if old mod 2 = 0 then Next (m\<lparr>mstate := c\<rparr>, LFair TakeMutex s)
      else Next (m\<lparr>mstate := c\<rparr>, fair_top s))"
| "fair_step ev TakeMutex m s = ready_take m s"

subsection \<open>The life of a lock operation\<close>

text \<open>Dropping a completed or cancelled future drops the listener it still owns.\<close>

definition drop_listener ::
    "('e, 'l) event_ops \<Rightarrow> ('e, 'a) mutex \<Rightarrow> 'l option \<Rightarrow> ('l option \<Rightarrow> 'l lock) \<Rightarrow>
     (('e, 'a) mutex \<times> 'l lock) outcome" where
  "drop_listener ev m lo C = (case lo of
     None \<Rightarrow> Disabled
   | Some l \<Rightarrow> Next (m\<lparr>lock_ops := ev_drop ev l (lock_ops m)\<rparr>, C None))"

text \<open>Dropping the guard calls \<open>unlock_unchecked\<close>: its first action; \<open>LUnlock\<close> is the second.\<close>

definition mutex_guard_drop :: "('e, 'a) mutex \<Rightarrow> 'l option \<Rightarrow> ('e, 'a) mutex \<times> 'l lock" where
  [simp]: "mutex_guard_drop m lo = (unlock_sub m, LUnlock lo)"

text \<open>
  What the client or the scheduler does next with a lock operation: poll the future; let the
  running call perform its next action (at clock time \<open>now\<close>); drop the suspended future; write
  the protected value through the guard; drop the guard; drop the completed future.
\<close>

datatype 'a lock_in = Poll nat | Run nat | Cancel | Write 'a | Unlock | DropFut

definition lock_step ::
    "('e, 'l) event_ops \<Rightarrow> 'a lock_in \<Rightarrow> ('e, 'a) mutex \<Rightarrow> 'l lock \<Rightarrow>
     (('e, 'a) mutex \<times> 'l lock) outcome" where
  "lock_step ev i m l = (case l of
     LNew \<Rightarrow> (case i of
         Poll now \<Rightarrow> Next (m, LTry)
       | Cancel \<Rightarrow> Next (m, LDone None)
       | _ \<Rightarrow> Disabled)
   | LTryLock \<Rightarrow> (case i of
         Run now \<Rightarrow>
           (let (ok, m') = try_lock m in Next (m', if ok then LHeld None else LDone None))
       | _ \<Rightarrow> Disabled)
   | LTry \<Rightarrow> (case i of
         Run now \<Rightarrow>
           (let (ok, m') = try_lock m in
            if ok then Next (m', LHeld None) else slow_enter now m' acquire_slow_new)
       | _ \<Rightarrow> Disabled)
   | LSlow s \<Rightarrow> (case i of
         Poll now \<Rightarrow> slow_enter now m s
       | Cancel \<Rightarrow>
           (case take_mutex m s of (b, m', s') \<Rightarrow> Next (m', LDone (sl_listener s')))
       | _ \<Rightarrow> Disabled)
   | LHot pc s \<Rightarrow> (case i of Run now \<Rightarrow> hot_step ev now pc m s | _ \<Rightarrow> Disabled)
   | LFair pc s \<Rightarrow> (case i of Run now \<Rightarrow> fair_step ev pc m s | _ \<Rightarrow> Disabled)
   | LHeld lo \<Rightarrow> (case i of
         Write v \<Rightarrow> Next (mutex_guard_deref_mut v m, LHeld lo)
       | Unlock \<Rightarrow> Next (mutex_guard_drop m lo)
       | DropFut \<Rightarrow> drop_listener ev m lo LHeld
       | _ \<Rightarrow> Disabled)
   | LUnlock lo \<Rightarrow> (case i of
         Run now \<Rightarrow> Next (unlock_notify ev m, LDone lo)
       | DropFut \<Rightarrow> drop_listener ev m lo LUnlock
       | _ \<Rightarrow> Disabled)
   | LDone lo \<Rightarrow> (case i of DropFut \<Rightarrow> drop_listener ev m lo LDone | _ \<Rightarrow> Disabled))"

text \<open>A task starts as an unpolled \<open>Lock\<close> future or as a call of \<open>try_lock\<close>.\<close>

definition lock_fresh :: "'l lock \<Rightarrow> bool" where
  "lock_fresh l \<longleftrightarrow> l = LNew \<or> l = LTryLock"

definition mutex_start :: "('e \<Rightarrow> bool) \<Rightarrow> ('e, 'a) mutex \<Rightarrow> bool" where
  "mutex_start new_event m \<longleftrightarrow> mstate m = 0 \<and> new_event (lock_ops m)"

subsection \<open>The operations in closed form\<close>

lemma cas_state_eq:
  "cas_state old new m = (mstate m, if mstate m = old then m\<lparr>mstate := new\<rparr> else m)"
  by (simp add: cas_state_def atomic_defs)

lemma try_lock_eq: "try_lock m = (mstate m = 0, if mstate m = 0 then m\<lparr>mstate := 1\<rparr> else m)"
  by (simp add: try_lock_def atomic_defs)

lemmas mutex_op_defs = cas_state_eq try_lock_eq unlock_sub_def unlock_notify_def take_mutex_def
  ready_take_def hot_top_def fair_top_def slow_enter_def drop_listener_def acquire_slow_new_def
  fetch_add_def fetch_sub_def fetch_or_def

subsection \<open>Well-formed lock operations\<close>

text \<open>
  What the local variables of a lock operation satisfy at each program point: a suspended or
  running slow path still has its reference to the mutex, a start time, and a listener exactly
  where the code expects one; it is starved exactly in the second loop.
\<close>

definition hot_wf :: "hot_pc \<Rightarrow> 'l acquire_slow \<Rightarrow> bool" where
  "hot_wf pc s \<longleftrightarrow> sl_mutex s \<and> sl_start s \<noteq> None \<and> \<not> sl_starved s \<and>
     (pc \<in> {HotListen, HotRetry, HotNotify} \<longrightarrow> sl_listener s = None) \<and>
     (pc \<in> {HotCas, HotWait} \<longrightarrow> sl_listener s \<noteq> None)"

definition fair_wf :: "fair_pc \<Rightarrow> 'l acquire_slow \<Rightarrow> bool" where
  "fair_wf pc s \<longleftrightarrow> sl_mutex s \<and> sl_start s \<noteq> None \<and> sl_starved s \<and>
     (pc \<in> {FairListen, FairOr} \<longrightarrow> sl_listener s = None) \<and>
     (pc \<in> {FairCas, FairNotify, FairWait} \<longrightarrow> sl_listener s \<noteq> None)"

definition lock_wf :: "'l lock \<Rightarrow> bool" where
  "lock_wf l = (case l of
     LSlow s \<Rightarrow> sl_mutex s \<and> sl_start s \<noteq> None \<and> sl_listener s \<noteq> None
   | LHot pc s \<Rightarrow> hot_wf pc s
   | LFair pc s \<Rightarrow> fair_wf pc s
   | _ \<Rightarrow> True)"

lemmas lock_wf_defs = lock_wf_def hot_wf_def fair_wf_def

lemma lock_fresh_wf: "lock_fresh l \<Longrightarrow> lock_wf l"
  by (auto simp: lock_fresh_def lock_wf_def)

lemma slow_enter_wf:
  "slow_enter now m s = Next (m', l') \<Longrightarrow> lock_wf l'"
  by (auto simp: slow_enter_def hot_top_def fair_top_def lock_wf_defs Let_def split: if_splits)

lemma hot_step_wf:
  "hot_step ev now pc m s = Next (m', l') \<Longrightarrow> hot_wf pc s \<Longrightarrow> lock_wf l'"
  by (cases pc)
     (auto simp: mutex_op_defs lock_wf_defs Let_def split: if_splits prod.splits option.splits)

lemma fair_step_wf:
  "fair_step ev pc m s = Next (m', l') \<Longrightarrow> fair_wf pc s \<Longrightarrow> lock_wf l'"
  by (cases pc)
     (auto simp: mutex_op_defs lock_wf_defs Let_def split: if_splits prod.splits option.splits)

lemma lock_step_wf:
  assumes step: "lock_step ev i m l = Next (m', l')" and wf: "lock_wf l"
  shows "lock_wf l'"
proof (cases l)
  case (LHot pc s)
  with step wf show ?thesis
    by (auto simp: lock_step_def lock_wf_def dest: hot_step_wf split: lock_in.splits)
next
  case (LFair pc s)
  with step wf show ?thesis
    by (auto simp: lock_step_def lock_wf_def dest: fair_step_wf split: lock_in.splits)
next
  case LTry
  with step show ?thesis
    by (auto simp: lock_step_def try_lock_eq lock_wf_def dest: slow_enter_wf
        split: lock_in.splits if_splits)
next
  case (LSlow s)
  with step show ?thesis
    by (auto simp: lock_step_def take_mutex_def lock_wf_def dest: slow_enter_wf
        split: lock_in.splits)
qed (use step in \<open>auto simp: lock_step_def drop_listener_def lock_wf_def Let_def
       split: lock_in.splits option.splits prod.splits\<close>)

text \<open>No \<open>unwrap\<close> or \<open>expect\<close> fails.\<close>

lemma lock_step_no_panic:
  assumes wf: "lock_wf l"
  shows "lock_step ev i m l \<noteq> Panic"
proof (cases l)
  case (LHot pc s)
  with wf show ?thesis
    by (cases pc) (auto simp: lock_step_def mutex_op_defs lock_wf_defs Let_def
        split: lock_in.splits if_splits prod.splits option.splits)
next
  case (LFair pc s)
  with wf show ?thesis
    by (cases pc) (auto simp: lock_step_def mutex_op_defs lock_wf_defs Let_def
        split: lock_in.splits if_splits prod.splits option.splits)
qed (use wf in \<open>auto simp: lock_step_def mutex_op_defs lock_wf_defs Let_def
       split: lock_in.splits if_splits option.splits\<close>)

subsection \<open>The state word counts owners and starved operations\<close>

text \<open>
  \<open>lock_owner\<close>: the lock bit is this operation's (it has set the bit and not cleared it).
  \<open>lock_starved\<close>: this operation is counted among the starved ones.
\<close>

definition lock_owner :: "'l lock \<Rightarrow> nat" where
  "lock_owner l = (case l of LFair pc _ \<Rightarrow> of_bool (pc = TakeMutex) | LHeld _ \<Rightarrow> 1 | _ \<Rightarrow> 0)"

definition lock_starved :: "'l lock \<Rightarrow> nat" where
  "lock_starved l = (case l of LSlow s \<Rightarrow> of_bool (sl_starved s) | LHot _ s \<Rightarrow> of_bool (sl_starved s)
     | LFair _ s \<Rightarrow> of_bool (sl_starved s) | _ \<Rightarrow> 0)"

lemma lock_owner_le_1: "lock_owner l \<le> 1"
  by (simp add: lock_owner_def split: lock.splits)

lemma lock_starved_le_1: "lock_starved l \<le> 1"
  by (simp add: lock_starved_def split: lock.splits)

definition mutex_ok :: "('e, 'a) mutex \<Rightarrow> nat \<Rightarrow> nat \<Rightarrow> bool" where
  "mutex_ok m own st \<longleftrightarrow> unat (mstate m) = own + 2 * st \<and> own \<le> 1 \<and> st \<le> 2 ^ 62"

lemma mutex_ok_0: "mutex_ok m own st \<Longrightarrow> mstate m = 0 \<longleftrightarrow> own = 0 \<and> st = 0"
  by (auto simp: mutex_ok_def usize_eq_iff)

lemma mutex_ok_2: "mutex_ok m own st \<Longrightarrow> mstate m = 2 \<longleftrightarrow> own = 0 \<and> st = 1"
  by (simp add: mutex_ok_def usize_eq_iff) presburger

lemma mutex_ok_even: "mutex_ok m own st \<Longrightarrow> mstate m mod 2 = 0 \<longleftrightarrow> own = 0"
  by (auto simp: mutex_ok_def mod_2_eq_0_iff le_Suc_eq)

lemma mutex_ok_odd: "mutex_ok m own st \<Longrightarrow> mstate m mod 2 = 1 \<longleftrightarrow> own = 1"
  by (auto simp: mutex_ok_def mod_2_eq_1_iff le_Suc_eq)

lemma mutex_ok_cong: "mstate m' = mstate m \<Longrightarrow> mutex_ok m' own st = mutex_ok m own st"
  by (simp add: mutex_ok_def)

lemma mutex_ok_acquire:
  "mutex_ok m 0 0 \<Longrightarrow> mutex_ok (m\<lparr>mstate := 1\<rparr>) 1 0"
  by (simp add: mutex_ok_def)

lemma mutex_ok_or:
  "mutex_ok m own st \<Longrightarrow> mutex_ok (m\<lparr>mstate := mstate m OR 1\<rparr>) 1 st"
  by (auto simp: mutex_ok_def unat_or_1 le_Suc_eq)

lemma mutex_ok_unlock:
  "mutex_ok m own st \<Longrightarrow> 1 \<le> own \<Longrightarrow> mutex_ok (m\<lparr>mstate := mstate m - 1\<rparr>) (own - 1) st"
  by (auto simp: mutex_ok_def unat_sub_no_wrap)

lemma mutex_ok_unstarve:
  "mutex_ok m own st \<Longrightarrow> 1 \<le> st \<Longrightarrow> mutex_ok (m\<lparr>mstate := mstate m - 2\<rparr>) own (st - 1)"
  by (auto simp: mutex_ok_def unat_sub_no_wrap)

lemma mutex_ok_starve:
  "mutex_ok m own st \<Longrightarrow> \<not> usize_MAX div 2 < mstate m \<Longrightarrow>
   mutex_ok (m\<lparr>mstate := mstate m + 2\<rparr>) own (Suc st)"
  by (auto simp: mutex_ok_def not_less le_usize_MAX_div_2_iff unat_add_no_wrap)

lemma slow_enter_ok:
  assumes "slow_enter now m s = Next (m', l')"
  shows "m' = m" "lock_owner l' = 0" "lock_starved l' = of_bool (sl_starved s)"
  using assms
  by (auto simp: slow_enter_def hot_top_def fair_top_def lock_owner_def lock_starved_def Let_def
      split: if_splits)

lemma hot_step_ok:
  assumes step: "hot_step ev now pc m s = Next (m', l')" and wf: "hot_wf pc s"
    and ok: "mutex_ok m own st"
  shows "mutex_ok m' (own + lock_owner l') (st + lock_starved l')"
proof (cases pc)
  case HotCas
  with step wf ok show ?thesis
    by (auto simp: mutex_op_defs hot_wf_def lock_owner_def lock_starved_def Let_def mutex_ok_0
        dest: mutex_ok_acquire split: if_splits)
next
  case HotRetry
  with step wf ok show ?thesis
    by (auto simp: mutex_op_defs hot_wf_def lock_owner_def lock_starved_def Let_def mutex_ok_0
        dest: mutex_ok_acquire split: if_splits)
next
  case AddStarved
  with step wf mutex_ok_starve [OF ok] show ?thesis
    by (auto simp: mutex_op_defs hot_wf_def lock_owner_def lock_starved_def Let_def
        split: if_splits)
qed (use step wf ok in \<open>auto simp: hot_wf_def lock_owner_def lock_starved_def Let_def mutex_ok_def
       split: if_splits prod.splits option.splits\<close>)

lemma fair_step_ok:
  assumes step: "fair_step ev pc m s = Next (m', l')" and wf: "fair_wf pc s"
    and ok: "mutex_ok m own st" and own: "lock_owner (LFair pc s) \<le> own" and st: "1 \<le> st"
  shows "mutex_ok m' (own - lock_owner (LFair pc s) + lock_owner l') (st - 1 + lock_starved l')"
proof (cases pc)
  case FairCas
  have "mutex_ok (m\<lparr>mstate := 3\<rparr>) 1 1" by (simp add: mutex_ok_def)
  with FairCas step wf ok st show ?thesis
    by (auto simp: mutex_op_defs fair_wf_def lock_owner_def lock_starved_def Let_def mutex_ok_2
        split: if_splits)
next
  case FairOr
  with step wf ok st mutex_ok_or [OF ok] mutex_ok_even [OF ok] show ?thesis
    by (auto simp: mutex_op_defs fair_wf_def lock_owner_def lock_starved_def Let_def mutex_ok_def
        split: if_splits)
next
  case TakeMutex
  with step wf own mutex_ok_unstarve [OF ok st] show ?thesis
    by (auto simp: mutex_op_defs fair_wf_def lock_owner_def lock_starved_def Let_def)
qed (use step wf ok st in \<open>auto simp: fair_wf_def lock_owner_def lock_starved_def Let_def
       mutex_ok_def fair_top_def split: if_splits prod.splits option.splits\<close>)

text \<open>The one lemma about \<open>lock_step\<close> that the primitives embedding a lock future need.\<close>

lemma lock_step_ok:
  assumes step: "lock_step ev i m l = Next (m', l')" and wf: "lock_wf l"
    and ok: "mutex_ok m own st" and own: "lock_owner l \<le> own" and st: "lock_starved l \<le> st"
  shows "mutex_ok m' (own - lock_owner l + lock_owner l') (st - lock_starved l + lock_starved l')"
proof (cases l)
  case (LHot pc s)
  with step wf have "hot_wf pc s" and "hot_step ev (case i of Run now \<Rightarrow> now | _ \<Rightarrow> 0) pc m s = Next (m', l')"
    by (auto simp: lock_step_def lock_wf_def split: lock_in.splits)
  from hot_step_ok [OF this(2,1) ok] this(1) LHot show ?thesis
    by (simp add: lock_owner_def lock_starved_def hot_wf_def)
next
  case (LFair pc s)
  with step wf have wf': "fair_wf pc s" and "fair_step ev pc m s = Next (m', l')"
    by (auto simp: lock_step_def lock_wf_def split: lock_in.splits)
  moreover from LFair wf' st have "1 \<le> st" by (simp add: lock_starved_def fair_wf_def)
  moreover have "lock_starved l = 1" using LFair wf' by (simp add: lock_starved_def fair_wf_def)
  ultimately show ?thesis using fair_step_ok [OF _ wf' ok, of ev m' l'] own LFair by simp
next
  case LTry
  show ?thesis
  proof (cases "mstate m = 0")
    case True
    with LTry step ok mutex_ok_0 [OF ok] show ?thesis
      by (auto simp: lock_step_def try_lock_eq lock_owner_def lock_starved_def
          dest: mutex_ok_acquire split: lock_in.splits)
  next
    case False
    with LTry step obtain now where "slow_enter now m acquire_slow_new = Next (m', l')"
      by (auto simp: lock_step_def try_lock_eq split: lock_in.splits)
    from slow_enter_ok [OF this] LTry ok show ?thesis
      by (simp add: lock_owner_def lock_starved_def acquire_slow_new_def)
  qed
next
  case LTryLock
  with step ok mutex_ok_0 [OF ok] show ?thesis
    by (auto simp: lock_step_def try_lock_eq lock_owner_def lock_starved_def
        dest: mutex_ok_acquire split: lock_in.splits if_splits)
next
  case (LSlow s)
  show ?thesis
  proof (cases i)
    case (Poll now)
    with LSlow step have "slow_enter now m s = Next (m', l')" by (simp add: lock_step_def)
    from slow_enter_ok [OF this] ok st LSlow show ?thesis
      by (simp add: lock_owner_def lock_starved_def)
  next
    case Cancel
    with LSlow step wf ok st mutex_ok_unstarve [OF ok] show ?thesis
      by (auto simp: lock_step_def take_mutex_def fetch_sub_def lock_owner_def lock_starved_def
          lock_wf_def split: if_splits)
  qed (use LSlow step in \<open>simp_all add: lock_step_def\<close>)
next
  case (LHeld lo)
  with step own mutex_ok_unlock [OF ok] ok show ?thesis
    by (auto simp: lock_step_def drop_listener_def unlock_sub_def fetch_sub_def lock_owner_def
        lock_starved_def mutex_ok_def split: lock_in.splits option.splits)
qed (use step ok in \<open>auto simp: lock_step_def drop_listener_def unlock_notify_def lock_owner_def
       lock_starved_def mutex_ok_def split: lock_in.splits option.splits\<close>)

subsection \<open>All interleavings of lock operations\<close>

datatype mutex_key = KOwner | KStarved

definition lock_wt :: "mutex_key \<Rightarrow> 'l lock \<Rightarrow> nat" where
  "lock_wt k l = (case k of KOwner \<Rightarrow> lock_owner l | KStarved \<Rightarrow> lock_starved l)"

definition mutex_good :: "('e, 'a) mutex \<Rightarrow> (mutex_key \<Rightarrow> nat) \<Rightarrow> bool" where
  "mutex_good m c \<longleftrightarrow> mutex_ok m (c KOwner) (c KStarved)"

lemma lock_fresh_wt: "lock_fresh l \<Longrightarrow> lock_wt k l = 0"
  by (auto simp: lock_fresh_def lock_wt_def lock_owner_def lock_starved_def split: mutex_key.splits)

interpretation mtx: counting_system "lock_step ev" lock_fresh "mutex_start new_event" lock_wt lock_wf
    mutex_good
  for ev :: "('e, 'l) event_ops" and new_event
proof
  show "mutex_start new_event m \<Longrightarrow> mutex_good m (\<lambda>_. 0)" for m :: "('e, 'a) mutex"
    by (simp add: mutex_start_def mutex_good_def mutex_ok_def)
  show "lock_fresh l \<Longrightarrow> lock_wf l" for l :: "'l lock"
    by (rule lock_fresh_wf)
  show "lock_fresh l \<Longrightarrow> lock_wt k l = 0" for l :: "'l lock" and k
    by (rule lock_fresh_wt)
  show "lock_step ev i m l = Next (m', l') \<Longrightarrow> lock_wf l \<Longrightarrow> lock_wf l'" for i and m m' :: "('e, 'a) mutex" and l l'
    by (rule lock_step_wf)
  show "lock_step ev i m l = Next (m', l') \<Longrightarrow> lock_wf l \<Longrightarrow> mutex_good m c \<Longrightarrow>
      (\<And>k. lock_wt k l \<le> c k) \<Longrightarrow> mutex_good m' (\<lambda>k. c k - lock_wt k l + lock_wt k l')"
    for i and m m' :: "('e, 'a) mutex" and l l' c
    using lock_step_ok [of ev i m l m' l' "c KOwner" "c KStarved"]
    by (simp add: mutex_good_def lock_wt_def) (metis mutex_key.simps(3,4))
qed

end
