(* ===== verification/RawRwLock.thy ===== *)
theory RawRwLock
  imports Mutex
begin

text \<open>
  \<^verbatim>\<open>src/rwlock/raw.rs\<close>: the reader-writer lock without data.

  The lock has a \<open>Mutex<()>\<close> held by writers and upgradable readers, two events, and a state word:
  \<open>WRITER_BIT\<close> and twice the number of readers. A task is one use of the lock: a future with its
  guard and what the guard is turned into, or a call of a non-blocking method. There is one
  definition per method of the code, one indivisible action per step; \<open>rw_step\<close> dispatches. The
  futures of the embedded mutex move by \<open>lock_step\<close>.
\<close>

definition WRITER_BIT :: usize where
  "WRITER_BIT = 1"

definition ONE_READER :: usize where
  "ONE_READER = 2"

record 'e raw_rwlock =
  rmutex :: "('e, unit) mutex"
  no_readers :: 'e
  no_writer :: 'e
  rstate :: usize

definition raw_new :: "'e \<Rightarrow> 'e \<Rightarrow> 'e \<Rightarrow> 'e raw_rwlock" where
  "raw_new e e1 e2 = \<lparr>rmutex = mutex_new e (), no_readers = e1, no_writer = e2, rstate = 0\<rparr>"

subsection \<open>Tasks\<close>

text \<open>
  A completed future may still own a listener; it is dropped with the future, which may be after
  the guard has been used. \<open>leftovers\<close> are these listeners, with the event they belong to.
\<close>

datatype rw_event = OnMutex | OnReaders | OnWriter

type_synonym 'l leftovers = "(rw_event \<times> 'l) list"

definition left :: "rw_event \<Rightarrow> 'l option \<Rightarrow> 'l leftovers" where
  "left w lo = (case lo of None \<Rightarrow> [] | Some l \<Rightarrow> [(w, l)])"

text \<open>The fields of \<open>RawRead\<close>.\<close>

record 'l raw_read =
  rd_state :: usize
  rd_listener :: "'l option"

text \<open>\<open>RdIdle\<close> is the unpolled future, \<open>RdSleep\<close> the suspended one.\<close>

datatype read_pc = RdIdle | RdCas | RdListen | RdWait | RdNotify | RdLoad | RdSleep

text \<open>The loop that waits for the readers to leave: in \<open>RawWrite\<close> and in \<open>RawUpgrade\<close>.\<close>

datatype drain_pc = DrIdle | DrLoad | DrListen | DrWait | DrSleep

datatype write_state = WaitingReaders | WriteAcquired

datatype 'l rw =
    RTryRead
  | RTryReadCas usize
  | RReadCall
  | RRead read_pc "'l raw_read"
  | RTryUp
  | RTryUpLoad
  | RTryUpCas usize
  | RUpLock "'l lock"
  | RUpLoad "'l option"
  | RUpCas usize "'l option"
  | RTryWrite
  | RTryWriteCas
  | RWriteLock "'l lock"
  | RWriteOr "'l option"
  | RWriteListen "'l option"
  | RWriteSet 'l "'l option" write_state
  | RWrite drain_pc "'l option"
  | RUpgrade drain_pc "'l option" "'l leftovers"
  | RReader "'l leftovers"
  | RUpgradable "'l leftovers"
  | RWriter "'l leftovers"
  | RReadUnlockNotify "'l leftovers"
  | RUpUnlockNotify "'l leftovers"
  | RWriteUnlockNotify "'l leftovers"
  | RUnlockMutex "'l leftovers"
  | RUnlockMutexNotify "'l leftovers"
  | RDownWriteMutex "'l leftovers"
  | RDownWriteMutexNotify "'l leftovers"
  | RDownWriteNotify "'l leftovers"
  | RDownUpNotify "'l leftovers"
  | RDone "'l leftovers"

text \<open>
  What happens next with a task: poll its future; let its running call go on (the number is the
  clock, for the mutex); drop the unfinished future; unlock the guard; call \<open>try_upgrade\<close>,
  \<open>upgrade\<close>, \<open>downgrade\<close> (of an upgradable or a write guard), \<open>downgrade_to_upgradable\<close> on the guard;
  drop a completed future with its listener.
\<close>

datatype rw_in = RwPoll nat | RwRun nat | RwCancel | RwUnlock | RwTryUpgrade | RwUpgrade
  | RwDowngrade | RwDowngradeUp | RwDropFut nat

text \<open>Actions that do not touch the lock.\<close>

definition stay :: "'e raw_rwlock \<Rightarrow> 'l rw outcome \<Rightarrow> ('e raw_rwlock \<times> 'l rw) outcome" where
  "stay s r = map_outcome (Pair s) r"

text \<open>One operation on the embedded mutex.\<close>

definition on_mutex :: "(('e, unit) mutex \<Rightarrow> ('e, unit) mutex) \<Rightarrow> 'e raw_rwlock \<Rightarrow> 'e raw_rwlock" where
  "on_mutex f s = s\<lparr>rmutex := f (rmutex s)\<rparr>"

subsection \<open>Reading\<close>

text \<open>\<open>try_read\<close>: the head of the loop with the local variable \<open>state\<close>, and the compare-exchange.\<close>

definition try_read_head :: "usize \<Rightarrow> 'l rw outcome" where
  "try_read_head st =
     (if st AND WRITER_BIT \<noteq> 0 then Next (RDone [])
      else if isize_MAX < st then Abort
      else Next (RTryReadCas st))"

definition try_read_load :: "'e raw_rwlock \<Rightarrow> ('e raw_rwlock \<times> 'l rw) outcome" where
  "try_read_load s = stay s (try_read_head (rstate s))"

definition try_read_cas :: "usize \<Rightarrow> 'e raw_rwlock \<Rightarrow> ('e raw_rwlock \<times> 'l rw) outcome" where
  "try_read_cas st s =
     (let (r, x) = compare_exchange (rstate s) st (st + ONE_READER) in
      case r of
        Inr _ \<Rightarrow> Next (s\<lparr>rstate := x\<rparr>, RReader [])
      | Inl st' \<Rightarrow> stay (s\<lparr>rstate := x\<rparr>) (try_read_head st'))"

text \<open>\<open>read\<close> loads the state when it makes the future.\<close>

definition read_new :: "'e raw_rwlock \<Rightarrow> 'l raw_read" where
  "read_new s = \<lparr>rd_state = rstate s, rd_listener = None\<rparr>"

text \<open>\<open>RawRead::poll_with_strategy\<close>: the head of the loop, and the actions.\<close>

definition read_head :: "'l raw_read \<Rightarrow> 'l rw outcome" where
  "read_head r =
     (if rd_state r AND WRITER_BIT = 0 then
        (if isize_MAX < rd_state r then Abort else Next (RRead RdCas r))
      else Next (RRead (if rd_listener r = None then RdListen else RdWait) r))"

fun read_step ::
    "('e, 'l) event_ops \<Rightarrow> read_pc \<Rightarrow> 'e raw_rwlock \<Rightarrow> 'l raw_read \<Rightarrow>
     ('e raw_rwlock \<times> 'l rw) outcome" where
  "read_step ev RdCas s r =
     (let (x, c) = compare_exchange (rstate s) (rd_state r) (rd_state r + ONE_READER) in
      case x of
        Inr _ \<Rightarrow> Next (s\<lparr>rstate := c\<rparr>, RReader (left OnWriter (rd_listener r)))
      | Inl st \<Rightarrow> stay (s\<lparr>rstate := c\<rparr>) (read_head (r\<lparr>rd_state := st\<rparr>)))"
| "read_step ev RdListen s r =
     (let (l, e) = ev_listen ev (no_writer s)
      in Next (s\<lparr>no_writer := e\<rparr>, RRead RdLoad (r\<lparr>rd_listener := Some l\<rparr>)))"
| "read_step ev RdWait s r =
     (case rd_listener r of
        None \<Rightarrow> Panic
      | Some l \<Rightarrow>
          (let (ready, e) = ev_poll ev l (no_writer s) in
           if ready then Next (s\<lparr>no_writer := e\<rparr>, RRead RdNotify (r\<lparr>rd_listener := None\<rparr>))
           else Next (s\<lparr>no_writer := e\<rparr>, RRead RdSleep r)))"
| "read_step ev RdNotify s r =
     Next (s\<lparr>no_writer := ev_notify ev 1 (no_writer s)\<rparr>, RRead RdLoad r)"
| "read_step ev RdLoad s r = stay s (read_head (r\<lparr>rd_state := rstate s\<rparr>))"
| "read_step ev RdIdle s r = Disabled"
| "read_step ev RdSleep s r = Disabled"

text \<open>\<open>read_unlock\<close>: the first action; \<open>RReadUnlockNotify\<close> is the second.\<close>

definition read_unlock :: "'e raw_rwlock \<Rightarrow> 'l leftovers \<Rightarrow> 'e raw_rwlock \<times> 'l rw" where
  "read_unlock s lo =
     (let (old, x) = fetch_sub (rstate s) ONE_READER in
      (s\<lparr>rstate := x\<rparr>,
       if old AND NOT WRITER_BIT = ONE_READER then RReadUnlockNotify lo else RDone lo))"

definition notify_no_readers :: "('e, 'l) event_ops \<Rightarrow> 'e raw_rwlock \<Rightarrow> 'e raw_rwlock" where
  "notify_no_readers ev s = s\<lparr>no_readers := ev_notify ev 1 (no_readers s)\<rparr>"

definition notify_no_writer :: "('e, 'l) event_ops \<Rightarrow> 'e raw_rwlock \<Rightarrow> 'e raw_rwlock" where
  "notify_no_writer ev s = s\<lparr>no_writer := ev_notify ev 1 (no_writer s)\<rparr>"

subsection \<open>Upgradable reading\<close>

definition try_upgradable_read :: "'e raw_rwlock \<Rightarrow> 'e raw_rwlock \<times> 'l rw" where
  "try_upgradable_read s =
     (let (ok, m) = try_lock (rmutex s)
      in (s\<lparr>rmutex := m\<rparr>, if ok then RTryUpLoad else RDone []))"

definition try_upgradable_load :: "'e raw_rwlock \<Rightarrow> 'l rw outcome" where
  "try_upgradable_load s =
     (if isize_MAX < rstate s then Abort else Next (RTryUpCas (rstate s)))"

definition try_upgradable_cas :: "usize \<Rightarrow> 'e raw_rwlock \<Rightarrow> 'e raw_rwlock \<times> 'l rw" where
  "try_upgradable_cas st s =
     (let (r, x) = compare_exchange (rstate s) st (st + ONE_READER) in
      (s\<lparr>rstate := x\<rparr>, case r of Inr _ \<Rightarrow> RUpgradable [] | Inl st' \<Rightarrow> RTryUpCas st'))"

text \<open>
  \<open>RawUpgradableRead::poll_with_strategy\<close>. The embedded \<open>Lock\<close> future runs until it yields the
  guard, which is forgotten; the future keeps the listener that the lock future may still own.
\<close>

definition up_lock_step ::
    "('e, 'l) event_ops \<Rightarrow> unit lock_in \<Rightarrow> 'e raw_rwlock \<Rightarrow> 'l lock \<Rightarrow>
     ('e raw_rwlock \<times> 'l rw) outcome" where
  "up_lock_step ev i s l = map_outcome
     (\<lambda>(m, l'). (s\<lparr>rmutex := m\<rparr>, case l' of LHeld lo \<Rightarrow> RUpLoad lo | _ \<Rightarrow> RUpLock l'))
     (lock_step ev i (rmutex s) l)"

definition up_load :: "'e raw_rwlock \<Rightarrow> 'l option \<Rightarrow> 'l rw outcome" where
  "up_load s lo = (if isize_MAX < rstate s then Abort else Next (RUpCas (rstate s) lo))"

definition up_cas :: "usize \<Rightarrow> 'e raw_rwlock \<Rightarrow> 'l option \<Rightarrow> 'e raw_rwlock \<times> 'l rw" where
  "up_cas st s lo =
     (let (r, x) = compare_exchange (rstate s) st (st + ONE_READER) in
      (s\<lparr>rstate := x\<rparr>,
       case r of Inr _ \<Rightarrow> RUpgradable (left OnMutex lo) | Inl st' \<Rightarrow> RUpCas st' lo))"

text \<open>The first action of \<open>upgradable_read_unlock\<close>; then \<open>RUpUnlockNotify\<close>, then the mutex.\<close>

definition upgradable_read_unlock :: "'e raw_rwlock \<Rightarrow> 'l leftovers \<Rightarrow> 'e raw_rwlock \<times> 'l rw" where
  "upgradable_read_unlock s lo =
     (let (old, x) = fetch_sub (rstate s) ONE_READER in
      (s\<lparr>rstate := x\<rparr>,
       if old AND NOT WRITER_BIT = ONE_READER then RUpUnlockNotify lo else RUnlockMutex lo))"

text \<open>\<open>downgrade_upgradable_read\<close> unlocks the mutex: two actions.\<close>

definition downgrade_upgradable_read :: "'e raw_rwlock \<Rightarrow> 'l leftovers \<Rightarrow> 'e raw_rwlock \<times> 'l rw" where
  "downgrade_upgradable_read s lo = (on_mutex unlock_sub s, RDownUpNotify lo)"

subsection \<open>Upgrading\<close>

definition try_upgrade :: "'e raw_rwlock \<Rightarrow> bool \<times> 'e raw_rwlock" where
  "try_upgrade s =
     (let (r, x) = compare_exchange (rstate s) ONE_READER WRITER_BIT in (is_ok r, s\<lparr>rstate := x\<rparr>))"

definition upgrade :: "'e raw_rwlock \<Rightarrow> 'e raw_rwlock" where
  "upgrade s = s\<lparr>rstate := snd (fetch_sub (rstate s) (ONE_READER - WRITER_BIT))\<rparr>"

text \<open>\<open>RawUpgrade::poll_with_strategy\<close>.\<close>

fun upgrade_step ::
    "('e, 'l) event_ops \<Rightarrow> drain_pc \<Rightarrow> 'e raw_rwlock \<Rightarrow> 'l option \<Rightarrow> 'l leftovers \<Rightarrow>
     ('e raw_rwlock \<times> 'l rw) outcome" where
  "upgrade_step ev DrLoad s listener lo =
     (if rstate s = WRITER_BIT then Next (s, RWriter (left OnReaders listener @ lo))
      else Next (s, RUpgrade (if listener = None then DrListen else DrWait) listener lo))"
| "upgrade_step ev DrListen s listener lo =
     (let (l, e) = ev_listen ev (no_readers s)
      in Next (s\<lparr>no_readers := e\<rparr>, RUpgrade DrLoad (Some l) lo))"
| "upgrade_step ev DrWait s listener lo =
     (case listener of
        None \<Rightarrow> Panic
      | Some l \<Rightarrow>
          (let (ready, e) = ev_poll ev l (no_readers s) in
           if ready then Next (s\<lparr>no_readers := e\<rparr>, RUpgrade DrLoad None lo)
           else Next (s\<lparr>no_readers := e\<rparr>, RUpgrade DrSleep listener lo)))"
| "upgrade_step ev DrIdle s listener lo = Disabled"
| "upgrade_step ev DrSleep s listener lo = Disabled"

subsection \<open>Writing\<close>

definition try_write :: "'e raw_rwlock \<Rightarrow> 'e raw_rwlock \<times> 'l rw" where
  "try_write s =
     (let (ok, m) = try_lock (rmutex s)
      in (s\<lparr>rmutex := m\<rparr>, if ok then RTryWriteCas else RDone []))"

definition try_write_cas :: "'e raw_rwlock \<Rightarrow> 'e raw_rwlock \<times> 'l rw" where
  "try_write_cas s =
     (let (r, x) = compare_exchange (rstate s) 0 WRITER_BIT in
      (s\<lparr>rstate := x\<rparr>, if is_ok r then RWriter [] else RUnlockMutex []))"

text \<open>
  \<open>RawWrite::poll_with_strategy\<close>, first arm: acquire the mutex, set the writer bit, and listen
  unless the state \<open>fetch_or\<close> returned is the writer bit. Leaving the arm drops the lock future
  (\<open>write_set\<close>, \<open>RWriteSet\<close>).
\<close>

definition write_lock_step ::
    "('e, 'l) event_ops \<Rightarrow> unit lock_in \<Rightarrow> 'e raw_rwlock \<Rightarrow> 'l lock \<Rightarrow>
     ('e raw_rwlock \<times> 'l rw) outcome" where
  "write_lock_step ev i s l = map_outcome
     (\<lambda>(m, l'). (s\<lparr>rmutex := m\<rparr>, case l' of LHeld lo \<Rightarrow> RWriteOr lo | _ \<Rightarrow> RWriteLock l'))
     (lock_step ev i (rmutex s) l)"

definition write_enter :: "'l option \<Rightarrow> write_state \<Rightarrow> 'l rw" where
  "write_enter nr st = (case st of
     WaitingReaders \<Rightarrow> RWrite DrLoad nr
   | WriteAcquired \<Rightarrow> RWriter (left OnReaders nr))"

definition write_set :: "'l option \<Rightarrow> 'l option \<Rightarrow> write_state \<Rightarrow> 'l rw" where
  "write_set lo nr st = (case lo of None \<Rightarrow> write_enter nr st | Some l \<Rightarrow> RWriteSet l nr st)"

definition write_or :: "'e raw_rwlock \<Rightarrow> 'l option \<Rightarrow> 'e raw_rwlock \<times> 'l rw" where
  "write_or s lo =
     (let (new_state, x) = fetch_or (rstate s) WRITER_BIT in
      (s\<lparr>rstate := x\<rparr>,
       if new_state = WRITER_BIT then write_set lo None WriteAcquired else RWriteListen lo))"

definition write_listen ::
    "('e, 'l) event_ops \<Rightarrow> 'e raw_rwlock \<Rightarrow> 'l option \<Rightarrow> 'e raw_rwlock \<times> 'l rw" where
  "write_listen ev s lo =
     (let (l, e) = ev_listen ev (no_readers s)
      in (s\<lparr>no_readers := e\<rparr>, write_set lo (Some l) WaitingReaders))"

definition write_drop_lock ::
    "('e, 'l) event_ops \<Rightarrow> 'e raw_rwlock \<Rightarrow> 'l \<Rightarrow> 'l option \<Rightarrow> write_state \<Rightarrow> 'e raw_rwlock \<times> 'l rw" where
  "write_drop_lock ev s l nr st =
     (on_mutex (\<lambda>m. m\<lparr>lock_ops := ev_drop ev l (lock_ops m)\<rparr>) s, write_enter nr st)"

text \<open>Second arm: wait until the state is the writer bit alone.\<close>

fun write_step ::
    "('e, 'l) event_ops \<Rightarrow> drain_pc \<Rightarrow> 'e raw_rwlock \<Rightarrow> 'l option \<Rightarrow>
     ('e raw_rwlock \<times> 'l rw) outcome" where
  "write_step ev DrLoad s nr =
     (if rstate s = WRITER_BIT then Next (s, RWriter (left OnReaders nr))
      else Next (s, RWrite (if nr = None then DrListen else DrWait) nr))"
| "write_step ev DrListen s nr =
     (let (l, e) = ev_listen ev (no_readers s)
      in Next (s\<lparr>no_readers := e\<rparr>, RWrite DrLoad (Some l)))"
| "write_step ev DrWait s nr =
     (case nr of
        None \<Rightarrow> Panic
      | Some l \<Rightarrow>
          (let (ready, e) = ev_poll ev l (no_readers s) in
           if ready then Next (s\<lparr>no_readers := e\<rparr>, RWrite DrLoad None)
           else Next (s\<lparr>no_readers := e\<rparr>, RWrite DrSleep nr)))"
| "write_step ev DrIdle s nr = Disabled"
| "write_step ev DrSleep s nr = Disabled"

text \<open>The first actions of \<open>write_unlock\<close>, \<open>downgrade_write\<close> and \<open>downgrade_to_upgradable\<close>.\<close>

definition write_unlock :: "'e raw_rwlock \<Rightarrow> 'l leftovers \<Rightarrow> 'e raw_rwlock \<times> 'l rw" where
  "write_unlock s lo =
     (s\<lparr>rstate := snd (fetch_and (rstate s) (NOT WRITER_BIT))\<rparr>, RWriteUnlockNotify lo)"

definition downgrade_write :: "'e raw_rwlock \<Rightarrow> 'l leftovers \<Rightarrow> 'e raw_rwlock \<times> 'l rw" where
  "downgrade_write s lo =
     (s\<lparr>rstate := snd (fetch_add (rstate s) (ONE_READER - WRITER_BIT))\<rparr>, RDownWriteMutex lo)"

definition downgrade_to_upgradable :: "'e raw_rwlock \<Rightarrow> 'l leftovers \<Rightarrow> 'e raw_rwlock \<times> 'l rw" where
  "downgrade_to_upgradable s lo =
     (s\<lparr>rstate := snd (fetch_add (rstate s) (ONE_READER - WRITER_BIT))\<rparr>, RUpgradable lo)"

subsection \<open>All the actions of a task\<close>

text \<open>Dropping a completed future that still owns a listener.\<close>

definition drop_on ::
    "('e, 'l) event_ops \<Rightarrow> rw_event \<Rightarrow> 'l \<Rightarrow> 'e raw_rwlock \<Rightarrow> 'e raw_rwlock" where
  "drop_on ev w l s = (case w of
     OnMutex \<Rightarrow> on_mutex (\<lambda>m. m\<lparr>lock_ops := ev_drop ev l (lock_ops m)\<rparr>) s
   | OnReaders \<Rightarrow> s\<lparr>no_readers := ev_drop ev l (no_readers s)\<rparr>
   | OnWriter \<Rightarrow> s\<lparr>no_writer := ev_drop ev l (no_writer s)\<rparr>)"

definition drop_left ::
    "('e, 'l) event_ops \<Rightarrow> nat \<Rightarrow> 'e raw_rwlock \<Rightarrow> 'l leftovers \<Rightarrow> ('l leftovers \<Rightarrow> 'l rw) \<Rightarrow>
     ('e raw_rwlock \<times> 'l rw) outcome" where
  "drop_left ev j s lo C =
     (if j < length lo
      then Next (drop_on ev (fst (lo ! j)) (snd (lo ! j)) s, C (take j lo @ drop (Suc j) lo))
      else Disabled)"

text \<open>The inputs that go on to the lock future of the embedded mutex.\<close>

definition lock_input :: "rw_in \<Rightarrow> unit lock_in option" where
  "lock_input i = (case i of
     RwPoll now \<Rightarrow> Some (Poll now) | RwRun now \<Rightarrow> Some (Run now) | RwCancel \<Rightarrow> Some Cancel
   | RwDropFut j \<Rightarrow> Some DropFut | _ \<Rightarrow> None)"

text \<open>What the client can do with each kind of guard.\<close>

definition reader_step ::
    "('e, 'l) event_ops \<Rightarrow> rw_in \<Rightarrow> 'e raw_rwlock \<Rightarrow> 'l leftovers \<Rightarrow> ('e raw_rwlock \<times> 'l rw) outcome"
where
  "reader_step ev i s lo = (case i of
     RwUnlock \<Rightarrow> Next (read_unlock s lo)
   | RwDropFut j \<Rightarrow> drop_left ev j s lo RReader
   | _ \<Rightarrow> Disabled)"

definition upgradable_step ::
    "('e, 'l) event_ops \<Rightarrow> rw_in \<Rightarrow> 'e raw_rwlock \<Rightarrow> 'l leftovers \<Rightarrow> ('e raw_rwlock \<times> 'l rw) outcome"
where
  "upgradable_step ev i s lo = (case i of
     RwUnlock \<Rightarrow> Next (upgradable_read_unlock s lo)
   | RwTryUpgrade \<Rightarrow>
       (case try_upgrade s of (ok, s') \<Rightarrow> Next (s', if ok then RWriter lo else RUpgradable lo))
   | RwUpgrade \<Rightarrow> Next (upgrade s, RUpgrade DrIdle None lo)
   | RwDowngrade \<Rightarrow> Next (downgrade_upgradable_read s lo)
   | RwDropFut j \<Rightarrow> drop_left ev j s lo RUpgradable
   | _ \<Rightarrow> Disabled)"

definition writer_step ::
    "('e, 'l) event_ops \<Rightarrow> rw_in \<Rightarrow> 'e raw_rwlock \<Rightarrow> 'l leftovers \<Rightarrow> ('e raw_rwlock \<times> 'l rw) outcome"
where
  "writer_step ev i s lo = (case i of
     RwUnlock \<Rightarrow> Next (write_unlock s lo)
   | RwDowngrade \<Rightarrow> Next (downgrade_write s lo)
   | RwDowngradeUp \<Rightarrow> Next (downgrade_to_upgradable s lo)
   | RwDropFut j \<Rightarrow> drop_left ev j s lo RWriter
   | _ \<Rightarrow> Disabled)"

text \<open>The remaining actions of the calls that unlock or downgrade.\<close>

definition run_only ::
    "rw_in \<Rightarrow> ('e raw_rwlock \<times> 'l rw) outcome \<Rightarrow> ('e raw_rwlock \<times> 'l rw) outcome" where
  "run_only i r = (case i of RwRun now \<Rightarrow> r | _ \<Rightarrow> Disabled)"

definition rw_step ::
    "('e, 'l) event_ops \<Rightarrow> rw_in \<Rightarrow> 'e raw_rwlock \<Rightarrow> 'l rw \<Rightarrow> ('e raw_rwlock \<times> 'l rw) outcome" where
  "rw_step ev i s t = (case t of
     RTryRead \<Rightarrow> run_only i (try_read_load s)
   | RTryReadCas st \<Rightarrow> run_only i (try_read_cas st s)
   | RReadCall \<Rightarrow> run_only i (Next (s, RRead RdIdle (read_new s)))
   | RRead pc r \<Rightarrow>
       (if pc = RdIdle \<or> pc = RdSleep then
          (case i of
             RwPoll now \<Rightarrow> stay s (read_head r)
           | RwCancel \<Rightarrow> Next (s, RDone (left OnWriter (rd_listener r)))
           | _ \<Rightarrow> Disabled)
        else run_only i (read_step ev pc s r))
   | RTryUp \<Rightarrow> run_only i (Next (try_upgradable_read s))
   | RTryUpLoad \<Rightarrow> run_only i (stay s (try_upgradable_load s))
   | RTryUpCas st \<Rightarrow> run_only i (Next (try_upgradable_cas st s))
   | RUpLock l \<Rightarrow>
       (case lock_input i of None \<Rightarrow> Disabled | Some j \<Rightarrow> up_lock_step ev j s l)
   | RUpLoad lo \<Rightarrow> run_only i (stay s (up_load s lo))
   | RUpCas st lo \<Rightarrow> run_only i (Next (up_cas st s lo))
   | RTryWrite \<Rightarrow> run_only i (Next (try_write s))
   | RTryWriteCas \<Rightarrow> run_only i (Next (try_write_cas s))
   | RWriteLock l \<Rightarrow>
       (case lock_input i of None \<Rightarrow> Disabled | Some j \<Rightarrow> write_lock_step ev j s l)
   | RWriteOr lo \<Rightarrow> run_only i (Next (write_or s lo))
   | RWriteListen lo \<Rightarrow> run_only i (Next (write_listen ev s lo))
   | RWriteSet l nr st \<Rightarrow> run_only i (Next (write_drop_lock ev s l nr st))
   | RWrite pc nr \<Rightarrow>
       (if pc = DrSleep then
          (case i of
             RwPoll now \<Rightarrow> Next (s, RWrite DrLoad nr)
           | RwCancel \<Rightarrow> Next (write_unlock s (left OnReaders nr))
           | _ \<Rightarrow> Disabled)
        else run_only i (write_step ev pc s nr))
   | RUpgrade pc listener lo \<Rightarrow>
       (if pc = DrIdle \<or> pc = DrSleep then
          (case i of
             RwPoll now \<Rightarrow> Next (s, RUpgrade DrLoad listener lo)
           | RwCancel \<Rightarrow> Next (write_unlock s (left OnReaders listener @ lo))
           | RwDropFut j \<Rightarrow> drop_left ev j s lo (RUpgrade pc listener)
           | _ \<Rightarrow> Disabled)
        else run_only i (upgrade_step ev pc s listener lo))
   | RReader lo \<Rightarrow> reader_step ev i s lo
   | RUpgradable lo \<Rightarrow> upgradable_step ev i s lo
   | RWriter lo \<Rightarrow> writer_step ev i s lo
   | RReadUnlockNotify lo \<Rightarrow> run_only i (Next (notify_no_readers ev s, RDone lo))
   | RUpUnlockNotify lo \<Rightarrow> run_only i (Next (notify_no_readers ev s, RUnlockMutex lo))
   | RWriteUnlockNotify lo \<Rightarrow> run_only i (Next (notify_no_writer ev s, RUnlockMutex lo))
   | RUnlockMutex lo \<Rightarrow> run_only i (Next (on_mutex unlock_sub s, RUnlockMutexNotify lo))
   | RUnlockMutexNotify lo \<Rightarrow> run_only i (Next (on_mutex (unlock_notify ev) s, RDone lo))
   | RDownWriteMutex lo \<Rightarrow> run_only i (Next (on_mutex unlock_sub s, RDownWriteMutexNotify lo))
   | RDownWriteMutexNotify lo \<Rightarrow>
       run_only i (Next (on_mutex (unlock_notify ev) s, RDownWriteNotify lo))
   | RDownWriteNotify lo \<Rightarrow> run_only i (Next (notify_no_writer ev s, RReader lo))
   | RDownUpNotify lo \<Rightarrow> run_only i (Next (on_mutex (unlock_notify ev) s, RReader lo))
   | RDone lo \<Rightarrow> (case i of RwDropFut j \<Rightarrow> drop_left ev j s lo RDone | _ \<Rightarrow> Disabled))"

text \<open>\<open>upgradable_read\<close> and \<open>write\<close> make a future that holds a new lock future; they do not touch the lock.\<close>

definition raw_upgradable_read :: "'l rw" where
  [simp]: "raw_upgradable_read = RUpLock LNew"

definition raw_write :: "'l rw" where
  [simp]: "raw_write = RWriteLock LNew"

text \<open>
  A task starts as a call of \<open>try_read\<close>, \<open>read\<close>, \<open>try_upgradable_read\<close> or \<open>try_write\<close>, or as the
  future of \<open>upgradable_read\<close> or \<open>write\<close>.
\<close>

definition rw_fresh :: "'l rw \<Rightarrow> bool" where
  "rw_fresh t \<longleftrightarrow> t = RTryRead \<or> t = RReadCall \<or> t = RTryUp \<or> t = RTryWrite \<or>
     t = raw_upgradable_read \<or> t = raw_write"

definition rw_start :: "('e \<Rightarrow> bool) \<Rightarrow> 'e raw_rwlock \<Rightarrow> bool" where
  "rw_start new_event s \<longleftrightarrow> mutex_start new_event (rmutex s) \<and> new_event (no_readers s) \<and>
     new_event (no_writer s) \<and> rstate s = 0"

end
