(* ===== verification/Lock_Embedded.thy ===== *)
theory Lock_Embedded
  imports Mutex
begin

text \<open>
  Lock futures that are fields of another future (\<open>RawUpgradableRead\<close>, \<open>RawWrite\<close>,
  \<open>BarrierWaitInner\<close>): such a future runs until it yields the guard, which the owner then takes.
\<close>

definition embedded :: "'l lock \<Rightarrow> bool" where
  "embedded l = (case l of LTryLock \<Rightarrow> False | LHeld lo \<Rightarrow> False | LUnlock lo \<Rightarrow> False | _ \<Rightarrow> True)"

lemma hot_step_embedded:
  "hot_step ev now pc m s = Next (m', l') \<Longrightarrow> hot_wf pc s \<Longrightarrow> embedded l' \<or> (\<exists>lo. l' = LHeld lo)"
  by (cases pc)
     (auto simp: mutex_op_defs embedded_def hot_wf_def Let_def
       split: if_splits prod.splits option.splits)

lemma fair_step_embedded:
  "fair_step ev pc m s = Next (m', l') \<Longrightarrow> embedded l' \<or> (\<exists>lo. l' = LHeld lo)"
  by (cases pc)
     (auto simp: mutex_op_defs embedded_def Let_def split: if_splits prod.splits option.splits)

lemma slow_enter_embedded: "slow_enter now m s = Next (m', l') \<Longrightarrow> embedded l'"
  by (auto simp: slow_enter_def hot_top_def fair_top_def embedded_def Let_def split: if_splits)

lemma lock_step_embedded:
  assumes "lock_step ev i m l = Next (m', l')" and "embedded l" and "lock_wf l"
  shows "embedded l' \<or> (\<exists>lo. l' = LHeld lo)"
proof (cases l)
  case (LHot pc s)
  with assms show ?thesis
    by (auto simp: lock_step_def lock_wf_def dest: hot_step_embedded split: lock_in.splits)
next
  case (LFair pc s)
  with assms show ?thesis
    by (auto simp: lock_step_def dest: fair_step_embedded split: lock_in.splits)
qed (use assms in \<open>auto simp: lock_step_def try_lock_eq take_mutex_def drop_listener_def
       embedded_def [of LNew] embedded_def [of LTry] embedded_def [of "LDone _"]
       embedded_def [of LTryLock] embedded_def [of "LHeld _"] embedded_def [of "LUnlock _"]
       dest: slow_enter_embedded split: lock_in.splits option.splits if_splits\<close>)

end
