(* ===== verification/RawRwLock_Inv.thy ===== *)
theory RawRwLock_Inv
  imports RawRwLock Lock_Embedded
begin

text \<open>
  What a step of the reader-writer lock does. At each program point a task has a \<open>role\<close>: what it
  contributes to the state word and to the embedded mutex. \<open>rw_move\<close> lists how one step can change
  the role, the state word and the mutex; \<open>rw_step_move\<close> shows that every action of the code is
  one of these. \<open>rw_wf\<close> says what the local variables satisfy at each program point.
\<close>

text \<open>
  \<open>Idle\<close> contributes nothing. \<open>Rd\<close> is counted as a reader; \<open>Up\<close> as a reader that also has the
  mutex; \<open>Mx\<close> has the mutex only; \<open>Cs\<close> too, and has passed the overflow check; \<open>Wt\<close> has the mutex
  and the writer bit and waits for readers; \<open>Exc\<close> has both and exclusive access.
\<close>

datatype role = Idle | Rd | Up | Mx | Cs | Wt | Exc

definition lock_role :: "'l lock \<Rightarrow> role" where
  "lock_role l = (if lock_owner l = 0 then Idle else Mx)"

definition role :: "'l rw \<Rightarrow> role" where
  "role t = (case t of
     RUpLock l \<Rightarrow> lock_role l | RWriteLock l \<Rightarrow> lock_role l
   | RTryUpLoad \<Rightarrow> Mx | RTryUpCas st \<Rightarrow> Cs | RUpLoad lo \<Rightarrow> Mx | RUpCas st lo \<Rightarrow> Cs
   | RTryWriteCas \<Rightarrow> Mx | RWriteOr lo \<Rightarrow> Mx | RWriteListen lo \<Rightarrow> Wt
   | RWriteSet l nr st \<Rightarrow> (case st of WaitingReaders \<Rightarrow> Wt | WriteAcquired \<Rightarrow> Exc)
   | RWrite pc nr \<Rightarrow> Wt | RUpgrade pc listener lo \<Rightarrow> Wt
   | RReader lo \<Rightarrow> Rd | RUpgradable lo \<Rightarrow> Up | RWriter lo \<Rightarrow> Exc
   | RUpUnlockNotify lo \<Rightarrow> Mx | RWriteUnlockNotify lo \<Rightarrow> Mx | RUnlockMutex lo \<Rightarrow> Mx
   | RDownWriteMutex lo \<Rightarrow> Up | RDownWriteMutexNotify lo \<Rightarrow> Rd | RDownWriteNotify lo \<Rightarrow> Rd
   | RDownUpNotify lo \<Rightarrow> Rd
   | _ \<Rightarrow> Idle)"

definition rw_starved :: "'l rw \<Rightarrow> nat" where
  "rw_starved t = (case t of RUpLock l \<Rightarrow> lock_starved l | RWriteLock l \<Rightarrow> lock_starved l | _ \<Rightarrow> 0)"

subsection \<open>Well-formed tasks\<close>

definition readable :: "usize \<Rightarrow> bool" where
  "readable st \<longleftrightarrow> even (unat st) \<and> st \<le> isize_MAX"

definition drain_wf :: "drain_pc \<Rightarrow> 'l option \<Rightarrow> bool" where
  "drain_wf pc lo \<longleftrightarrow> (pc = DrListen \<longrightarrow> lo = None) \<and> (pc = DrWait \<or> pc = DrSleep \<longrightarrow> lo \<noteq> None)"

definition rw_wf :: "'l rw \<Rightarrow> bool" where
  "rw_wf t = (case t of
     RTryReadCas st \<Rightarrow> readable st
   | RRead pc r \<Rightarrow> (pc = RdCas \<longrightarrow> readable (rd_state r)) \<and>
       (pc \<in> {RdIdle, RdListen, RdNotify} \<longrightarrow> rd_listener r = None) \<and>
       (pc \<in> {RdWait, RdSleep} \<longrightarrow> rd_listener r \<noteq> None \<and> rd_state r AND WRITER_BIT \<noteq> 0)
   | RUpLock l \<Rightarrow> embedded l \<and> lock_wf l
   | RWriteLock l \<Rightarrow> embedded l \<and> lock_wf l
   | RWrite pc nr \<Rightarrow> pc \<noteq> DrIdle \<and> drain_wf pc nr
   | RUpgrade pc listener lo \<Rightarrow> drain_wf pc listener
   | _ \<Rightarrow> True)"

lemma WRITER_BIT_and: "st AND WRITER_BIT = 0 \<longleftrightarrow> even (unat st)"
  by (simp add: WRITER_BIT_def and_1_eq_0_iff)

text \<open>The three functions on every program point.\<close>

lemma rw_wf_simps [simp]:
  "rw_wf RTryRead"
  "rw_wf (RTryReadCas st) \<longleftrightarrow> readable st"
  "rw_wf RReadCall"
  "rw_wf (RRead pc r) \<longleftrightarrow> ((pc = RdCas \<longrightarrow> readable (rd_state r)) \<and>
     (pc \<in> {RdIdle, RdListen, RdNotify} \<longrightarrow> rd_listener r = None) \<and>
     (pc \<in> {RdWait, RdSleep} \<longrightarrow> rd_listener r \<noteq> None \<and> rd_state r AND WRITER_BIT \<noteq> 0))"
  "rw_wf RTryUp"
  "rw_wf RTryUpLoad"
  "rw_wf (RTryUpCas st)"
  "rw_wf (RUpLock l) \<longleftrightarrow> (embedded l \<and> lock_wf l)"
  "rw_wf (RUpLoad lo)"
  "rw_wf (RUpCas st lo)"
  "rw_wf RTryWrite"
  "rw_wf RTryWriteCas"
  "rw_wf (RWriteLock l) \<longleftrightarrow> (embedded l \<and> lock_wf l)"
  "rw_wf (RWriteOr lo)"
  "rw_wf (RWriteListen lo)"
  "rw_wf (RWriteSet x nr ws)"
  "rw_wf (RWrite dpc nr) \<longleftrightarrow> (dpc \<noteq> DrIdle \<and> drain_wf dpc nr)"
  "rw_wf (RUpgrade dpc nr xs) \<longleftrightarrow> drain_wf dpc nr"
  "rw_wf (RReader xs)"
  "rw_wf (RUpgradable xs)"
  "rw_wf (RWriter xs)"
  "rw_wf (RReadUnlockNotify xs)"
  "rw_wf (RUpUnlockNotify xs)"
  "rw_wf (RWriteUnlockNotify xs)"
  "rw_wf (RUnlockMutex xs)"
  "rw_wf (RUnlockMutexNotify xs)"
  "rw_wf (RDownWriteMutex xs)"
  "rw_wf (RDownWriteMutexNotify xs)"
  "rw_wf (RDownWriteNotify xs)"
  "rw_wf (RDownUpNotify xs)"
  "rw_wf (RDone xs)"
  by (simp_all add: rw_wf_def)

lemma role_simps [simp]:
  "role RTryRead = Idle"
  "role (RTryReadCas st) = Idle"
  "role RReadCall = Idle"
  "role (RRead pc r) = Idle"
  "role RTryUp = Idle"
  "role RTryUpLoad = Mx"
  "role (RTryUpCas st) = Cs"
  "role (RUpLock l) = lock_role l"
  "role (RUpLoad lo) = Mx"
  "role (RUpCas st lo) = Cs"
  "role RTryWrite = Idle"
  "role RTryWriteCas = Mx"
  "role (RWriteLock l) = lock_role l"
  "role (RWriteOr lo) = Mx"
  "role (RWriteListen lo) = Wt"
  "role (RWriteSet x nr ws) = (case ws of WaitingReaders \<Rightarrow> Wt | WriteAcquired \<Rightarrow> Exc)"
  "role (RWrite dpc nr) = Wt"
  "role (RUpgrade dpc nr xs) = Wt"
  "role (RReader xs) = Rd"
  "role (RUpgradable xs) = Up"
  "role (RWriter xs) = Exc"
  "role (RReadUnlockNotify xs) = Idle"
  "role (RUpUnlockNotify xs) = Mx"
  "role (RWriteUnlockNotify xs) = Mx"
  "role (RUnlockMutex xs) = Mx"
  "role (RUnlockMutexNotify xs) = Idle"
  "role (RDownWriteMutex xs) = Up"
  "role (RDownWriteMutexNotify xs) = Rd"
  "role (RDownWriteNotify xs) = Rd"
  "role (RDownUpNotify xs) = Rd"
  "role (RDone xs) = Idle"
  by (simp_all add: role_def)

lemma rw_starved_simps [simp]:
  "rw_starved RTryRead = 0"
  "rw_starved (RTryReadCas st) = 0"
  "rw_starved RReadCall = 0"
  "rw_starved (RRead pc r) = 0"
  "rw_starved RTryUp = 0"
  "rw_starved RTryUpLoad = 0"
  "rw_starved (RTryUpCas st) = 0"
  "rw_starved (RUpLock l) = lock_starved l"
  "rw_starved (RUpLoad lo) = 0"
  "rw_starved (RUpCas st lo) = 0"
  "rw_starved RTryWrite = 0"
  "rw_starved RTryWriteCas = 0"
  "rw_starved (RWriteLock l) = lock_starved l"
  "rw_starved (RWriteOr lo) = 0"
  "rw_starved (RWriteListen lo) = 0"
  "rw_starved (RWriteSet x nr ws) = 0"
  "rw_starved (RWrite dpc nr) = 0"
  "rw_starved (RUpgrade dpc nr xs) = 0"
  "rw_starved (RReader xs) = 0"
  "rw_starved (RUpgradable xs) = 0"
  "rw_starved (RWriter xs) = 0"
  "rw_starved (RReadUnlockNotify xs) = 0"
  "rw_starved (RUpUnlockNotify xs) = 0"
  "rw_starved (RWriteUnlockNotify xs) = 0"
  "rw_starved (RUnlockMutex xs) = 0"
  "rw_starved (RUnlockMutexNotify xs) = 0"
  "rw_starved (RDownWriteMutex xs) = 0"
  "rw_starved (RDownWriteMutexNotify xs) = 0"
  "rw_starved (RDownWriteNotify xs) = 0"
  "rw_starved (RDownUpNotify xs) = 0"
  "rw_starved (RDone xs) = 0"
  by (simp_all add: rw_starved_def)

lemmas rw_op_defs = stay_def on_mutex_def try_read_head_def try_read_load_def try_read_cas_def
  read_new_def read_head_def read_unlock_def notify_no_readers_def notify_no_writer_def
  try_upgradable_read_def try_upgradable_load_def try_upgradable_cas_def up_lock_step_def
  up_load_def up_cas_def upgradable_read_unlock_def downgrade_upgradable_read_def try_upgrade_def
  upgrade_def try_write_def try_write_cas_def write_lock_step_def write_enter_def write_set_def
  write_or_def write_listen_def write_drop_lock_def write_unlock_def downgrade_write_def
  downgrade_to_upgradable_def drop_on_def drop_left_def lock_input_def reader_step_def
  upgradable_step_def writer_step_def run_only_def

lemma read_head_wf:
  "read_head r = Next t \<Longrightarrow> rw_wf t"
  by (auto simp: read_head_def readable_def WRITER_BIT_and not_less split: if_splits)

lemma try_read_head_wf: "try_read_head st = Next t \<Longrightarrow> rw_wf t"
  by (auto simp: try_read_head_def readable_def WRITER_BIT_and not_less split: if_splits)

lemma read_step_wf:
  "read_step ev pc s r = Next (s', t') \<Longrightarrow> rw_wf (RRead pc r) \<Longrightarrow> rw_wf t'"
  by (cases pc)
     (auto simp: stay_def map_outcome_Next_iff
       Let_def dest: read_head_wf split: prod.splits sum.splits option.splits if_splits)

lemma upgrade_step_wf:
  "upgrade_step ev pc s listener lo = Next (s', t') \<Longrightarrow> drain_wf pc listener \<Longrightarrow> rw_wf t'"
  by (cases pc)
     (auto simp: drain_wf_def Let_def split: prod.splits option.splits if_splits)

lemma write_step_wf: "write_step ev pc s nr = Next (s', t') \<Longrightarrow> drain_wf pc nr \<Longrightarrow> rw_wf t'"
  by (cases pc)
     (auto simp: drain_wf_def Let_def split: prod.splits option.splits if_splits)

lemma up_lock_stepE:
  assumes "up_lock_step ev i s l = Next (s', t')" and "embedded l" and "lock_wf l"
  obtains m' l' where "lock_step ev i (rmutex s) l = Next (m', l')" "s' = s\<lparr>rmutex := m'\<rparr>"
    "lock_wf l'" "embedded l' \<and> t' = RUpLock l' \<or> (\<exists>lo. l' = LHeld lo \<and> t' = RUpLoad lo)"
proof -
  from assms(1) obtain m' l' where l': "lock_step ev i (rmutex s) l = Next (m', l')"
    "s' = s\<lparr>rmutex := m'\<rparr>" "t' = (case l' of LHeld lo \<Rightarrow> RUpLoad lo | _ \<Rightarrow> RUpLock l')"
    by (auto simp: up_lock_step_def map_outcome_Next_iff)
  have "embedded l' \<Longrightarrow> t' = RUpLock l'"
    unfolding l'(3) by (cases l') (simp_all add: embedded_def)
  with that [OF l'(1,2) lock_step_wf [OF l'(1) assms(3)]]
    lock_step_embedded [OF l'(1) assms(2,3)] l'(3) show thesis by auto
qed

lemma write_lock_stepE:
  assumes "write_lock_step ev i s l = Next (s', t')" and "embedded l" and "lock_wf l"
  obtains m' l' where "lock_step ev i (rmutex s) l = Next (m', l')" "s' = s\<lparr>rmutex := m'\<rparr>"
    "lock_wf l'" "embedded l' \<and> t' = RWriteLock l' \<or> (\<exists>lo. l' = LHeld lo \<and> t' = RWriteOr lo)"
proof -
  from assms(1) obtain m' l' where l': "lock_step ev i (rmutex s) l = Next (m', l')"
    "s' = s\<lparr>rmutex := m'\<rparr>" "t' = (case l' of LHeld lo \<Rightarrow> RWriteOr lo | _ \<Rightarrow> RWriteLock l')"
    by (auto simp: write_lock_step_def map_outcome_Next_iff)
  have "embedded l' \<Longrightarrow> t' = RWriteLock l'"
    unfolding l'(3) by (cases l') (simp_all add: embedded_def)
  with that [OF l'(1,2) lock_step_wf [OF l'(1) assms(3)]]
    lock_step_embedded [OF l'(1) assms(2,3)] l'(3) show thesis by auto
qed

lemma up_lock_step_wf:
  assumes "up_lock_step ev i s l = Next (s', t')" and "embedded l" and "lock_wf l"
  shows "rw_wf t'"
  by (rule up_lock_stepE [OF assms]) auto

lemma write_lock_step_wf:
  assumes "write_lock_step ev i s l = Next (s', t')" and "embedded l" and "lock_wf l"
  shows "rw_wf t'"
  by (rule write_lock_stepE [OF assms]) auto

text \<open>Steps of guards and of the calls that end them need no assumption on the task.\<close>

lemma guard_steps_wf:
  "reader_step ev i s lo = Next (s', t') \<Longrightarrow> rw_wf t'"
  "upgradable_step ev i s lo = Next (s', t') \<Longrightarrow> rw_wf t'"
  "writer_step ev i s lo = Next (s', t') \<Longrightarrow> rw_wf t'"
  subgoal
    by (auto simp: reader_step_def read_unlock_def drop_left_def Let_def
        split: rw_in.splits if_splits prod.splits)
  subgoal
    by (auto simp: upgradable_step_def upgradable_read_unlock_def downgrade_upgradable_read_def
        drain_wf_def drop_left_def Let_def split: rw_in.splits if_splits prod.splits)
  subgoal
    by (auto simp: writer_step_def write_unlock_def downgrade_write_def downgrade_to_upgradable_def
        drop_left_def split: rw_in.splits if_splits)
  done

lemma run_only_Next: "run_only i r = Next x \<longleftrightarrow> (\<exists>now. i = RwRun now) \<and> r = Next x"
  by (auto simp: run_only_def split: rw_in.splits)

lemma stay_Next: "stay s r = Next (s', t') \<longleftrightarrow> s' = s \<and> r = Next t'"
  by (auto simp: stay_def map_outcome_Next_iff)

lemma rw_step_wf:
  assumes step: "rw_step ev i s t = Next (s', t')" and wf: "rw_wf t"
  shows "rw_wf t'"
proof (cases t)
  case (RRead pc r)
  with step wf show ?thesis
    by (auto simp: rw_step_def run_only_Next stay_Next dest: read_head_wf read_step_wf
        split: rw_in.splits if_splits)
next
  case (RTryReadCas st)
  with step show ?thesis
    by (auto simp: rw_step_def run_only_Next try_read_cas_def stay_Next Let_def
        dest: try_read_head_wf split: sum.splits prod.splits)
next
  case RTryRead
  with step show ?thesis
    by (auto simp: rw_step_def run_only_Next try_read_load_def stay_Next dest: try_read_head_wf)
next
  case RReadCall
  with step show ?thesis by (auto simp: rw_step_def run_only_Next read_new_def)
next
  case (RUpLock l)
  with step wf show ?thesis by (auto simp: rw_step_def dest: up_lock_step_wf split: option.splits)
next
  case (RWriteLock l)
  with step wf show ?thesis by (auto simp: rw_step_def dest: write_lock_step_wf split: option.splits)
next
  case (RWrite pc nr)
  with step wf show ?thesis
    by (auto simp: rw_step_def run_only_Next write_unlock_def dest: write_step_wf
        split: rw_in.splits if_splits) (auto simp: drain_wf_def)
next
  case (RUpgrade pc listener lo)
  with step wf show ?thesis
    by (auto simp: rw_step_def run_only_Next write_unlock_def drop_left_def dest: upgrade_step_wf
        split: rw_in.splits if_splits) (auto simp: drain_wf_def)
next
  case (RWriteOr lo)
  with step show ?thesis
    by (auto simp: rw_step_def run_only_Next write_or_def write_set_def write_enter_def Let_def
        drain_wf_def split: prod.splits option.splits if_splits)
next
  case (RWriteListen lo)
  with step show ?thesis
    by (auto simp: rw_step_def run_only_Next write_listen_def write_set_def write_enter_def Let_def
        drain_wf_def split: prod.splits option.splits)
next
  case (RWriteSet l nr ws)
  with step show ?thesis
    by (auto simp: rw_step_def run_only_Next write_drop_lock_def write_enter_def drain_wf_def
        split: write_state.splits)
qed (use step in \<open>auto simp: rw_step_def run_only_Next stay_Next guard_steps_wf Let_def drop_left_def
      try_upgradable_read_def try_upgradable_load_def try_upgradable_cas_def up_load_def up_cas_def
      try_write_def try_write_cas_def 
       split: rw_in.splits if_splits prod.splits sum.splits\<close>)

subsection \<open>How a step changes the state word, the mutex and the role\<close>

text \<open>Role and starvation of the task before and after, and the lock before and after.\<close>

inductive rw_move ::
    "('e, 'l) event_ops \<Rightarrow> 'e raw_rwlock \<Rightarrow> role \<Rightarrow> nat \<Rightarrow> 'e raw_rwlock \<Rightarrow> role \<Rightarrow> nat \<Rightarrow> bool"
  for ev where
  quiet: "rstate s' = rstate s \<Longrightarrow> mstate (rmutex s') = mstate (rmutex s) \<Longrightarrow> rw_move ev s r n s' r n"
| locking: "rstate s' = rstate s \<Longrightarrow> lock_step ev i (rmutex s) l = Next (rmutex s', l') \<Longrightarrow> lock_wf l \<Longrightarrow>
    rw_move ev s (lock_role l) (lock_starved l) s' (lock_role l') (lock_starved l')"
| try_lock: "rstate s' = rstate s \<Longrightarrow> mstate (rmutex s) = 0 \<Longrightarrow> mstate (rmutex s') = 1 \<Longrightarrow>
    rw_move ev s Idle 0 s' Mx 0"
| read: "rmutex s' = rmutex s \<Longrightarrow> readable (rstate s) \<Longrightarrow> rstate s' = rstate s + 2 \<Longrightarrow>
    rw_move ev s Idle 0 s' Rd 0"
| unread: "rmutex s' = rmutex s \<Longrightarrow> rstate s' = rstate s - 2 \<Longrightarrow> rw_move ev s Rd 0 s' Idle 0"
| check: "s' = s \<Longrightarrow> rstate s \<le> isize_MAX \<Longrightarrow> rw_move ev s Mx 0 s' Cs 0"
| read_up: "rmutex s' = rmutex s \<Longrightarrow> rstate s' = rstate s + 2 \<Longrightarrow> rw_move ev s Cs 0 s' Up 0"
| unread_up: "rmutex s' = rmutex s \<Longrightarrow> rstate s' = rstate s - 2 \<Longrightarrow> rw_move ev s Up 0 s' Mx 0"
| to_reader: "rstate s' = rstate s \<Longrightarrow> mstate (rmutex s') = mstate (rmutex s) - 1 \<Longrightarrow>
    rw_move ev s Up 0 s' Rd 0"
| try_upgraded: "rmutex s' = rmutex s \<Longrightarrow> rstate s = 2 \<Longrightarrow> rstate s' = 1 \<Longrightarrow> rw_move ev s Up 0 s' Exc 0"
| upgrading: "rmutex s' = rmutex s \<Longrightarrow> rstate s' = rstate s - 1 \<Longrightarrow> rw_move ev s Up 0 s' Wt 0"
| try_written: "rmutex s' = rmutex s \<Longrightarrow> rstate s = 0 \<Longrightarrow> rstate s' = 1 \<Longrightarrow> rw_move ev s Mx 0 s' Exc 0"
| writing: "rmutex s' = rmutex s \<Longrightarrow> rstate s' = rstate s OR 1 \<Longrightarrow> rw_move ev s Mx 0 s' Wt 0"
| fast_path: "rstate s = 1 \<Longrightarrow> rw_move ev s Mx 0 s' Exc 0"
| drained: "s' = s \<Longrightarrow> rstate s = 1 \<Longrightarrow> rw_move ev s Wt 0 s' Exc 0"
| downgrade: "rmutex s' = rmutex s \<Longrightarrow> rstate s' = rstate s + 1 \<Longrightarrow> rw_move ev s Exc 0 s' Up 0"
| unwrite: "r \<in> {Wt, Exc} \<Longrightarrow> rmutex s' = rmutex s \<Longrightarrow> rstate s' = rstate s AND NOT 1 \<Longrightarrow>
    rw_move ev s r 0 s' Mx 0"
| unlock: "rstate s' = rstate s \<Longrightarrow> mstate (rmutex s') = mstate (rmutex s) - 1 \<Longrightarrow>
    rw_move ev s Mx 0 s' Idle 0"

text \<open>All the moves but those of the lock future, as conditional rewrite rules.\<close>

lemmas rw_move_rules = rw_move.quiet rw_move.try_lock rw_move.read rw_move.unread rw_move.check
  rw_move.read_up rw_move.unread_up rw_move.to_reader rw_move.try_upgraded rw_move.upgrading
  rw_move.try_written rw_move.writing rw_move.fast_path rw_move.drained rw_move.downgrade
  rw_move.unwrite rw_move.unlock

lemma drop_on_move: "rw_move ev s r n (drop_on ev w l s) r n"
  by (rule rw_move.quiet) (auto simp: drop_on_def on_mutex_def split: rw_event.split)

lemma drop_left_move:
  "drop_left ev j s lo C = Next (s', t') \<Longrightarrow> (\<And>xs. role (C xs) = r \<and> rw_starved (C xs) = n) \<Longrightarrow>
   rw_move ev s r n s' (role t') (rw_starved t')"
  by (auto simp: drop_left_def drop_on_move split: if_splits)

lemma read_head_move:
  "read_head r = Next t' \<Longrightarrow> rw_move ev s Idle 0 s (role t') (rw_starved t')"
  "try_read_head st = Next t' \<Longrightarrow> rw_move ev s Idle 0 s (role t') (rw_starved t')"
  by (auto simp: read_head_def try_read_head_def rw_move_rules split: if_splits)

lemmas rw_consts = WRITER_BIT_def ONE_READER_def

lemma read_step_move:
  assumes "read_step ev pc s r = Next (s', t')" and "rw_wf (RRead pc r)"
  shows "rw_move ev s Idle 0 s' (role t') (rw_starved t')"
  using assms
  by (cases pc)
     (auto simp: stay_Next compare_exchange_def rw_consts Let_def rw_move_rules dest: read_head_move
       split: prod.splits sum.splits option.splits if_splits)

lemma upgrade_step_move:
  "upgrade_step ev pc s listener lo = Next (s', t') \<Longrightarrow> rw_move ev s Wt 0 s' (role t') (rw_starved t')"
  by (cases pc)
     (auto simp: rw_consts Let_def rw_move_rules
       split: prod.splits option.splits if_splits)

lemma write_step_move:
  "write_step ev pc s nr = Next (s', t') \<Longrightarrow> rw_move ev s Wt 0 s' (role t') (rw_starved t')"
  by (cases pc)
     (auto simp: rw_consts Let_def rw_move_rules
       split: prod.splits option.splits if_splits)

lemma reader_step_move:
  "reader_step ev i s lo = Next (s', t') \<Longrightarrow> rw_move ev s Rd 0 s' (role t') (rw_starved t')"
  by (auto simp: reader_step_def read_unlock_def fetch_sub_def rw_consts rw_move_rules elim!: drop_left_move split: rw_in.splits if_splits)

lemma upgradable_step_move:
  "upgradable_step ev i s lo = Next (s', t') \<Longrightarrow> rw_move ev s Up 0 s' (role t') (rw_starved t')"
  by (auto simp: upgradable_step_def upgradable_read_unlock_def downgrade_upgradable_read_def
      try_upgrade_def upgrade_def on_mutex_def unlock_sub_def fetch_sub_def rw_consts
      compare_exchange_def is_ok_def rw_move_rules elim!: drop_left_move split: rw_in.splits if_splits)

lemma writer_step_move:
  "writer_step ev i s lo = Next (s', t') \<Longrightarrow> rw_move ev s Exc 0 s' (role t') (rw_starved t')"
  by (auto simp: writer_step_def write_unlock_def downgrade_write_def downgrade_to_upgradable_def
      fetch_add_def fetch_and_def rw_consts rw_move_rules elim!: drop_left_move split: rw_in.splits if_splits)

lemma lock_role_LHeld: "lock_role (LHeld lo) = Mx" "lock_starved (LHeld lo) = 0"
  by (simp_all add: lock_role_def lock_owner_def lock_starved_def)

lemma up_lock_step_move:
  assumes "up_lock_step ev i s l = Next (s', t')" and "embedded l" and "lock_wf l"
  shows "rw_move ev s (lock_role l) (lock_starved l) s' (role t') (rw_starved t')"
proof -
  obtain m' l' where l': "lock_step ev i (rmutex s) l = Next (m', l')" "s' = s\<lparr>rmutex := m'\<rparr>"
    "embedded l' \<and> t' = RUpLock l' \<or> (\<exists>lo. l' = LHeld lo \<and> t' = RUpLoad lo)"
    by (rule up_lock_stepE [OF assms])
  have "rw_move ev s (lock_role l) (lock_starved l) s' (lock_role l') (lock_starved l')"
    by (rule rw_move.locking [where i = i]) (use l' assms(3) in simp_all)
  with l'(3) show ?thesis by (auto simp: lock_role_LHeld)
qed

lemma write_lock_step_move:
  assumes "write_lock_step ev i s l = Next (s', t')" and "embedded l" and "lock_wf l"
  shows "rw_move ev s (lock_role l) (lock_starved l) s' (role t') (rw_starved t')"
proof -
  obtain m' l' where l': "lock_step ev i (rmutex s) l = Next (m', l')" "s' = s\<lparr>rmutex := m'\<rparr>"
    "embedded l' \<and> t' = RWriteLock l' \<or> (\<exists>lo. l' = LHeld lo \<and> t' = RWriteOr lo)"
    by (rule write_lock_stepE [OF assms])
  have "rw_move ev s (lock_role l) (lock_starved l) s' (lock_role l') (lock_starved l')"
    by (rule rw_move.locking [where i = i]) (use l' assms(3) in simp_all)
  with l'(3) show ?thesis by (auto simp: lock_role_LHeld)
qed

lemma rw_step_move:
  assumes step: "rw_step ev i s t = Next (s', t')" and wf: "rw_wf t"
  shows "rw_move ev s (role t) (rw_starved t) s' (role t') (rw_starved t')"
proof (cases t)
  case (RRead pc r)
  with step wf show ?thesis
    by (auto simp: rw_step_def run_only_Next stay_Next rw_move_rules
        dest: read_head_move read_step_move split: rw_in.splits if_splits)
next
  case (RTryReadCas st)
  with step wf show ?thesis
    by (auto simp: rw_step_def run_only_Next try_read_cas_def compare_exchange_def stay_Next
        rw_consts rw_move_rules Let_def dest: read_head_move split: sum.splits prod.splits if_splits)
next
  case RTryRead
  with step show ?thesis
    by (auto simp: rw_step_def run_only_Next try_read_load_def stay_Next dest: read_head_move)
next
  case (RUpLock l)
  with step wf show ?thesis by (auto simp: rw_step_def dest: up_lock_step_move split: option.splits)
next
  case (RWriteLock l)
  with step wf show ?thesis
    by (auto simp: rw_step_def dest: write_lock_step_move split: option.splits)
next
  case (RWrite pc nr)
  with step wf show ?thesis
    by (auto simp: rw_step_def run_only_Next write_unlock_def fetch_and_def WRITER_BIT_def
        rw_move_rules dest: write_step_move split: rw_in.splits if_splits)
next
  case (RUpgrade pc listener lo)
  with step wf show ?thesis
    by (auto simp: rw_step_def run_only_Next write_unlock_def fetch_and_def WRITER_BIT_def
        rw_move_rules dest: upgrade_step_move elim!: drop_left_move split: rw_in.splits if_splits)
next
  case (RWriteOr lo)
  with step show ?thesis
    by (auto simp: rw_step_def run_only_Next write_or_def write_set_def write_enter_def Let_def
        fetch_or_def rw_consts rw_move_rules split: option.splits if_splits)
next
  case (RWriteListen lo)
  with step show ?thesis
    by (auto simp: rw_step_def run_only_Next write_listen_def write_set_def write_enter_def Let_def
        rw_move_rules split: prod.splits option.splits)
next
  case (RWriteSet l nr ws)
  with step show ?thesis
    by (auto simp: rw_step_def run_only_Next write_drop_lock_def write_enter_def on_mutex_def
        rw_move_rules split: write_state.splits)
next
  case (RReader lo)
  with step show ?thesis by (auto simp: rw_step_def dest: reader_step_move)
next
  case (RUpgradable lo)
  with step show ?thesis by (auto simp: rw_step_def dest: upgradable_step_move)
next
  case (RWriter lo)
  with step show ?thesis by (auto simp: rw_step_def dest: writer_step_move)
next
  case (RDone lo)
  with step show ?thesis
    by (auto simp: rw_step_def elim!: drop_left_move split: rw_in.splits)
qed (use step in \<open>auto simp: rw_step_def run_only_Next stay_Next Let_def
      try_upgradable_read_def try_upgradable_load_def try_upgradable_cas_def up_load_def up_cas_def
      try_write_def try_write_cas_def try_lock_eq compare_exchange_def is_ok_def not_less rw_consts
      notify_no_readers_def notify_no_writer_def on_mutex_def unlock_sub_def unlock_notify_def
      fetch_sub_def read_new_def rw_move_rules
       split: if_splits prod.splits sum.splits\<close>)

end
