(* ===== verification/RawRwLock_Count.thy ===== *)
theory RawRwLock_Count
  imports RawRwLock_Inv
begin

text \<open>
  The counting invariant of the reader-writer lock: the state word is twice the number of readers
  plus the number of writers that have set the bit; the embedded mutex is held by at most one
  task; an exclusive writer excludes every reader. Each move of \<open>rw_move\<close> keeps it.
\<close>

subsection \<open>The invariant\<close>

text \<open>
  The totals: readers \<open>r\<close>, upgradable readers \<open>u\<close>, tasks with the mutex only \<open>m\<close>, of which \<open>k\<close>
  past the overflow check, waiting writers \<open>w\<close> and exclusive writers \<open>x\<close>.
\<close>

definition rw_ok :: "'e raw_rwlock \<Rightarrow> nat \<Rightarrow> nat \<Rightarrow> nat \<Rightarrow> nat \<Rightarrow> nat \<Rightarrow> nat \<Rightarrow> nat \<Rightarrow> bool" where
  "rw_ok s r u m k w x st \<longleftrightarrow>
     mutex_ok (rmutex s) (m + k + u + w + x) st \<and>
     unat (rstate s) = 2 * (r + u) + (w + x) \<and>
     (0 < x \<longrightarrow> r = 0) \<and> (0 < k \<longrightarrow> r \<le> 2 ^ 62) \<and> r + u \<le> 2 ^ 62 + 1"

lemma rw_ok_own: "rw_ok s r u m k w x st \<Longrightarrow> m + k + u + w + x \<le> 1"
  by (simp add: rw_ok_def mutex_ok_def)

lemma rw_ok_mutex:
  "rw_ok s r u m k w x st \<Longrightarrow> rstate s' = rstate s \<Longrightarrow>
   mutex_ok (rmutex s') (m' + k + u + w + x) st' \<Longrightarrow> rw_ok s' r u m' k w x st'"
  by (simp add: rw_ok_def)

lemma rw_ok_read:
  assumes ok: "rw_ok s r u m k w x st" and st: "readable (rstate s)"
    and s': "rmutex s' = rmutex s" "rstate s' = rstate s + 2"
  shows "rw_ok s' (Suc r) u m k w x st"
proof -
  have le: "unat (rstate s) \<le> 2 ^ 63 - 1" and ev: "even (unat (rstate s))"
    using st by (simp_all add: readable_def le_isize_MAX_iff)
  have "w + x \<le> 1" using rw_ok_own [OF ok] by simp
  moreover have "even (2 * (r + u) + (w + x))" using ev ok by (simp add: rw_ok_def)
  ultimately have "w + x = 0" by presburger
  then have wx: "w = 0" "x = 0" by simp_all
  with ok le have "2 * (r + u) \<le> 2 ^ 63 - 1" by (simp add: rw_ok_def)
  then have "r + u < 2 ^ 62" by simp
  moreover have "unat (rstate s') = unat (rstate s) + 2"
    using le by (simp add: s'(2) unat_add_no_wrap)
  ultimately show ?thesis using ok wx s'(1) by (simp add: rw_ok_def)
qed

lemma rw_ok_unread:
  "rw_ok s (Suc r) u m k w x st \<Longrightarrow> rmutex s' = rmutex s \<Longrightarrow> rstate s' = rstate s - 2 \<Longrightarrow>
   rw_ok s' r u m k w x st"
  by (auto simp: rw_ok_def unat_sub_no_wrap)

lemma rw_ok_check:
  assumes ok: "rw_ok s r u (Suc m) k w x st" and "rstate s \<le> isize_MAX"
  shows "rw_ok s r u m (Suc k) w x st"
proof -
  have "u = 0" "w = 0" "x = 0" using rw_ok_own [OF ok] by simp_all
  with assms show ?thesis by (simp add: rw_ok_def le_isize_MAX_iff)
qed

lemma rw_ok_read_up:
  assumes ok: "rw_ok s r u m (Suc k) w x st" and s': "rmutex s' = rmutex s" "rstate s' = rstate s + 2"
  shows "rw_ok s' r (Suc u) m k w x st"
proof -
  have z: "u = 0" "w = 0" "x = 0" "k = 0" using rw_ok_own [OF ok] by simp_all
  have "unat (rstate s) \<le> 2 ^ 63" using ok z by (simp add: rw_ok_def)
  then have "unat (rstate s') = unat (rstate s) + 2" by (simp add: s'(2) unat_add_no_wrap)
  with ok z s'(1) show ?thesis by (simp add: rw_ok_def)
qed

lemma rw_ok_unread_up:
  "rw_ok s r (Suc u) m k w x st \<Longrightarrow> rmutex s' = rmutex s \<Longrightarrow> rstate s' = rstate s - 2 \<Longrightarrow>
   rw_ok s' r u (Suc m) k w x st"
  by (auto simp: rw_ok_def unat_sub_no_wrap)

lemma rw_ok_upgrade:
  "rw_ok s r (Suc u) m k w x st \<Longrightarrow> rmutex s' = rmutex s \<Longrightarrow> rstate s' = rstate s - 1 \<Longrightarrow>
   rw_ok s' r u m k (Suc w) x st"
  by (auto simp: rw_ok_def unat_sub_no_wrap)

lemma rw_ok_or:
  assumes ok: "rw_ok s r u (Suc m) k w x st" and s': "rmutex s' = rmutex s" "rstate s' = rstate s OR 1"
  shows "rw_ok s' r u m k (Suc w) x st"
proof -
  have "u = 0" "w = 0" "x = 0" "k = 0" using rw_ok_own [OF ok] by simp_all
  with ok s' show ?thesis by (simp add: rw_ok_def unat_or_1)
qed

lemma rw_ok_downgrade:
  assumes ok: "rw_ok s r u m k w (Suc x) st" and s': "rmutex s' = rmutex s" "rstate s' = rstate s + 1"
  shows "rw_ok s' r (Suc u) m k w x st"
proof -
  have z: "u = 0" "w = 0" "x = 0" "k = 0" "m = 0" using rw_ok_own [OF ok] by simp_all
  have "unat (rstate s') = unat (rstate s) + 1"
    using ok z by (simp add: rw_ok_def s'(2) unat_add_no_wrap)
  with ok z s'(1) show ?thesis by (simp add: rw_ok_def)
qed

lemma rw_ok_unwrite:
  assumes ok: "rw_ok s r u m k w x st" and wx: "w + x = Suc n"
    and s': "rmutex s' = rmutex s" "rstate s' = rstate s AND NOT 1"
  shows "rw_ok s' r u (Suc m) k 0 0 st"
proof -
  have z: "u = 0" "k = 0" "m = 0" "n = 0" using rw_ok_own [OF ok] wx by simp_all
  then have "unat (rstate s) = 2 * r + 1" using ok wx by (simp add: rw_ok_def)
  then have "unat (rstate s') = 2 * r" unfolding s'(2) unat_and_not_1 by presburger
  with ok z wx s'(1) show ?thesis by (auto simp: rw_ok_def)
qed

text \<open>The contributions of a task, and the invariant.\<close>

datatype rw_key = KRole role | KStarve

definition rw_wt :: "rw_key \<Rightarrow> 'l rw \<Rightarrow> nat" where
  "rw_wt key t = (case key of
     KRole r \<Rightarrow> of_bool (role t = r \<and> r \<noteq> Idle) | KStarve \<Rightarrow> rw_starved t)"

definition rw_good :: "'e raw_rwlock \<Rightarrow> (rw_key \<Rightarrow> nat) \<Rightarrow> bool" where
  "rw_good s c \<longleftrightarrow> rw_ok s (c (KRole Rd)) (c (KRole Up)) (c (KRole Mx)) (c (KRole Cs))
     (c (KRole Wt)) (c (KRole Exc)) (c KStarve)"

text \<open>The totals without a task in role \<open>r\<close> that is starved \<open>n\<close> times, and with it.\<close>

definition at_role :: "role \<Rightarrow> nat \<Rightarrow> rw_key \<Rightarrow> nat" where
  "at_role r n key = (case key of KRole q \<Rightarrow> of_bool (r = q \<and> q \<noteq> Idle) | KStarve \<Rightarrow> n)"

lemma rw_wt_at_role: "rw_wt key t = at_role (role t) (rw_starved t) key"
  by (simp add: rw_wt_def at_role_def split: rw_key.split)

lemma lock_role_at: "at_role (lock_role l) n (KRole q) = of_bool (q = Mx) * lock_owner l"
  using lock_owner_le_1 [of l] by (auto simp: at_role_def lock_role_def le_Suc_eq)

text \<open>The moves on the totals; a total that loses a task is at least one.\<close>

lemma rw_ok_rules:
  "rw_ok s r u m k w x st \<Longrightarrow> 1 \<le> r \<Longrightarrow> rmutex s' = rmutex s \<Longrightarrow> rstate s' = rstate s - 2 \<Longrightarrow>
     rw_ok s' (r - 1) u m k w x st"
  "rw_ok s r u m k w x st \<Longrightarrow> 1 \<le> m \<Longrightarrow> rstate s \<le> isize_MAX \<Longrightarrow>
     rw_ok s r u (m - 1) (Suc k) w x st"
  "rw_ok s r u m k w x st \<Longrightarrow> 1 \<le> k \<Longrightarrow> rmutex s' = rmutex s \<Longrightarrow> rstate s' = rstate s + 2 \<Longrightarrow>
     rw_ok s' r (Suc u) m (k - 1) w x st"
  "rw_ok s r u m k w x st \<Longrightarrow> 1 \<le> u \<Longrightarrow> rmutex s' = rmutex s \<Longrightarrow> rstate s' = rstate s - 2 \<Longrightarrow>
     rw_ok s' r (u - 1) (Suc m) k w x st"
  "rw_ok s r u m k w x st \<Longrightarrow> 1 \<le> u \<Longrightarrow> rmutex s' = rmutex s \<Longrightarrow> rstate s' = rstate s - 1 \<Longrightarrow>
     rw_ok s' r (u - 1) m k (Suc w) x st"
  "rw_ok s r u m k w x st \<Longrightarrow> 1 \<le> m \<Longrightarrow> rmutex s' = rmutex s \<Longrightarrow> rstate s' = rstate s OR 1 \<Longrightarrow>
     rw_ok s' r u (m - 1) k (Suc w) x st"
  "rw_ok s r u m k w x st \<Longrightarrow> 1 \<le> x \<Longrightarrow> rmutex s' = rmutex s \<Longrightarrow> rstate s' = rstate s + 1 \<Longrightarrow>
     rw_ok s' r (Suc u) m k w (x - 1) st"
  using rw_ok_unread [of s "r - 1"] rw_ok_check [of s r u "m - 1"] rw_ok_read_up [of s r u m "k - 1"]
    rw_ok_unread_up [of s r "u - 1"] rw_ok_upgrade [of s r "u - 1"] rw_ok_or [of s r u "m - 1"]
    rw_ok_downgrade [of s r u m k w "x - 1"]
  by simp_all

lemma rw_ok_single:
  assumes "rw_ok s r u m k w x st"
  shows "1 \<le> m \<Longrightarrow> m = 1 \<and> k = 0 \<and> u = 0 \<and> w = 0 \<and> x = 0"
    and "1 \<le> u \<Longrightarrow> m = 0 \<and> k = 0 \<and> u = 1 \<and> w = 0 \<and> x = 0"
    and "1 \<le> w \<Longrightarrow> m = 0 \<and> k = 0 \<and> u = 0 \<and> w = 1 \<and> x = 0"
    and "1 \<le> x \<Longrightarrow> m = 0 \<and> k = 0 \<and> u = 0 \<and> w = 0 \<and> x = 1"
  using rw_ok_own [OF assms] by auto

lemma rw_ok_unlock:
  assumes ok: "rw_ok s r u m k w x st" and s': "rstate s' = rstate s"
      "mstate (rmutex s') = mstate (rmutex s) - 1"
  shows "1 \<le> m \<Longrightarrow> rw_ok s' r u (m - 1) k w x st"
    and "1 \<le> u \<Longrightarrow> rw_ok s' (Suc r) (u - 1) m k w x st"
proof -
  have own: "mutex_ok (rmutex s') 0 st" if "m + k + u + w + x = 1"
    using mutex_ok_unlock [of "rmutex s" 1 st] that ok s'(2) by (simp add: rw_ok_def mutex_ok_def)
  show "1 \<le> m \<Longrightarrow> rw_ok s' r u (m - 1) k w x st"
    using rw_ok_single(1) [OF ok] own ok s'(1) by (simp add: rw_ok_def)
  show "1 \<le> u \<Longrightarrow> rw_ok s' (Suc r) (u - 1) m k w x st"
    using rw_ok_single(2) [OF ok] own ok s'(1) by (simp add: rw_ok_def)
qed

lemma rw_ok_try:
  assumes ok: "rw_ok s r u m k w x st"
  shows "1 \<le> u \<Longrightarrow> rmutex s' = rmutex s \<Longrightarrow> rstate s = 2 \<Longrightarrow> rstate s' = 1 \<Longrightarrow>
      rw_ok s' r (u - 1) m k w (Suc x) st"
    and "1 \<le> m \<Longrightarrow> rmutex s' = rmutex s \<Longrightarrow> rstate s = 0 \<Longrightarrow> rstate s' = 1 \<Longrightarrow>
      rw_ok s' r u (m - 1) k w (Suc x) st"
    and "1 \<le> w \<Longrightarrow> rstate s = 1 \<Longrightarrow> rw_ok s r u m k (w - 1) (Suc x) st"
    and "rstate s' = rstate s \<Longrightarrow> mstate (rmutex s) = 0 \<Longrightarrow> mstate (rmutex s') = 1 \<Longrightarrow>
      rw_ok s' r u (Suc m) k w x st"
  subgoal
    by (drule rw_ok_single(2) [OF ok]) (use ok in \<open>auto simp: rw_ok_def\<close>)
  subgoal using ok rw_ok_single(1) [OF ok] by (auto simp: rw_ok_def)
  subgoal
    by (drule rw_ok_single(3) [OF ok]) (use ok in \<open>auto simp: rw_ok_def\<close>)
  subgoal using ok by (auto simp: rw_ok_def mutex_ok_def)
  done

lemma rw_ok_unwrite':
  assumes ok: "rw_ok s r u m k w x st" and s': "rmutex s' = rmutex s" "rstate s' = rstate s AND NOT 1"
  shows "1 \<le> w \<Longrightarrow> rw_ok s' r u (Suc m) k (w - 1) x st"
    and "1 \<le> x \<Longrightarrow> rw_ok s' r u (Suc m) k w (x - 1) st"
  subgoal using rw_ok_unwrite [OF ok _ s', of 0] rw_ok_single(3) [OF ok] by simp
  subgoal using rw_ok_unwrite [OF ok _ s', of 0] rw_ok_single(4) [OF ok] by simp
  done

lemma rw_ok_no_fast_path:
  assumes ok: "rw_ok s r u m k w x st" and m: "1 \<le> m"
  shows "rstate s \<noteq> 1"
proof
  assume "rstate s = 1"
  with ok rw_ok_single(1) [OF ok m] have "1 = 2 * r" by (simp add: rw_ok_def)
  then show False by presburger
qed

lemmas totals_simps = rw_good_def at_role_def

lemma rw_locking_good:
  assumes good: "rw_good s c" and le: "at_role r n (KRole Mx) \<le> c (KRole Mx)" "at_role r n KStarve \<le> c KStarve"
    and l: "r = lock_role l" "n = lock_starved l" and s': "rstate s' = rstate s"
    and step: "lock_step ev i (rmutex s) l = Next (rmutex s', l')" and wf: "lock_wf l"
  shows "rw_good s' (\<lambda>key. c key - at_role r n key + at_role (lock_role l') (lock_starved l') key)"
proof -
  have ok: "rw_ok s (c (KRole Rd)) (c (KRole Up)) (c (KRole Mx)) (c (KRole Cs)) (c (KRole Wt))
      (c (KRole Exc)) (c KStarve)"
    using good by (simp add: rw_good_def)
  have own: "lock_owner l \<le> c (KRole Mx)" and st: "lock_starved l \<le> c KStarve"
    using le l lock_role_at [of l n Mx] by (simp_all add: at_role_def [of _ _ KStarve])
  let ?own = "c (KRole Mx) + c (KRole Cs) + c (KRole Up) + c (KRole Wt) + c (KRole Exc)"
  have "mutex_ok (rmutex s') (?own - lock_owner l + lock_owner l')
      (c KStarve - lock_starved l + lock_starved l')"
    by (rule lock_step_ok [OF step wf]) (use good own st in \<open>simp_all add: rw_good_def rw_ok_def\<close>)
  moreover have "?own - lock_owner l + lock_owner l' = c (KRole Mx) - lock_owner l + lock_owner l' +
      c (KRole Cs) + c (KRole Up) + c (KRole Wt) + c (KRole Exc)"
    using own by simp
  ultimately have "rw_ok s' (c (KRole Rd)) (c (KRole Up)) (c (KRole Mx) - lock_owner l + lock_owner l')
      (c (KRole Cs)) (c (KRole Wt)) (c (KRole Exc)) (c KStarve - lock_starved l + lock_starved l')"
    by (intro rw_ok_mutex [OF ok s']) simp
  then show ?thesis by (simp add: rw_good_def lock_role_at l at_role_def [of _ _ KStarve])
qed

lemma rw_move_good:
  assumes move: "rw_move ev s r n s' r' n'" and good: "rw_good s c"
    and le: "\<And>key. at_role r n key \<le> c key"
  shows "rw_good s' (\<lambda>key. c key - at_role r n key + at_role r' n' key)"
proof -
  have le': "at_role r n (KRole q) \<le> c (KRole q)" for q by (rule le)
  note les = le' [of Rd] le' [of Up] le' [of Mx] le' [of Cs] le' [of Wt] le' [of Exc]
  have ok: "rw_ok s (c (KRole Rd)) (c (KRole Up)) (c (KRole Mx)) (c (KRole Cs)) (c (KRole Wt))
      (c (KRole Exc)) (c KStarve)"
    using good by (simp add: rw_good_def)
  from move show ?thesis
  proof cases
    case quiet
    with good le show ?thesis by (simp add: rw_good_def rw_ok_def mutex_ok_def)
  next
    case (locking i l l')
    from rw_locking_good [OF good le' [of Mx] le [of KStarve] locking(1,2,5-7)]
    show ?thesis by (simp add: locking(3,4))
  next
    case try_lock
    with rw_ok_try(4) [OF ok] les show ?thesis by (simp add: totals_simps)
  next
    case read
    with rw_ok_read [OF ok] les show ?thesis by (simp add: totals_simps)
  next
    case unread
    with rw_ok_rules(1) [OF ok] les show ?thesis by (simp add: totals_simps)
  next
    case check
    with rw_ok_rules(2) [OF ok] les show ?thesis by (simp add: totals_simps)
  next
    case read_up
    with rw_ok_rules(3) [OF ok] les show ?thesis by (simp add: totals_simps)
  next
    case unread_up
    with rw_ok_rules(4) [OF ok] les show ?thesis by (simp add: totals_simps)
  next
    case to_reader
    with rw_ok_unlock(2) [OF ok] les show ?thesis by (simp add: totals_simps)
  next
    case try_upgraded
    with rw_ok_try(1) [OF ok] les show ?thesis by (simp add: totals_simps)
  next
    case upgrading
    with rw_ok_rules(5) [OF ok] les show ?thesis by (simp add: totals_simps)
  next
    case try_written
    with rw_ok_try(2) [OF ok] les show ?thesis by (simp add: totals_simps)
  next
    case writing
    with rw_ok_rules(6) [OF ok] les show ?thesis by (simp add: totals_simps)
  next
    case fast_path
    with rw_ok_no_fast_path [OF ok] les show ?thesis by (simp add: totals_simps)
  next
    case drained
    with rw_ok_try(3) [OF ok] les show ?thesis by (simp add: totals_simps)
  next
    case downgrade
    with rw_ok_rules(7) [OF ok] les show ?thesis by (simp add: totals_simps)
  next
    case unlock
    with rw_ok_unlock(1) [OF ok] les show ?thesis by (simp add: totals_simps)
  next
    case unwrite
    with rw_ok_unwrite' [OF ok] les show ?thesis by (auto simp: totals_simps)
  qed
qed

interpretation rw: counting_system "rw_step ev" rw_fresh "rw_start new_event" rw_wt rw_wf rw_good
  for ev :: "('e, 'l) event_ops" and new_event
proof
  show "rw_start new_event s \<Longrightarrow> rw_good s (\<lambda>_. 0)" for s :: "'e raw_rwlock"
    by (simp add: rw_start_def mutex_start_def rw_good_def rw_ok_def mutex_ok_def)
  show "rw_fresh t \<Longrightarrow> rw_wf t" for t :: "'l rw"
    by (auto simp: rw_fresh_def embedded_def lock_wf_def)
  show "rw_fresh t \<Longrightarrow> rw_wt key t = 0" for t :: "'l rw" and key
    by (auto simp: rw_fresh_def rw_wt_def lock_role_def lock_owner_def lock_starved_def
        split: rw_key.split)
  show "rw_step ev i s t = Next (s', t') \<Longrightarrow> rw_wf t \<Longrightarrow> rw_wf t'"
    for i and s s' :: "'e raw_rwlock" and t t'
    by (rule rw_step_wf)
  show "rw_step ev i s t = Next (s', t') \<Longrightarrow> rw_wf t \<Longrightarrow> rw_good s c \<Longrightarrow> (\<And>key. rw_wt key t \<le> c key) \<Longrightarrow>
      rw_good s' (\<lambda>key. c key - rw_wt key t + rw_wt key t')"
    for i and s s' :: "'e raw_rwlock" and t t' c
    unfolding rw_wt_at_role by (rule rw_move_good [OF rw_step_move])
qed

end
