(* ===== verification/Event_Queue.thy ===== *)
theory Event_Queue
  imports Event_Interface
begin

text \<open>
  A concrete event, used only by witnesses and by concrete runs: it shows that \<open>event_laws\<close> can be
  satisfied and lets a schedule be evaluated. It is not a model of any code of the repository and
  no property rests on it.

  An event is the list of all listeners ever registered, in order of registration; a listener is
  its index. An entry is \<open>None\<close> once the listener is gone, \<open>Some b\<close> while it is registered, with
  \<open>b\<close> for notified. Notifications go to the oldest listeners first.
\<close>

type_synonym qevent = "bool option list"

fun mark :: "nat \<Rightarrow> qevent \<Rightarrow> qevent" where
  "mark k [] = []"
| "mark k (x # q) =
     (if k = 0 then x # q
      else if x = Some False then Some True # mark (k - 1) q
      else x # mark k q)"

definition n_active :: "qevent \<Rightarrow> nat" where
  "n_active q = length (filter (\<lambda>x. x \<noteq> None) q)"

definition n_notified :: "qevent \<Rightarrow> nat" where
  "n_notified q = length (filter (\<lambda>x. x = Some True) q)"

definition q_notify :: "usize \<Rightarrow> qevent \<Rightarrow> qevent" where
  "q_notify n q = mark (unat n - n_notified q) q"

definition queue_events :: "(qevent, nat) event_ops" where
  "queue_events = \<lparr>
     ev_listen = (\<lambda>q. (length q, q @ [Some False])),
     ev_notify = q_notify,
     ev_notify_additional = (\<lambda>n q. mark (unat n) q),
     ev_poll = (\<lambda>l q. if l < length q \<and> q ! l = Some True then (True, q[l := None]) else (False, q)),
     ev_drop = (\<lambda>l q. if l < length q \<and> q ! l = Some True then q_notify 1 (q[l := None])
                      else q[l := None]) \<rparr>"

definition queue_view :: "(qevent, nat) event_view" where
  "queue_view = \<lparr>
     active = (\<lambda>q. {l. l < length q \<and> q ! l \<noteq> None}),
     notified = (\<lambda>q. {l. l < length q \<and> q ! l = Some True}) \<rparr>"

lemma card_active: "card (active queue_view q) = n_active q"
  by (simp add: queue_view_def n_active_def length_filter_conv_card conj_commute)

lemma card_notified: "card (notified queue_view q) = n_notified q"
  by (simp add: queue_view_def n_notified_def length_filter_conv_card conj_commute)

lemma notified_le_active: "n_notified q \<le> n_active q"
  unfolding n_notified_def n_active_def by (induction q) auto

lemma length_mark [simp]: "length (mark k q) = length q"
  by (induction q arbitrary: k) auto

lemma mark_nth:
  "l < length q \<Longrightarrow> (mark k q ! l = None \<longleftrightarrow> q ! l = None) \<and>
     (q ! l = Some True \<longrightarrow> mark k q ! l = Some True)"
proof (induction q arbitrary: k l)
  case Nil
  then show ?case by simp
next
  case (Cons x q)
  then show ?case by (cases l) auto
qed

lemma n_notified_mark: "n_notified (mark k q) = min (n_notified q + k) (n_active q)"
proof (induction q arbitrary: k)
  case Nil
  then show ?case by (simp add: n_notified_def n_active_def)
next
  case (Cons x q)
  show ?case
  proof (cases "k = 0")
    case True
    then show ?thesis using notified_le_active [of "x # q"] by simp
  next
    case False
    then show ?thesis
      using Cons.IH [of "k - 1"] Cons.IH [of k] notified_le_active [of q]
      by (cases x) (auto simp: n_notified_def n_active_def)
  qed
qed

lemma mark_views:
  fixes q :: qevent
  shows "active queue_view (mark k q) = active queue_view q"
    "notified queue_view q \<subseteq> notified queue_view (mark k q)"
proof -
  have iff: "l < length q \<and> mark k q ! l \<noteq> None \<longleftrightarrow> l < length q \<and> q ! l \<noteq> None" for l
    using mark_nth [of l q k] by (cases "l < length q") simp_all
  show "active queue_view (mark k q) = active queue_view q"
    by (simp only: queue_view_def event_view.simps length_mark iff)
  show "notified queue_view q \<subseteq> notified queue_view (mark k q)"
    using mark_nth by (fastforce simp: queue_view_def)
qed

lemma finite_views [simp]: "finite (active queue_view q)" "finite (notified queue_view q)"
  by (simp_all add: queue_view_def)

lemma q_notify_views:
  "active queue_view (q_notify n q) = active queue_view q"
  "notified queue_view q \<subseteq> notified queue_view (q_notify n q)"
  "min (unat n) (card (active queue_view q)) \<le> card (notified queue_view (q_notify n q))"
  using mark_views [where q = q and k = "unat n - n_notified q"] notified_le_active [of q]
  by (auto simp: q_notify_def card_active card_notified n_notified_mark)

lemma q_notify_one:
  "active queue_view q \<noteq> {} \<Longrightarrow> notified queue_view (q_notify 1 q) \<noteq> {}"
proof
  assume "active queue_view q \<noteq> {}" and none: "notified queue_view (q_notify 1 q) = {}"
  then have "0 < card (active queue_view q)" by (simp add: card_gt_0_iff)
  moreover have "min (unat (1 :: usize)) (card (active queue_view q)) \<le> 0"
    using q_notify_views(3) [of 1 q] unfolding none by simp
  ultimately show False by simp
qed

lemma active_remove: "active queue_view (q[l := None]) = active queue_view q - {l}"
  by (cases "l < length q") (auto simp: queue_view_def nth_list_update split: if_splits)

lemma notified_remove: "notified queue_view (q[l := None]) = notified queue_view q - {l}"
  by (cases "l < length q") (auto simp: queue_view_def nth_list_update split: if_splits)

lemma notified_iff: "l \<in> notified queue_view q \<longleftrightarrow> l < length q \<and> q ! l = Some True"
  by (simp add: queue_view_def)

theorem queue_events_laws: "event_laws queue_events queue_view"
  unfolding event_laws_def
proof (intro conjI)
  show "view_law queue_view"
    by (simp add: view_law_def) (auto simp: queue_view_def)
  show "listen_law queue_events queue_view"
    by (auto simp: listen_law_def queue_events_def queue_view_def nth_append less_Suc_eq)
  show "notify_law queue_events queue_view"
    by (simp add: notify_law_def queue_events_def q_notify_views)
  show "notify_additional_law queue_events queue_view"
  proof -
    have "min (unat n) (card (active queue_view q - notified queue_view q)) \<le>
        card (notified queue_view (mark (unat n) q) - notified queue_view q)" for n :: usize and q
      using mark_views [where q = q and k = "unat n"] notified_le_active [of q]
      by (subst (1 2) card_Diff_subset)
         (auto simp: card_active card_notified n_notified_mark, auto simp: queue_view_def)
    then show ?thesis
      by (simp add: notify_additional_law_def queue_events_def mark_views)
  qed
  show "poll_law queue_events queue_view"
    by (auto simp: poll_law_def queue_events_def active_remove notified_remove notified_iff
        split: if_splits)
  show "drop_law queue_events queue_view"
    unfolding drop_law_def
  proof (intro allI impI)
    fix l q assume l: "l \<in> active queue_view q"
    show "active queue_view (ev_drop queue_events l q) = active queue_view q - {l} \<and>
      notified queue_view q - {l} \<subseteq> notified queue_view (ev_drop queue_events l q) \<and>
      (l \<notin> notified queue_view q \<longrightarrow>
        notified queue_view (ev_drop queue_events l q) = notified queue_view q) \<and>
      (l \<in> notified queue_view q \<longrightarrow> active queue_view q - {l} \<noteq> {} \<longrightarrow>
        notified queue_view (ev_drop queue_events l q) \<noteq> {})"
      using q_notify_views(1,2) [where n = 1 and q = "q[l := None]"] q_notify_one [of "q[l := None]"]
      by (cases "l \<in> notified queue_view q")
         (auto simp: queue_events_def active_remove notified_remove notified_iff)
  qed
qed

lemmas queue_event_simps = queue_events_def q_notify_def n_notified_def

end
