(* ===== verification/RawRwLock_Props.thy ===== *)
theory RawRwLock_Props
  imports RawRwLock_Count Event_Queue
begin

text \<open>
  Properties of the reader-writer lock in every reachable state of every interleaving: exclusion,
  the exact state word, the refinement of an abstract reader-writer lock, no panic, and the fast
  path of \<open>RawWrite\<close> that is never taken. \<open>demo_stuck\<close> is a run in which a reader stays suspended
  after a writer has been downgraded.
\<close>

abbreviation rw_reachable ::
    "('e, 'l) event_ops \<Rightarrow> ('e \<Rightarrow> bool) \<Rightarrow> ('e raw_rwlock, 'l rw) sys \<Rightarrow> bool" where
  "rw_reachable ev new_event \<equiv> reachable (rw_step ev) rw_fresh (rw_start new_event)"

definition in_role :: "role \<Rightarrow> 'l rw list \<Rightarrow> nat set" where
  "in_role r = indices (\<lambda>t. role t = r)"

lemma card_in_role: "r \<noteq> Idle \<Longrightarrow> totals rw_wt ts (KRole r) = card (in_role r ts)"
  unfolding in_role_def card_indices totals_def by (rule wsum_cong) (simp add: rw_wt_def)

lemma in_role_empty: "r \<noteq> Idle \<Longrightarrow> totals rw_wt ts (KRole r) = 0 \<Longrightarrow> in_role r ts = {}"
  unfolding in_role_def by (rule indices_empty [where wt = rw_wt]) (auto simp: rw_wt_def)

lemma in_role_single:
  assumes "r \<noteq> Idle" and "totals rw_wt ts (KRole r) \<le> 1" and "k < length ts" and "role (ts ! k) = r"
  shows "in_role r ts = {k}"
proof
  show "in_role r ts \<subseteq> {k}"
    unfolding in_role_def
    by (rule indices_subset_singleton [where wt = rw_wt and j = "KRole r"])
       (use assms in \<open>auto simp: rw_wt_def\<close>)
  show "{k} \<subseteq> in_role r ts" using assms by (simp add: in_role_def indices_def)
qed

lemma reachable_rw_ok:
  assumes "rw_reachable ev new_event S"
  shows "rw_ok (shared S) (totals rw_wt (tasks S) (KRole Rd)) (totals rw_wt (tasks S) (KRole Up))
    (totals rw_wt (tasks S) (KRole Mx)) (totals rw_wt (tasks S) (KRole Cs))
    (totals rw_wt (tasks S) (KRole Wt)) (totals rw_wt (tasks S) (KRole Exc))
    (totals rw_wt (tasks S) KStarve)"
  using rw.reachable_good [OF assms] by (simp add: rw_good_def)

text \<open>Two different tasks have two different contributions.\<close>

lemma roles_pair:
  assumes "j < length ts" and "k < length ts" and "j \<noteq> k" and "q \<noteq> Idle"
  shows "of_bool (role (ts ! j) = q) + of_bool (role (ts ! k) = q) \<le> totals rw_wt ts (KRole q)"
  using wsum_pair_le [OF assms(1-3), of "rw_wt (KRole q)"] assms(4)
  by (simp add: totals_def rw_wt_def)

subsection \<open>Concrete runs\<close>

lemmas rw_run_simps = exec1.simps exec.simps rw_step_def rw_op_defs rw_fresh_def raw_new_def
  lock_step_def mutex_op_defs mutex_new_def queue_event_simps left_def readable_def
  unwrap_or_else_id_def compare_exchange_def is_ok_def rw_consts isize_MAX_def fetch_and_def

definition demo_rw :: "qevent raw_rwlock" where
  "demo_rw = raw_new [] [] []"

lemma demo_rw_start: "rw_start (fresh_event queue_view) demo_rw"
  by (simp add: rw_start_def mutex_start_def demo_rw_def raw_new_def mutex_new_def fresh_event_def
      queue_view_def)

text \<open>A reader and an upgradable reader are in; a writer sleeps on the mutex.\<close>

definition demo_shared :: "(qevent raw_rwlock, nat rw) sys" where
  "demo_shared =
     \<lparr>shared = \<lparr>rmutex = \<lparr>mstate = 1, lock_ops = [Some False], mdata = ()\<rparr>,
        no_readers = [], no_writer = [], rstate = 4\<rparr>,
      tasks = [RReader [], RUpgradable [],
        RWriteLock (LSlow \<lparr>sl_mutex = True, sl_listener = Some 0, sl_start = Some 0, sl_starved = False\<rparr>)]\<rparr>"

lemma demo_shared_run:
  "exec (rw_step queue_events) rw_fresh
     [Spawn RTryRead, Act 0 (RwRun 0), Act 0 (RwRun 0),
      Spawn (RUpLock LNew), Act 1 (RwPoll 0), Act 1 (RwRun 0), Act 1 (RwRun 0), Act 1 (RwRun 0),
      Spawn (RWriteLock LNew), Act 2 (RwPoll 0), Act 2 (RwRun 0), Act 2 (RwRun 0), Act 2 (RwRun 0),
      Act 2 (RwRun 0)]
     \<lparr>shared = demo_rw, tasks = []\<rparr> = Next demo_shared"
  by (simp add: rw_run_simps demo_rw_def demo_shared_def)

lemma demo_shared_reachable: "rw_reachable queue_events (fresh_event queue_view) demo_shared"
  by (rule exec_reachable_init [where start = "rw_start (fresh_event queue_view)",
      OF demo_rw_start demo_shared_run])

text \<open>The reader has left, the upgradable reader has become a writer, a new reader sleeps.\<close>

definition demo_writer :: "(qevent raw_rwlock, nat rw) sys" where
  "demo_writer =
     \<lparr>shared = \<lparr>rmutex = \<lparr>mstate = 1, lock_ops = [Some False], mdata = ()\<rparr>,
        no_readers = [], no_writer = [Some False], rstate = 1\<rparr>,
      tasks = [RDone [], RWriter [],
        RWriteLock (LSlow \<lparr>sl_mutex = True, sl_listener = Some 0, sl_start = Some 0, sl_starved = False\<rparr>),
        RRead RdSleep \<lparr>rd_state = 1, rd_listener = Some 0\<rparr>]\<rparr>"

lemma demo_writer_run:
  "exec (rw_step queue_events) rw_fresh
     [Act 0 RwUnlock, Act 1 RwTryUpgrade, Spawn RReadCall, Act 3 (RwRun 0), Act 3 (RwPoll 0),
      Act 3 (RwRun 0), Act 3 (RwRun 0), Act 3 (RwRun 0)]
     demo_shared = Next demo_writer"
  by (simp add: rw_run_simps demo_shared_def demo_writer_def)

lemma demo_writer_reachable: "rw_reachable queue_events (fresh_event queue_view) demo_writer"
  by (rule exec_reachable [OF demo_writer_run demo_shared_reachable])

subsection \<open>Exclusion\<close>

lemma writer_alone:
  assumes "rw_reachable ev new_event S" and "j < length (tasks S)" and "k < length (tasks S)"
    and "tasks S ! k = RWriter lo" and "j \<noteq> k"
  shows "role (tasks S ! j) = Idle"
proof -
  note ok = reachable_rw_ok [OF assms(1)]
  note pair = roles_pair [OF assms(2,3,5)]
  have exc: "1 \<le> totals rw_wt (tasks S) (KRole Exc)"
    using pair [of Exc] assms(4) by simp
  have z: "totals rw_wt (tasks S) (KRole q) = of_bool (q = Exc)" if "q \<noteq> Idle" for q
    using rw_ok_single(4) [OF ok exc] ok that by (cases q) (auto simp: rw_ok_def)
  show ?thesis
  proof (rule ccontr)
    assume "role (tasks S ! j) \<noteq> Idle"
    with z [of "role (tasks S ! j)"] pair [of "role (tasks S ! j)"] assms(4)
    show False by (cases "role (tasks S ! j)") simp_all
  qed
qed

text \<open>
  C14: a writer is alone. While some task holds a write guard, every other task contributes nothing:
  it holds no read guard, no upgradable guard, no write guard, nor the embedded mutex.
\<close>

theorem rwlock_writer_excludes:
  assumes "rw_reachable ev new_event S" and "j < length (tasks S)" and "k < length (tasks S)"
    and "tasks S ! k = RWriter lo" and "j \<noteq> k"
  shows "role (tasks S ! j) = Idle"
  using assms by (rule writer_alone)

theorem rwlock_writer_excludes_witness: "role (tasks demo_writer ! 3) = Idle"
  by (rule rwlock_writer_excludes [OF demo_writer_reachable, of 3 1 "[]"])
     (simp_all add: demo_writer_def)

text \<open>
  There is one upgradable reader or writer at a time: two tasks that hold an upgradable guard or
  a write guard are the same task.
\<close>

theorem rwlock_one_upgradable:
  assumes "rw_reachable ev new_event S" and "j < length (tasks S)" and "k < length (tasks S)"
    and "tasks S ! j = RUpgradable a \<or> tasks S ! j = RWriter a"
    and "tasks S ! k = RUpgradable b \<or> tasks S ! k = RWriter b"
  shows "j = k"
proof (rule ccontr)
  assume "j \<noteq> k"
  note pair = roles_pair [OF assms(2,3) this]
  have "totals rw_wt (tasks S) (KRole Up) + totals rw_wt (tasks S) (KRole Exc) \<le> 1"
    using rw_ok_own [OF reachable_rw_ok [OF assms(1)]] by simp
  with pair [of Up] pair [of Exc] assms(4,5) show False by auto
qed

theorem rwlock_one_upgradable_witness:
  "{j. j < 3 \<and> tasks demo_shared ! j = RUpgradable []} = {1}"
proof -
  have "j = 1" if "j < 3" and "tasks demo_shared ! j = RUpgradable []" for j
    using that rwlock_one_upgradable [OF demo_shared_reachable, of j 1 "[]" "[]"]
    by (simp add: demo_shared_def)
  then show ?thesis by (auto simp: demo_shared_def)
qed

text \<open>
  C19: the state word is exact. It is twice the number of readers (upgradable ones included) plus
  the number of tasks that have set the writer bit, which is at most one; and it never overflows:
  the checks against \<open>isize::MAX\<close> keep it below \<open>2 ^ 63 + 4\<close>.
\<close>

theorem rwlock_state_exact:
  assumes "rw_reachable ev new_event S"
  shows "unat (rstate (shared S)) =
      2 * (card (in_role Rd (tasks S)) + card (in_role Up (tasks S))) +
      (card (in_role Wt (tasks S)) + card (in_role Exc (tasks S))) \<and>
    card (in_role Up (tasks S)) + card (in_role Wt (tasks S)) + card (in_role Exc (tasks S)) \<le> 1 \<and>
    unat (rstate (shared S)) < 2 ^ 63 + 4"
  using reachable_rw_ok [OF assms] rw_ok_own [OF reachable_rw_ok [OF assms]]
  by (simp add: rw_ok_def card_in_role)

theorem rwlock_state_exact_witness:
  "unat (rstate (shared demo_shared)) = 4 \<and>
   card (in_role Rd (tasks demo_shared)) + card (in_role Up (tasks demo_shared)) = 2"
proof -
  have eq: "4 = 2 * (card (in_role Rd (tasks demo_shared)) + card (in_role Up (tasks demo_shared))) +
      (card (in_role Wt (tasks demo_shared)) + card (in_role Exc (tasks demo_shared)))"
    using rwlock_state_exact [OF demo_shared_reachable] by (simp add: demo_shared_def)
  have "in_role Wt (tasks demo_shared) = {}" "in_role Exc (tasks demo_shared) = {}"
    by (simp_all add: in_role_def demo_shared_def indices_empty_iff lock_role_def)
  with eq show ?thesis by (simp add: demo_shared_def)
qed

subsection \<open>The abstract reader-writer lock\<close>

text \<open>
  The specification: who reads, who has the upgradable read lock, who writes. \<open>upgrade()\<close> gives the
  upgradable lock back (\<open>unread_up\<close>) and takes the write lock later.
\<close>

record abs_rwlock =
  readers :: "nat set"
  upgradable :: "nat set"
  writers :: "nat set"

inductive abs_rw_step :: "abs_rwlock \<Rightarrow> abs_rwlock \<Rightarrow> bool" where
  read: "writers a = {} \<Longrightarrow> abs_rw_step a (a\<lparr>readers := insert k (readers a)\<rparr>)"
| unread: "k \<in> readers a \<Longrightarrow> abs_rw_step a (a\<lparr>readers := readers a - {k}\<rparr>)"
| read_up: "upgradable a = {} \<Longrightarrow> writers a = {} \<Longrightarrow> abs_rw_step a (a\<lparr>upgradable := {k}\<rparr>)"
| unread_up: "upgradable a = {k} \<Longrightarrow> abs_rw_step a (a\<lparr>upgradable := {}\<rparr>)"
| to_reader: "upgradable a = {k} \<Longrightarrow>
    abs_rw_step a (a\<lparr>upgradable := {}, readers := insert k (readers a)\<rparr>)"
| try_upgrade: "upgradable a = {k} \<Longrightarrow> readers a = {} \<Longrightarrow>
    abs_rw_step a (a\<lparr>upgradable := {}, writers := {k}\<rparr>)"
| write_lock: "readers a = {} \<Longrightarrow> upgradable a = {} \<Longrightarrow> writers a = {} \<Longrightarrow>
    abs_rw_step a (a\<lparr>writers := {k}\<rparr>)"
| unwrite: "writers a = {k} \<Longrightarrow> abs_rw_step a (a\<lparr>writers := {}\<rparr>)"
| downgrade: "writers a = {k} \<Longrightarrow> abs_rw_step a (a\<lparr>writers := {}, upgradable := {k}\<rparr>)"

definition abs_rw_start :: "abs_rwlock \<Rightarrow> bool" where
  "abs_rw_start a \<longleftrightarrow> readers a = {} \<and> upgradable a = {} \<and> writers a = {}"

definition abs_rw :: "('e raw_rwlock, 'l rw) sys \<Rightarrow> abs_rwlock" where
  "abs_rw S = \<lparr>readers = in_role Rd (tasks S), upgradable = in_role Up (tasks S),
     writers = in_role Exc (tasks S)\<rparr>"

text \<open>The transitions of roles that a move can make, with what the invariant says before it.\<close>

lemma rw_move_roles:
  assumes move: "rw_move ev s r n s' r' n'" and ok: "rw_ok s nr nu nm nk nw nx st"
    and le: "r = Up \<longrightarrow> 1 \<le> nu" "r = Mx \<longrightarrow> 1 \<le> nm" "r = Cs \<longrightarrow> 1 \<le> nk" "r = Wt \<longrightarrow> 1 \<le> nw" "r = Exc \<longrightarrow> 1 \<le> nx"
  shows "(r' = r \<or> r \<in> {Idle, Mx, Cs, Wt} \<and> r' \<in> {Idle, Mx, Cs, Wt}) \<or>
    (r = Idle \<and> r' = Rd \<and> nx = 0) \<or> (r = Rd \<and> r' = Idle) \<or>
    (r = Cs \<and> r' = Up \<and> nu = 0 \<and> nx = 0) \<or> (r = Up \<and> r' \<in> {Mx, Wt}) \<or> (r = Up \<and> r' = Rd) \<or>
    (r = Up \<and> r' = Exc \<and> nr = 0 \<and> nx = 0) \<or> (r \<in> {Mx, Wt} \<and> r' = Exc \<and> nr = 0 \<and> nu = 0 \<and> nx = 0) \<or>
    (r = Exc \<and> r' = Mx) \<or> (r = Exc \<and> r' = Up \<and> nu = 0)"
  using move
proof cases
  case read
  then have "even (2 * (nr + nu) + (nw + nx))"
    using ok by (simp add: rw_ok_def readable_def)
  moreover have "nw + nx \<le> 1" using rw_ok_own [OF ok] by simp
  ultimately have "nx = 0" by presburger
  with read show ?thesis by simp
next
  case read_up
  with rw_ok_own [OF ok] le(3) show ?thesis by simp
next
  case try_upgraded
  with ok le(1) rw_ok_single(2) [OF ok] show ?thesis by (simp add: rw_ok_def)
next
  case try_written
  with ok rw_ok_own [OF ok] le(2) show ?thesis by (simp add: rw_ok_def)
next
  case fast_path
  with rw_ok_no_fast_path [OF ok] le(2) show ?thesis by simp
next
  case drained
  with ok rw_ok_single(3) [OF ok] le(4) show ?thesis by (simp add: rw_ok_def)
next
  case downgrade
  with rw_ok_single(4) [OF ok] le(5) show ?thesis by simp
next
  case (locking i l l')
  then show ?thesis by (simp add: lock_role_def)
qed auto

lemma in_role_update:
  "k < length ts \<Longrightarrow> in_role q (ts[k := t']) =
    (if role t' = q then insert k (in_role q ts) else in_role q ts - {k})"
  by (simp add: in_role_def indices_update)

lemma rw_act_roles:
  assumes inv: "counting_inv rw_wt rw_wf rw_good S" and k: "k < length (tasks S)"
    and step: "rw_step ev i (shared S) (tasks S ! k) = Next (s', t')"
  defines "ins \<equiv> \<lambda>q. in_role q (tasks S)" and "r \<equiv> role (tasks S ! k)" and "r' \<equiv> role t'"
  obtains (same) "r' = r \<or> r \<in> {Idle, Mx, Cs, Wt} \<and> r' \<in> {Idle, Mx, Cs, Wt}"
    | (read) "r = Idle" "r' = Rd" "ins Exc = {}"
    | (unread) "r = Rd" "r' = Idle"
    | (read_up) "r = Cs" "r' = Up" "ins Up = {}" "ins Exc = {}"
    | (unread_up) "ins Up = {k}" "r = Up" "r' = Mx \<or> r' = Wt"
    | (to_reader) "ins Up = {k}" "r = Up" "r' = Rd"
    | (try_upgrade) "ins Up = {k}" "r = Up" "r' = Exc" "ins Rd = {}" "ins Exc = {}"
    | (written) "r = Mx \<or> r = Wt" "r' = Exc" "ins Rd = {}" "ins Up = {}" "ins Exc = {}"
    | (unwrite) "ins Exc = {k}" "r = Exc" "r' = Mx"
    | (downgrade) "ins Exc = {k}" "r = Exc" "r' = Up" "ins Up = {}"
proof -
  let ?n = "\<lambda>q. totals rw_wt (tasks S) (KRole q)"
  have wf: "rw_wf (tasks S ! k)" and ok: "rw_ok (shared S) (?n Rd) (?n Up) (?n Mx) (?n Cs) (?n Wt) (?n Exc)
      (totals rw_wt (tasks S) KStarve)"
    using inv k by (simp_all add: counting_inv_def rw_good_def)
  have pos: "r = q \<longrightarrow> 1 \<le> ?n q" if "q \<noteq> Idle" for q
    using totals_member_le [OF k, of rw_wt "KRole q"] that by (auto simp: rw_wt_def r_def)
  have empty: "ins q = {}" if "?n q = 0" "q \<noteq> Idle" for q
    using that by (simp add: in_role_empty ins_def)
  have one: "ins q = {k}" if "r = q" "q = Up \<or> q = Exc" for q
    using in_role_single [of q "tasks S" k] that k rw_ok_own [OF ok] by (auto simp: ins_def r_def)
  have "r = Up \<longrightarrow> 1 \<le> ?n Up" "r = Mx \<longrightarrow> 1 \<le> ?n Mx" "r = Cs \<longrightarrow> 1 \<le> ?n Cs"
    "r = Wt \<longrightarrow> 1 \<le> ?n Wt" "r = Exc \<longrightarrow> 1 \<le> ?n Exc"
    by (rule pos; simp)+
  from rw_move_roles [OF rw_step_move [OF step wf] ok this [unfolded r_def]] show thesis
    unfolding r_def [symmetric] r'_def [symmetric]
    by (elim disjE) (use that empty one in auto)
qed

lemma abs_rw_act:
  assumes inv: "counting_inv rw_wt rw_wf rw_good S" and k: "k < length (tasks S)"
    and step: "rw_step ev i (shared S) (tasks S ! k) = Next (s', t')"
  shows "abs_rw \<lparr>shared = s', tasks = (tasks S)[k := t']\<rparr> = abs_rw S \<or>
    abs_rw_step (abs_rw S) (abs_rw \<lparr>shared = s', tasks = (tasks S)[k := t']\<rparr>)"
proof -
  let ?a = "abs_rw S"
  have mem: "k \<in> in_role q (tasks S) \<longleftrightarrow> role (tasks S ! k) = q" for q
    using k by (simp add: in_role_def indices_def)
  note abs = abs_rw_def in_role_update [OF k] mem
  from inv k step show ?thesis
  proof (cases rule: rw_act_roles)
    case same
    then show ?thesis by (auto simp: abs insert_absorb)
  next
    case read
    with abs_rw_step.read [of ?a k] show ?thesis by (simp add: abs)
  next
    case unread
    with abs_rw_step.unread [of k ?a] show ?thesis by (simp add: abs)
  next
    case read_up
    with abs_rw_step.read_up [of ?a k] show ?thesis by (simp add: abs)
  next
    case unread_up
    with abs_rw_step.unread_up [of ?a k] show ?thesis by (auto simp: abs)
  next
    case to_reader
    with abs_rw_step.to_reader [of ?a k] show ?thesis by (simp add: abs)
  next
    case try_upgrade
    with abs_rw_step.try_upgrade [of ?a k] show ?thesis by (simp add: abs)
  next
    case written
    with abs_rw_step.write_lock [of ?a k] show ?thesis by (auto simp: abs)
  next
    case unwrite
    with abs_rw_step.unwrite [of ?a k] show ?thesis by (simp add: abs)
  next
    case downgrade
    with abs_rw_step.downgrade [of ?a k] show ?thesis by (simp add: abs)
  qed
qed

interpretation rw_abs: refinement_system "rw_step ev" rw_fresh "rw_start new_event"
    "counting_inv rw_wt rw_wf rw_good" abs_rw abs_rw_start abs_rw_step
  for ev :: "('e, 'l) event_ops" and new_event
proof
  show "abs_rw_start (abs_rw (\<lparr>shared = s, tasks = []\<rparr> :: ('e raw_rwlock, 'l rw) sys))" for s
    by (simp add: abs_rw_start_def abs_rw_def in_role_def)
next
  fix S :: "('e raw_rwlock, 'l rw) sys" and t :: "'l rw"
  assume "rw_fresh t"
  then have "role t = Idle" by (auto simp: rw_fresh_def lock_role_def lock_owner_def)
  then show "abs_rw (S\<lparr>tasks := tasks S @ [t]\<rparr>) = abs_rw S"
    by (simp add: abs_rw_def in_role_def indices_snoc)
qed (fact abs_rw_act)

text \<open>
  C13: the lock implements the abstract reader-writer lock. Every step of any task changes nothing
  of it or is one of its steps: a read lock is granted only when there is no writer, an upgradable
  one only when there is no other and no writer, a write lock or an upgrade only when there is no
  reader and no writer; downgrades keep access without a gap.
\<close>

theorem rwlock_refines_abstract:
  assumes "rw_reachable ev new_event S" and "sys_step (rw_step ev) rw_fresh S S'"
  shows "abs_rw S' = abs_rw S \<or> abs_rw_step (abs_rw S) (abs_rw S')"
  using assms by (rule rw_abs.step_refines)

theorem rwlock_refines_abstract_witness:
  "\<exists>S'. sys_step (rw_step queue_events) rw_fresh demo_writer S' \<and>
     abs_rw_step (abs_rw demo_writer) (abs_rw S')"
proof -
  let ?S' = "\<lparr>shared = fst (downgrade_to_upgradable (shared demo_writer) ([] :: nat leftovers)),
    tasks = (tasks demo_writer)[1 := RUpgradable []]\<rparr>"
  have step: "sys_step (rw_step queue_events) rw_fresh demo_writer ?S'"
    by (rule sys_step.act [where i = RwDowngradeUp])
       (simp_all add: demo_writer_def rw_step_def writer_step_def downgrade_to_upgradable_def)
  have "1 \<in> upgradable (abs_rw ?S')" and "1 \<notin> upgradable (abs_rw demo_writer)"
    by (simp_all add: abs_rw_def in_role_def indices_def demo_writer_def)
  then have "abs_rw ?S' \<noteq> abs_rw demo_writer" by metis
  with rwlock_refines_abstract [OF demo_writer_reachable step] step show ?thesis by metis
qed

subsection \<open>Errors\<close>

lemma read_step_no_panic: "rw_wf (RRead pc r) \<Longrightarrow> read_step ev pc s r \<noteq> Panic"
  by (cases pc) (auto simp: read_head_def stay_def Let_def split: prod.splits sum.splits option.splits if_splits)

lemma drain_steps_no_panic:
  "drain_wf pc lo \<Longrightarrow> upgrade_step ev pc s lo xs \<noteq> Panic"
  "drain_wf pc lo \<Longrightarrow> write_step ev pc s lo \<noteq> Panic"
  by (cases pc; auto simp: drain_wf_def Let_def split: prod.splits option.splits if_splits)+

text \<open>
  No step of any task panics, in any reachable state: every \<open>unwrap\<close> and \<open>expect\<close> of the raw
  lock and of the mutex inside it succeeds, and \<open>strategy.poll\<close> always finds its listener.
\<close>

theorem rwlock_never_panics:
  assumes "rw_reachable ev new_event S" and "k < length (tasks S)"
  shows "rw_step ev i (shared S) (tasks S ! k) \<noteq> Panic"
proof -
  have wf: "rw_wf (tasks S ! k)" by (rule rw.reachable_wf [OF assms])
  have mo: "map_outcome f r \<noteq> Panic" if "r \<noteq> Panic" for f and r :: "'x outcome" 
    using that by (cases r) auto
  show ?thesis
  proof (cases "tasks S ! k")
    case (RUpLock l)
    with wf lock_step_no_panic [of l ev _ "rmutex (shared S)"] show ?thesis
      by (auto simp: rw_step_def up_lock_step_def intro!: mo split: option.splits)
  next
    case (RWriteLock l)
    with wf lock_step_no_panic [of l ev _ "rmutex (shared S)"] show ?thesis
      by (auto simp: rw_step_def write_lock_step_def intro!: mo split: option.splits)
  next
    case (RRead pc r)
    with wf read_step_no_panic [of pc r ev "shared S"] show ?thesis
      by (auto simp: rw_step_def run_only_def stay_def read_head_def split: rw_in.splits)
  next
    case (RWrite pc nr)
    with wf drain_steps_no_panic(2) [of pc nr ev "shared S"] show ?thesis
      by (auto simp: rw_step_def run_only_def split: rw_in.splits)
  next
    case (RUpgrade pc nr lo)
    with wf drain_steps_no_panic(1) [of pc nr ev "shared S" lo] show ?thesis
      by (auto simp: rw_step_def run_only_def drop_left_def split: rw_in.splits)
  qed (auto simp: rw_step_def run_only_def stay_def try_read_load_def try_read_cas_def
      try_read_head_def try_upgradable_load_def up_load_def reader_step_def upgradable_step_def
      writer_step_def drop_left_def Let_def split: rw_in.splits prod.splits sum.splits)
qed

theorem rwlock_never_panics_witness:
  "rw_step queue_events (RwPoll 0) (shared demo_writer) (tasks demo_writer ! 3) \<noteq> Panic"
  by (rule rwlock_never_panics [OF demo_writer_reachable]) (simp add: demo_writer_def)

subsection \<open>Two observations\<close>

text \<open>
  The shortcut of \<open>RawWrite\<close> is never taken. When a writer that has the mutex sets the writer
  bit, the value \<open>fetch_or\<close> returns is the one before the operation, and it is never \<open>WRITER_BIT\<close>:
  the writer always goes on to register a listener, even if there is no reader.
\<close>

theorem write_fast_path_dead:
  assumes "rw_reachable ev new_event S" and "k < length (tasks S)" and "tasks S ! k = RWriteOr lo"
  shows "write_or (shared S) lo =
    ((shared S)\<lparr>rstate := rstate (shared S) OR WRITER_BIT\<rparr>, RWriteListen lo)"
proof -
  have "1 \<le> totals rw_wt (tasks S) (KRole Mx)"
    using totals_member_le [OF assms(2), of rw_wt "KRole Mx"] assms(3) by (simp add: rw_wt_def)
  from rw_ok_no_fast_path [OF reachable_rw_ok [OF assms(1)] this]
  show ?thesis by (simp add: write_or_def fetch_or_def WRITER_BIT_def)
qed

definition demo_or :: "(qevent raw_rwlock, nat rw) sys" where
  "demo_or = \<lparr>shared = \<lparr>rmutex = \<lparr>mstate = 1, lock_ops = [], mdata = ()\<rparr>,
     no_readers = [], no_writer = [], rstate = 0\<rparr>, tasks = [RWriteOr None]\<rparr>"

lemma demo_or_run:
  "exec (rw_step queue_events) rw_fresh [Spawn (RWriteLock LNew), Act 0 (RwPoll 0), Act 0 (RwRun 0)]
     \<lparr>shared = demo_rw, tasks = []\<rparr> = Next demo_or"
  by (simp add: rw_run_simps demo_rw_def demo_or_def)

theorem write_fast_path_dead_witness:
  "write_or (shared demo_or) None =
     ((shared demo_or)\<lparr>rstate := rstate (shared demo_or) OR WRITER_BIT\<rparr>,
      RWriteListen None :: nat rw)"
  by (rule write_fast_path_dead [where k = 0 and S = demo_or,
        OF exec_reachable_init [where start = "rw_start (fresh_event queue_view)",
          OF demo_rw_start demo_or_run]])
     (simp_all add: demo_or_def)

text \<open>The writer of \<open>demo_writer\<close> downgrades to an upgradable reader and then unlocks.\<close>

definition demo_stuck :: "(qevent raw_rwlock, nat rw) sys" where
  "demo_stuck =
     \<lparr>shared = \<lparr>rmutex = \<lparr>mstate = 0, lock_ops = [None], mdata = ()\<rparr>,
        no_readers = [], no_writer = [Some False], rstate = 0\<rparr>,
      tasks = [RDone [], RDone [], RWriteLock (LDone None),
        RRead RdSleep \<lparr>rd_state = 1, rd_listener = Some 0\<rparr>]\<rparr>"

text \<open>
  A reader can stay suspended on a free lock. From a state with a writer and a suspended reader,
  the writer downgrades to an upgradable reader and unlocks that, and a waiting writer is dropped:
  \<open>downgrade_to_upgradable\<close> and \<open>upgradable_read_unlock\<close> do not notify \<open>no_writer\<close>. In the end
  no lock is held, the state word is zero, no call is running, the reader is suspended and no
  listener is notified.
\<close>

theorem rwlock_reader_stuck:
  "exec (rw_step queue_events) rw_fresh
     [Act 1 RwDowngradeUp, Act 2 RwCancel, Act 2 (RwDropFut 0), Act 1 RwUnlock,
      Act 1 (RwRun 0), Act 1 (RwRun 0), Act 1 (RwRun 0)] demo_writer = Next demo_stuck \<and>
   rw_reachable queue_events (fresh_event queue_view) demo_stuck \<and>
   abs_rw_start (abs_rw demo_stuck) \<and> rstate (shared demo_stuck) = 0 \<and>
   tasks demo_stuck ! 3 = RRead RdSleep \<lparr>rd_state = 1, rd_listener = Some 0\<rparr> \<and>
   notified queue_view (no_writer (shared demo_stuck)) = {}"
proof -
  have run: "exec (rw_step queue_events) rw_fresh
     [Act 1 RwDowngradeUp, Act 2 RwCancel, Act 2 (RwDropFut 0), Act 1 RwUnlock,
      Act 1 (RwRun 0), Act 1 (RwRun 0), Act 1 (RwRun 0)] demo_writer = Next demo_stuck"
    by (simp add: rw_run_simps demo_writer_def demo_stuck_def)
  have "rw_reachable queue_events (fresh_event queue_view) demo_stuck"
    by (rule exec_reachable [OF run demo_writer_reachable])
  moreover have "abs_rw_start (abs_rw demo_stuck)"
    by (simp add: abs_rw_start_def abs_rw_def in_role_def indices_empty_iff demo_stuck_def
        lock_role_def lock_owner_def)
  moreover have "notified queue_view (no_writer (shared demo_stuck)) = {}"
    by (auto simp: demo_stuck_def queue_view_def)
  ultimately show ?thesis using run by (simp add: demo_stuck_def)
qed

end
