(* ===== verification/Mutex_Safety.thy ===== *)
theory Mutex_Safety
  imports Mutex Event_Queue
begin

text \<open>
  Safety of the mutex in every reachable state of every interleaving, for an arbitrary event
  implementation: the state word is exact, at most one task owns the lock, the mutex implements an
  abstract lock, a starved operation shuts newcomers out, no step panics, and the overflow abort
  needs more than \<open>2 ^ 62\<close> starved operations.
\<close>

abbreviation mutex_reachable ::
    "('e, 'l) event_ops \<Rightarrow> ('e \<Rightarrow> bool) \<Rightarrow> (('e, 'a) mutex, 'l lock) sys \<Rightarrow> bool" where
  "mutex_reachable ev new_event \<equiv> reachable (lock_step ev) lock_fresh (mutex_start new_event)"

subsection \<open>Evaluating concrete runs\<close>

lemmas mutex_run_simps = exec1.simps exec.simps lock_step_def mutex_op_defs lock_fresh_def
  mutex_new_def queue_event_simps unwrap_or_else_id_def compare_exchange_def is_ok_def

definition demo_mutex :: "(qevent, nat) mutex" where
  "demo_mutex = mutex_new [] 7"

lemma demo_mutex_start: "mutex_start (fresh_event queue_view) demo_mutex"
  by (simp add: mutex_start_def demo_mutex_def mutex_new_def fresh_event_def queue_view_def)

text \<open>One task holds the mutex and has written 9; a second one waits with a listener.\<close>

definition demo_contended :: "((qevent, nat) mutex, nat lock) sys" where
  "demo_contended =
     \<lparr>shared = \<lparr>mstate = 1, lock_ops = [Some False], mdata = 9\<rparr>,
      tasks = [LHeld None,
        LSlow \<lparr>sl_mutex = True, sl_listener = Some 0, sl_start = Some 5, sl_starved = False\<rparr>]\<rparr>"

lemma demo_contended_run:
  "exec (lock_step queue_events) lock_fresh
     [Spawn LNew, Act 0 (Poll 0), Act 0 (Run 0), Act 0 (Write 9),
      Spawn LNew, Act 1 (Poll 5), Act 1 (Run 5), Act 1 (Run 5), Act 1 (Run 5), Act 1 (Run 5)]
     \<lparr>shared = demo_mutex, tasks = []\<rparr> = Next demo_contended"
  by (simp add: mutex_run_simps demo_mutex_def demo_contended_def)

lemma demo_contended_reachable:
  "mutex_reachable queue_events (fresh_event queue_view) demo_contended"
  by (rule exec_reachable_init [where start = "mutex_start (fresh_event queue_view)",
      OF demo_mutex_start demo_contended_run])

subsection \<open>The abstract lock\<close>

text \<open>
  The specification: a set of holders and a value. The lock is taken only when nobody holds it,
  given back only by its holder, and the value is written only by the holder.
\<close>

record 'a abs_lock =
  holders :: "nat set"
  adata :: 'a

inductive abs_lock_step :: "'a abs_lock \<Rightarrow> 'a abs_lock \<Rightarrow> bool" where
  take: "holders a = {} \<Longrightarrow> abs_lock_step a (a\<lparr>holders := {k}\<rparr>)"
| give: "holders a = {k} \<Longrightarrow> abs_lock_step a (a\<lparr>holders := {}\<rparr>)"
| set_data: "holders a = {k} \<Longrightarrow> abs_lock_step a (a\<lparr>adata := v\<rparr>)"

inductive_simps abs_lock_step_simps: "abs_lock_step a b"

definition abs_lock_start :: "'a abs_lock \<Rightarrow> bool" where
  "abs_lock_start a \<longleftrightarrow> holders a = {}"

definition mutex_owners :: "'l lock list \<Rightarrow> nat set" where
  "mutex_owners = indices (\<lambda>l. lock_owner l = 1)"

definition abs_mutex :: "(('e, 'a) mutex, 'l lock) sys \<Rightarrow> 'a abs_lock" where
  "abs_mutex S = \<lparr>holders = mutex_owners (tasks S), adata = mdata (shared S)\<rparr>"

subsection \<open>What a step does to the value and to the guard\<close>

lemma slow_enter_data: "slow_enter now m s = Next (m', l') \<Longrightarrow> mdata m' = mdata m"
  by (auto simp: slow_enter_def Let_def split: if_splits)

lemma hot_step_data: "hot_step ev now pc m s = Next (m', l') \<Longrightarrow> mdata m' = mdata m"
  by (cases pc) (auto simp: mutex_op_defs Let_def split: if_splits prod.splits option.splits)

lemma fair_step_data: "fair_step ev pc m s = Next (m', l') \<Longrightarrow> mdata m' = mdata m"
  by (cases pc) (auto simp: mutex_op_defs Let_def split: if_splits prod.splits option.splits)

lemma lock_step_data:
  assumes "lock_step ev i m l = Next (m', l')"
  shows "mdata m' = mdata m \<or> (\<exists>v lo. i = Write v \<and> l = LHeld lo \<and> l' = l)"
  using assms
  by (auto simp: lock_step_def drop_listener_def unlock_sub_def unlock_notify_def take_mutex_def
      try_lock_eq Let_def dest: slow_enter_data hot_step_data fair_step_data
      split: lock.splits lock_in.splits option.splits if_splits)

lemma mutex_owners_counts:
  assumes "mutex_reachable ev new_event S"
  shows "totals lock_wt (tasks S) KOwner \<le> 1"
  using mtx.reachable_good [OF assms] by (simp add: mutex_good_def mutex_ok_def)

lemma mutex_owners_singleton:
  assumes "totals lock_wt ls KOwner \<le> 1" and "k < length ls"
    and "lock_owner (ls ! k) = 1"
  shows "mutex_owners ls = {k}"
proof
  show "mutex_owners ls \<subseteq> {k}"
    unfolding mutex_owners_def
    by (rule indices_subset_singleton [where wt = lock_wt and j = KOwner])
       (use assms in \<open>simp_all add: lock_wt_def\<close>)
  show "{k} \<subseteq> mutex_owners ls"
    using assms by (simp add: mutex_owners_def indices_def)
qed

lemma mutex_owners_empty:
  "totals lock_wt ls KOwner = 0 \<Longrightarrow> mutex_owners ls = {}"
  unfolding mutex_owners_def
  by (rule indices_empty [where wt = lock_wt and j = KOwner]) (simp_all add: lock_wt_def)

lemma mutex_owners_update:
  "k < length ls \<Longrightarrow> mutex_owners (ls[k := l']) =
    (if lock_owner l' = 1 then insert k (mutex_owners ls) else mutex_owners ls - {k})"
  by (simp add: mutex_owners_def indices_update)

text \<open>An action that leaves the value alone takes the lock, gives it back or does not change its owner.\<close>

lemma owners_act:
  assumes k: "k < length ls" and one: "totals lock_wt ls KOwner \<le> 1"
    and one': "totals lock_wt (ls[k := l']) KOwner \<le> 1"
  obtains "mutex_owners (ls[k := l']) = mutex_owners ls"
  | "mutex_owners ls = {}" "mutex_owners (ls[k := l']) = {k}"
  | "mutex_owners ls = {k}" "mutex_owners (ls[k := l']) = {}"
proof -
  note upd = mutex_owners_update [OF k, of l'] and single = mutex_owners_singleton [OF one k]
  have tot: "totals lock_wt (ls[k := l']) KOwner = totals lock_wt ls KOwner - lock_owner (ls ! k) + lock_owner l'"
    using k by (simp add: totals_def wsum_update lock_wt_def)
  consider "lock_owner (ls ! k) = 0" "lock_owner l' = 0" | "lock_owner (ls ! k) = 0" "lock_owner l' = 1"
    | "lock_owner (ls ! k) = 1" "lock_owner l' = 0" | "lock_owner (ls ! k) = 1" "lock_owner l' = 1"
    using lock_owner_le_1 [of "ls ! k"] lock_owner_le_1 [of l'] by linarith
  then show thesis
  proof cases
    case 1
    then have "k \<notin> mutex_owners ls" by (simp add: mutex_owners_def indices_def)
    with 1 upd that(1) show thesis by simp
  next
    case 2
    with tot one' have "totals lock_wt ls KOwner = 0" by simp
    then have "mutex_owners ls = {}" by (rule mutex_owners_empty)
    with 2 upd that(2) show thesis by simp
  next
    case 3
    with single upd that(3) show thesis by simp
  next
    case 4
    with single upd that(1) show thesis by simp
  qed
qed

lemma abs_mutex_act:
  assumes inv: "counting_inv lock_wt lock_wf mutex_good S" and k: "k < length (tasks S)"
    and step: "lock_step ev i (shared S) (tasks S ! k) = Next (m', l')"
  defines "S' \<equiv> \<lparr>shared = m', tasks = (tasks S)[k := l']\<rparr>"
  shows "abs_mutex S' = abs_mutex S \<or> abs_lock_step (abs_mutex S) (abs_mutex S')"
proof (cases "mdata m' = mdata (shared S)")
  case data: True
  have "counting_inv lock_wt lock_wf mutex_good S'"
    unfolding S'_def by (rule mtx.inv_act [OF inv k step])
  with inv have "totals lock_wt (tasks S) KOwner \<le> 1" "totals lock_wt ((tasks S)[k := l']) KOwner \<le> 1"
    by (simp_all add: S'_def counting_inv_def mutex_good_def mutex_ok_def)
  from k this show ?thesis
  proof (cases rule: owners_act)
    case 1
    with data show ?thesis by (simp add: S'_def abs_mutex_def)
  next
    case 2
    with data abs_lock_step.take [of "abs_mutex S" k] show ?thesis by (simp add: S'_def abs_mutex_def)
  next
    case 3
    with data abs_lock_step.give [of "abs_mutex S" k] show ?thesis by (simp add: S'_def abs_mutex_def)
  qed
next
  case False
  with lock_step_data [OF step] obtain lo where held: "tasks S ! k = LHeld lo" "l' = tasks S ! k"
    by blast
  have "totals lock_wt (tasks S) KOwner \<le> 1"
    using inv by (simp add: counting_inv_def mutex_good_def mutex_ok_def)
  from mutex_owners_singleton [OF this k] held abs_lock_step.set_data [of "abs_mutex S" k "mdata m'"]
  show ?thesis by (simp add: S'_def abs_mutex_def lock_owner_def mutex_owners_update [OF k])
qed

interpretation mtx_abs: refinement_system "lock_step ev" lock_fresh "mutex_start new_event"
    "counting_inv lock_wt lock_wf mutex_good" abs_mutex abs_lock_start abs_lock_step
  for ev :: "('e, 'l) event_ops" and new_event
proof
  fix s :: "('e, 'a) mutex"
  show "abs_lock_start (abs_mutex \<lparr>shared = s, tasks = []\<rparr>)"
    by (simp add: abs_lock_start_def abs_mutex_def mutex_owners_def)
next
  fix S :: "(('e, 'a) mutex, 'l lock) sys" and t :: "'l lock"
  assume "lock_fresh t"
  then show "abs_mutex (S\<lparr>tasks := tasks S @ [t]\<rparr>) = abs_mutex S"
    by (auto simp: abs_mutex_def mutex_owners_def lock_fresh_def lock_owner_def indices_snoc)
qed (fact abs_mutex_act)

subsection \<open>Properties\<close>

text \<open>The totals of \<open>lock_wt\<close> as numbers of tasks.\<close>

lemma owners_total: "totals lock_wt ts KOwner = card (mutex_owners ts)"
  unfolding mutex_owners_def card_indices totals_def
  by (rule wsum_cong) (use lock_owner_le_1 in \<open>auto simp: lock_wt_def le_Suc_eq\<close>)

lemma starved_total: "totals lock_wt ts KStarved = card (indices (\<lambda>l. lock_starved l = 1) ts)"
  unfolding card_indices totals_def
  by (rule wsum_cong) (use lock_starved_le_1 in \<open>auto simp: lock_wt_def le_Suc_eq\<close>)

lemma good_word_0:
  assumes "mutex_good m (totals lock_wt ts)"
  shows "mstate m = 0 \<longleftrightarrow> mutex_owners ts = {} \<and> indices (\<lambda>l. lock_starved l = 1) ts = {}"
proof -
  have fin: "finite (indices P ts)" for P by (simp add: indices_def)
  show ?thesis
    using mutex_ok_0 [OF assms [unfolded mutex_good_def]]
    by (simp add: owners_total starved_total mutex_owners_def fin)
qed

lemmas mutex_word_0 = good_word_0 [OF mtx.reachable_good]

text \<open>
  Two tasks that both hold a guard of the mutex are the same task, in every state that any
  interleaving of lock operations can reach (first polls, both loops of the slow path,
  cancellations, unlocks), whatever the event implementation does.
\<close>

theorem mutex_mutual_exclusion:
  assumes "mutex_reachable ev new_event S"
    and "j < length (tasks S)" and "k < length (tasks S)"
    and "tasks S ! j = LHeld a" and "tasks S ! k = LHeld b"
  shows "j = k"
  by (rule totals_unique [where wt = lock_wt and j = KOwner,
        OF mutex_owners_counts [OF assms(1)] assms(2,3)])
     (simp_all add: assms(4,5) lock_wt_def lock_owner_def)

theorem mutex_mutual_exclusion_witness:
  "{j. j < 2 \<and> tasks demo_contended ! j = LHeld None} = {0}"
proof -
  have "j = 0" if "j < 2" and "tasks demo_contended ! j = LHeld None" for j
    using that mutex_mutual_exclusion [OF demo_contended_reachable, of j 0 None None]
    by (simp add: demo_contended_def)
  then show ?thesis by (auto simp: demo_contended_def)
qed

text \<open>
  C10: the state word is exact: its least significant bit is the number of owners, which is at
  most one, and the rest of it is the number of lock operations that are starved. No step wraps
  around.
\<close>

theorem mutex_state_word_exact:
  assumes "mutex_reachable ev new_event S"
  shows "unat (mstate (shared S)) =
      card (mutex_owners (tasks S)) + 2 * card (indices (\<lambda>l. lock_starved l = 1) (tasks S)) \<and>
    card (mutex_owners (tasks S)) \<le> 1"
  using mtx.reachable_good [OF assms]
  by (simp add: mutex_good_def mutex_ok_def owners_total starved_total)

theorem mutex_state_word_exact_witness:
  "card (mutex_owners (tasks demo_contended)) \<le> 1 \<and> unat (mstate (shared demo_contended)) = 1"
  using mutex_state_word_exact [OF demo_contended_reachable] by (simp add: demo_contended_def)

text \<open>
  C8: the mutex implements the abstract lock: every step of any task either leaves the set of
  owners and the protected value as they are, or takes the lock when nobody has it, or gives it
  back, or writes the value as its only owner.
\<close>

theorem mutex_refines_abstract_lock:
  assumes "mutex_reachable ev new_event S" and "sys_step (lock_step ev) lock_fresh S S'"
  shows "abs_mutex S' = abs_mutex S \<or> abs_lock_step (abs_mutex S) (abs_mutex S')"
  using assms by (rule mtx_abs.step_refines)

theorem mutex_refines_abstract_lock_witness:
  "\<exists>S'. sys_step (lock_step queue_events) lock_fresh demo_contended S' \<and>
     abs_lock_step (abs_mutex demo_contended) (abs_mutex S')"
proof -
  have step: "sys_step (lock_step queue_events) lock_fresh demo_contended
      \<lparr>shared = unlock_sub (shared demo_contended), tasks = (tasks demo_contended)[0 := LUnlock None]\<rparr>"
    by (rule sys_step.act [where i = Unlock]) (simp_all add: demo_contended_def lock_step_def)
  have "holders (abs_mutex demo_contended) \<noteq> holders (abs_mutex
      \<lparr>shared = unlock_sub (shared demo_contended), tasks = (tasks demo_contended)[0 := LUnlock None]\<rparr>)"
    by (auto simp: abs_mutex_def mutex_owners_def indices_def demo_contended_def lock_owner_def
        set_eq_iff nth_Cons' split: if_splits)
  with mutex_refines_abstract_lock [OF demo_contended_reachable step] step show ?thesis by metis
qed

text \<open>
  C9: eventual fairness. While some lock operation is starved, no operation that is not itself
  starved can take the lock: neither \<open>try_lock\<close> nor the fast path nor the first loop of the slow
  path, at any of their atomic accesses.
\<close>

theorem starved_shuts_out_newcomers:
  assumes "mutex_reachable ev new_event S"
    and "j < length (tasks S)" and "lock_starved (tasks S ! j) = 1"
    and "k < length (tasks S)" and "lock_starved (tasks S ! k) = 0" and "lock_owner (tasks S ! k) = 0"
    and "lock_step ev i (shared S) (tasks S ! k) = Next (m', l')"
  shows "lock_owner l' = 0"
proof -
  have ok: "mutex_ok (shared S) (totals lock_wt (tasks S) KOwner) (totals lock_wt (tasks S) KStarved)"
    using mtx.reachable_good [OF assms(1)] by (simp add: mutex_good_def)
  have "1 \<le> totals lock_wt (tasks S) KStarved"
    using totals_member_le [OF assms(2), of lock_wt KStarved] assms(3) by (simp add: lock_wt_def)
  then have nz: "mstate (shared S) \<noteq> 0" using mutex_ok_0 [OF ok] by simp
  have wf: "lock_wf (tasks S ! k)" by (rule mtx.reachable_wf [OF assms(1,4)])
  show ?thesis
  proof (cases "tasks S ! k")
    case (LHot pc s)
    with assms(7) nz wf show ?thesis
      by (cases pc) (auto simp: lock_step_def mutex_op_defs lock_owner_def lock_wf_defs Let_def
          split: lock_in.splits if_splits prod.splits option.splits)
  next
    case (LFair pc s)
    with assms(5) wf show ?thesis by (simp add: lock_starved_def lock_wf_defs)
  qed (use assms(6,7) nz in \<open>auto simp: lock_step_def try_lock_eq lock_owner_def take_mutex_def
      drop_listener_def Let_def dest: slow_enter_ok
      split: lock_in.splits if_splits option.splits\<close>)
qed

text \<open>Task 1 has been overtaken by task 2, has waited for more than 500 us and is now starved.\<close>

definition demo_starved :: "((qevent, nat) mutex, nat lock) sys" where
  "demo_starved =
     \<lparr>shared = \<lparr>mstate = 2, lock_ops = [None, Some False], mdata = 9\<rparr>,
      tasks = [LDone None,
        LSlow \<lparr>sl_mutex = True, sl_listener = Some 1, sl_start = Some 5, sl_starved = True\<rparr>,
        LUnlock None, LTryLock]\<rparr>"

lemma demo_starved_run:
  "exec (lock_step queue_events) lock_fresh
     [Act 0 Unlock, Act 0 (Run 0), Spawn LTryLock, Act 2 (Run 0),
      Act 1 (Poll 600000), Act 1 (Run 600000), Act 1 (Run 600000), Act 1 (Run 600000),
      Act 1 (Run 600000), Act 1 (Run 600000), Act 1 (Run 600000), Act 2 Unlock, Spawn LTryLock]
     demo_contended = Next demo_starved"
  by (simp add: mutex_run_simps elapsed_500us_def usize_MAX_def demo_contended_def demo_starved_def)

lemma demo_starved_reachable:
  "mutex_reachable queue_events (fresh_event queue_view) demo_starved"
  by (rule exec_reachable [OF demo_starved_run demo_contended_reachable])

theorem starved_shuts_out_newcomers_witness:
  "\<exists>m' l'. lock_step queue_events (Run 0) (shared demo_starved) (tasks demo_starved ! 3) = Next (m', l') \<and>
     lock_owner l' = 0"
proof -
  obtain m' l' where step:
    "lock_step queue_events (Run 0) (shared demo_starved) (tasks demo_starved ! 3) = Next (m', l')"
    by (simp add: demo_starved_def lock_step_def try_lock_eq)
  have "lock_owner l' = 0"
    by (rule starved_shuts_out_newcomers [OF demo_starved_reachable _ _ _ _ _ step, of 1])
       (simp_all add: demo_starved_def lock_starved_def lock_owner_def)
  with step show ?thesis by blast
qed

text \<open>
  C11: \<open>try_lock\<close> succeeds exactly when nobody owns the mutex and no lock operation is starved; it
  then sets the lock bit, and otherwise changes nothing.
\<close>

theorem try_lock_iff_free_and_fair:
  assumes "mutex_reachable ev new_event S"
  shows "try_lock (shared S) =
    (if mutex_owners (tasks S) = {} \<and> indices (\<lambda>l. lock_starved l = 1) (tasks S) = {}
     then (True, (shared S)\<lparr>mstate := 1\<rparr>) else (False, shared S))"
  using mutex_word_0 [OF assms] by (simp add: try_lock_eq)

theorem try_lock_iff_free_and_fair_witness:
  "try_lock (shared demo_starved) = (False, shared demo_starved)"
  unfolding try_lock_iff_free_and_fair [OF demo_starved_reachable]
  by (auto simp: demo_starved_def indices_def lock_starved_def)

text \<open>
  None of the \<open>expect\<close> and \<open>unwrap\<close> calls of the lock future can fail: no step of any task
  panics, in any reachable state.
\<close>

theorem mutex_never_panics:
  assumes "mutex_reachable ev new_event S" and "k < length (tasks S)"
  shows "lock_step ev i (shared S) (tasks S ! k) \<noteq> Panic"
  by (rule lock_step_no_panic [OF mtx.reachable_wf [OF assms]])

theorem mutex_never_panics_witness:
  "lock_step queue_events (Poll 0) (shared demo_starved) (tasks demo_starved ! 1) \<noteq> Panic"
  by (rule mutex_never_panics [OF demo_starved_reachable]) (simp add: demo_starved_def)

lemma lock_step_no_abort:
  assumes ok: "mutex_good (shared S) (totals lock_wt (tasks S))" and wf: "lock_wf (tasks S ! k)"
    and k: "k < length (tasks S)" and few: "length (tasks S) \<le> 2 ^ 62"
  shows "lock_step ev i (shared S) (tasks S ! k) \<noteq> Abort"
proof
  assume abort: "lock_step ev i (shared S) (tasks S ! k) = Abort"
  obtain s where lk: "tasks S ! k = LHot AddStarved s"
    and gt: "usize_MAX div 2 < mstate (shared S)"
  proof (cases "tasks S ! k")
    case (LHot pc s)
    with abort that show ?thesis
      by (cases pc) (auto simp: lock_step_def mutex_op_defs Let_def
          split: lock_in.splits if_splits prod.splits option.splits)
  next
    case (LFair pc s)
    with abort show ?thesis
      by (cases pc) (auto simp: lock_step_def mutex_op_defs Let_def
          split: lock_in.splits if_splits prod.splits option.splits)
  qed (use abort in \<open>auto simp: lock_step_def mutex_op_defs Let_def
      split: lock_in.splits if_splits option.splits\<close>)
  from lk wf have starved: "lock_starved (tasks S ! k) = 0" by (simp add: lock_starved_def lock_wf_defs)
  from gt have "2 ^ 63 \<le> unat (mstate (shared S))"
    using le_usize_MAX_div_2_iff [of "mstate (shared S)"] by (simp add: not_le [symmetric])
  with ok have "2 ^ 62 \<le> totals lock_wt (tasks S) KStarved"
    by (simp add: mutex_good_def mutex_ok_def)
  also have "totals lock_wt (tasks S) KStarved = card (indices (\<lambda>l. lock_starved l = 1) (tasks S))"
    unfolding card_indices totals_def
    by (rule wsum_cong) (use lock_starved_le_1 in \<open>auto simp: lock_wt_def le_Suc_eq\<close>)
  also have "\<dots> \<le> card ({..< length (tasks S)} - {k})"
    by (rule card_mono) (use starved in \<open>auto simp: indices_def\<close>)
  also have "\<dots> = length (tasks S) - 1" using k by simp
  finally show False using few k by simp
qed

text \<open>
  The overflow check of the starvation counter fires only with more than \<open>2 ^ 62\<close> tasks: with
  fewer, no step aborts the process.
\<close>

theorem mutex_never_aborts:
  assumes "mutex_reachable ev new_event S" and "k < length (tasks S)"
    and few: "length (tasks S) \<le> 2 ^ 62"
  shows "lock_step ev i (shared S) (tasks S ! k) \<noteq> Abort"
  by (rule lock_step_no_abort [OF mtx.reachable_good [OF assms(1)] mtx.reachable_wf [OF assms(1,2)]
        assms(2,3)])

theorem mutex_never_aborts_witness:
  "lock_step queue_events (Run 0) (shared demo_starved) (tasks demo_starved ! 3) \<noteq> Abort"
  by (rule mutex_never_aborts [OF demo_starved_reachable]) (simp_all add: demo_starved_def)

end
