(* ===== verification/Event_Ownership.thy ===== *)
theory Event_Ownership
  imports Event_Interface Interleaving
begin

text \<open>
  How tasks use one event. Every task owns at most one listener of the event; a step of a task
  does at most one operation on the event, and only with its own listener. \<open>ev_effect\<close> lists the
  possibilities. Under the event laws the registered listeners are then exactly the listeners that
  tasks own, each owned by one task (\<open>own_inv\<close>): the shared basis of the wake-up proofs.
\<close>

inductive ev_effect :: "('e, 'l) event_ops \<Rightarrow> 'e \<Rightarrow> 'l option \<Rightarrow> 'e \<Rightarrow> 'l option \<Rightarrow> bool"
  for ev where
  none: "ev_effect ev e lo e lo"
| listen: "ev_listen ev e = (l, e') \<Longrightarrow> ev_effect ev e None e' (Some l)"
| notify: "ev_effect ev e lo (ev_notify ev n e) lo"
| notify_additional: "ev_effect ev e lo (ev_notify_additional ev n e) lo"
| pending: "ev_poll ev l e = (False, e') \<Longrightarrow> ev_effect ev e (Some l) e' (Some l)"
| ready: "ev_poll ev l e = (True, e') \<Longrightarrow> ev_effect ev e (Some l) e' None"
| drop: "ev_effect ev e (Some l) (ev_drop ev l e) None"

definition owned :: "('t \<Rightarrow> 'l option) \<Rightarrow> 't list \<Rightarrow> 'l set" where
  "owned lst ts = {x. \<exists>k < length ts. lst (ts ! k) = Some x}"

definition owned_once :: "('t \<Rightarrow> 'l option) \<Rightarrow> 't list \<Rightarrow> bool" where
  "owned_once lst ts \<longleftrightarrow> (\<forall>j k x. j < length ts \<longrightarrow> k < length ts \<longrightarrow>
     lst (ts ! j) = Some x \<longrightarrow> lst (ts ! k) = Some x \<longrightarrow> j = k)"

definition own_inv ::
    "('e, 'l) event_view \<Rightarrow> ('t \<Rightarrow> 'l option) \<Rightarrow> 'e \<Rightarrow> 't list \<Rightarrow> bool" where
  "own_inv vw lst e ts \<longleftrightarrow> active vw e = owned lst ts \<and> owned_once lst ts"

lemma own_inv_Nil: "fresh_event vw e \<Longrightarrow> own_inv vw lst e []"
  by (simp add: own_inv_def owned_def owned_once_def fresh_event_def)

lemma own_inv_snoc: "lst t = None \<Longrightarrow> own_inv vw lst e ts \<Longrightarrow> own_inv vw lst e (ts @ [t])"
  by (auto simp: own_inv_def owned_def owned_once_def nth_append less_Suc_eq split: if_splits)

lemma own_inv_active:
  "own_inv vw lst e ts \<Longrightarrow> k < length ts \<Longrightarrow> lst (ts ! k) = Some x \<Longrightarrow> x \<in> active vw e"
  by (auto simp: own_inv_def owned_def)

lemma own_inv_owner:
  assumes "own_inv vw lst e ts" and "x \<in> active vw e"
  obtains k where "k < length ts" and "lst (ts ! k) = Some x"
  using assms by (auto simp: own_inv_def owned_def)

lemma own_inv_unique:
  "own_inv vw lst e ts \<Longrightarrow> j < length ts \<Longrightarrow> k < length ts \<Longrightarrow>
   lst (ts ! j) = Some x \<Longrightarrow> lst (ts ! k) = Some x \<Longrightarrow> j = k"
  unfolding own_inv_def owned_once_def by blast

lemma own_inv_same:
  assumes "own_inv vw lst e ts" and "k < length ts" and "lst t' = lst (ts ! k)"
    and "active vw e' = active vw e"
  shows "own_inv vw lst e' (ts[k := t'])"
proof -
  have "lst (ts[k := t'] ! j) = lst (ts ! j)" for j
    using assms(2,3) by (cases "j = k") simp_all
  then have "owned lst (ts[k := t']) = owned lst ts" "owned_once lst (ts[k := t']) = owned_once lst ts"
    by (simp_all add: owned_def owned_once_def)
  with assms(1,4) show ?thesis by (simp add: own_inv_def)
qed

lemma own_inv_add:
  assumes inv: "own_inv vw lst e ts" and k: "k < length ts" "lst (ts ! k) = None" "lst t' = Some x"
    and x: "x \<notin> active vw e" "active vw e' = insert x (active vw e)"
  shows "own_inv vw lst e' (ts[k := t'])"
proof -
  have own: "active vw e = owned lst ts" and once: "owned_once lst ts"
    using inv by (simp_all add: own_inv_def)
  have "owned lst (ts[k := t']) = insert x (owned lst ts)"
  proof
    show "owned lst (ts[k := t']) \<subseteq> insert x (owned lst ts)"
      using k by (auto simp: owned_def nth_list_update split: if_splits)
    show "insert x (owned lst ts) \<subseteq> owned lst (ts[k := t'])"
    proof
      fix y assume "y \<in> insert x (owned lst ts)"
      then consider "y = x" | j where "j < length ts" "lst (ts ! j) = Some y"
        by (auto simp: owned_def)
      then show "y \<in> owned lst (ts[k := t'])"
      proof cases
        case 1
        with k show ?thesis by (auto simp: owned_def intro!: exI [of _ k])
      next
        case (2 j)
        with k show ?thesis by (auto simp: owned_def nth_list_update intro!: exI [of _ j])
      qed
    qed
  qed
  moreover have "owned_once lst (ts[k := t'])"
    unfolding owned_once_def
  proof (intro allI impI)
    fix i j y
    assume i: "i < length (ts[k := t'])" "lst (ts[k := t'] ! i) = Some y"
      and j: "j < length (ts[k := t'])" "lst (ts[k := t'] ! j) = Some y"
    have mem: "y \<in> active vw e" if "n < length ts" "lst (ts ! n) = Some y" for n
      using that by (auto simp: own owned_def)
    show "i = j"
    proof (cases "i = k \<or> j = k")
      case True
      with i j k x(1) mem show ?thesis by (auto simp: nth_list_update split: if_splits)
    next
      case False
      with i j once show ?thesis unfolding owned_once_def by auto
    qed
  qed
  ultimately show ?thesis using x(2) by (simp add: own_inv_def own)
qed

lemma own_inv_remove:
  assumes inv: "own_inv vw lst e ts" and k: "k < length ts" "lst (ts ! k) = Some x" "lst t' = None"
    and x: "active vw e' = active vw e - {x}"
  shows "own_inv vw lst e' (ts[k := t'])"
proof -
  have own: "active vw e = owned lst ts" and once: "owned_once lst ts"
    using inv by (simp_all add: own_inv_def)
  have "owned lst (ts[k := t']) = owned lst ts - {x}"
  proof
    show "owned lst (ts[k := t']) \<subseteq> owned lst ts - {x}"
      using k once unfolding owned_def owned_once_def
      by (auto simp: nth_list_update split: if_splits)
    show "owned lst ts - {x} \<subseteq> owned lst (ts[k := t'])"
    proof
      fix y assume "y \<in> owned lst ts - {x}"
      then obtain j where "j < length ts" "lst (ts ! j) = Some y" "y \<noteq> x"
        by (auto simp: owned_def)
      with k show "y \<in> owned lst (ts[k := t'])"
        by (auto simp: owned_def nth_list_update intro!: exI [of _ j])
    qed
  qed
  moreover have "owned_once lst (ts[k := t'])"
    using once k unfolding owned_once_def by (auto simp: nth_list_update split: if_splits)
  ultimately show ?thesis using x by (simp add: own_inv_def own)
qed

text \<open>Every effect keeps the ownership of listeners.\<close>

lemma own_inv_effect:
  assumes laws: "event_laws ev vw" and inv: "own_inv vw lst e ts" and k: "k < length ts"
    and eff: "ev_effect ev e (lst (ts ! k)) e' (lst t')"
  shows "own_inv vw lst e' (ts[k := t'])"
  using eff
proof (cases rule: ev_effect.cases)
  case none
  with own_inv_same [OF inv k] show ?thesis by simp
next
  case (listen l)
  from listenD [OF laws listen(3)] own_inv_add [OF inv k listen(1,2)] show ?thesis by blast
next
  case (notify n)
  with own_inv_same [OF inv k] show ?thesis by (simp add: notify_active [OF laws])
next
  case (notify_additional n)
  moreover note notify_additional_active [OF laws, of n e]
  ultimately show ?thesis using own_inv_same [OF inv k] by simp
next
  case (pending l)
  from own_inv_active [OF inv k pending(1)] have "l \<in> active vw e" .
  from pollD(2) [OF laws this pending(3)] own_inv_same [OF inv k] pending(1,2) show ?thesis by simp
next
  case (ready l)
  from own_inv_active [OF inv k ready(1)] have "l \<in> active vw e" .
  from pollD(2) [OF laws this ready(3)] own_inv_remove [OF inv k ready(1,2)] show ?thesis by simp
next
  case (drop l)
  from own_inv_active [OF inv k drop(1)] have "l \<in> active vw e" .
  from dropD(1) [OF laws this] own_inv_remove [OF inv k drop(1,3)] drop(2) show ?thesis by simp
qed

text \<open>There are no more listeners than tasks.\<close>

lemma own_inv_card:
  assumes "own_inv vw lst e ts"
  shows "card (active vw e) \<le> length ts"
proof -
  have "active vw e \<subseteq> (\<lambda>k. the (lst (ts ! k))) ` {..< length ts}"
    using assms by (force simp: own_inv_def owned_def)
  then have "card (active vw e) \<le> card {..< length ts}"
    by (meson card_image_le card_mono finite_imageI finite_lessThan le_trans)
  then show ?thesis by simp
qed

text \<open>A step takes no notification but its own.\<close>

lemma ev_effect_keeps:
  assumes laws: "event_laws ev vw" and eff: "ev_effect ev e lo e' lo'"
    and act: "\<And>l. lo = Some l \<Longrightarrow> l \<in> active vw e"
    and y: "y \<in> notified vw e" "lo = Some y \<Longrightarrow> lo' = Some y"
  shows "y \<in> notified vw e'"
  using eff
proof (cases rule: ev_effect.cases)
  case none
  with y show ?thesis by simp
next
  case (listen l)
  from listenD(3) [OF laws listen(3)] y show ?thesis by simp
next
  case (notify n)
  with notify_keeps [OF laws y(1)] show ?thesis by simp
next
  case (notify_additional n)
  with notify_additional_keeps [OF laws y(1)] show ?thesis by simp
next
  case (pending l)
  from pollD(3) [OF laws act [OF pending(1)] pending(3)] y show ?thesis by simp
next
  case (ready l)
  from pollD(3) [OF laws act [OF ready(1)] ready(3)] y ready(1,2) show ?thesis by auto
next
  case (drop l)
  from dropD(2) [OF laws act [OF drop(1)]] y drop show ?thesis by auto
qed

text \<open>
  The effects that take no notification. A listener registered and not notified afterwards was not
  notified before; and while there is one, the event does not lose its last notification.
\<close>

definition ev_calm :: "('e, 'l) event_ops \<Rightarrow> 'e \<Rightarrow> 'l option \<Rightarrow> 'e \<Rightarrow> 'l option \<Rightarrow> bool" where
  "ev_calm ev e lo e' lo' \<longleftrightarrow>
     e' = e \<and> lo' = lo \<or>
     (\<exists>l. ev_listen ev e = (l, e') \<and> lo = None \<and> lo' = Some l) \<or>
     (\<exists>n. e' = ev_notify ev n e \<and> lo' = lo) \<or>
     (\<exists>l. ev_poll ev l e = (False, e') \<and> lo = Some l \<and> lo' = lo) \<or>
     (\<exists>l. e' = ev_drop ev l e \<and> lo = Some l \<and> lo' = None)"

lemma ev_calm_same: "ev_calm ev e lo e lo"
  by (simp add: ev_calm_def)

lemma ev_calm_unnotified:
  assumes laws: "event_laws ev vw" and calm: "ev_calm ev e lo e' lo'"
    and act: "\<And>l. lo = Some l \<Longrightarrow> l \<in> active vw e"
    and y: "y \<in> active vw e'" "y \<notin> notified vw e'"
  shows "y \<notin> notified vw e"
  using calm unfolding ev_calm_def
proof (elim disjE exE conjE)
  fix l assume "ev_listen ev e = (l, e')"
  from listenD(3) [OF laws this] y(2) show ?thesis by simp
next
  fix n assume "e' = ev_notify ev n e"
  with notify_keeps [OF laws] y(2) show ?thesis by blast
next
  fix l assume poll: "ev_poll ev l e = (False, e')" and "lo = Some l"
  from pollD(3) [OF laws act poll] \<open>lo = Some l\<close> y(2) show ?thesis by simp
next
  fix l assume e': "e' = ev_drop ev l e" and lo: "lo = Some l"
  from dropD(1,2) [OF laws act [OF lo]] e' y show ?thesis by blast
qed (use y in simp)

lemma ev_calm_notified:
  assumes laws: "event_laws ev vw" and calm: "ev_calm ev e lo e' lo'"
    and act: "\<And>l. lo = Some l \<Longrightarrow> l \<in> active vw e"
    and y: "y \<in> active vw e'" "y \<notin> notified vw e'"
    and ne: "notified vw e \<noteq> {}"
  shows "notified vw e' \<noteq> {}"
  using calm unfolding ev_calm_def
proof (elim disjE exE conjE)
  fix l assume "ev_listen ev e = (l, e')"
  from listenD(3) [OF laws this] ne show ?thesis by simp
next
  fix n assume "e' = ev_notify ev n e"
  with notify_keeps [OF laws] ne show ?thesis by blast
next
  fix l assume poll: "ev_poll ev l e = (False, e')" and "lo = Some l"
  from pollD(3) [OF laws act poll] \<open>lo = Some l\<close> ne show ?thesis by simp
next
  fix l assume e': "e' = ev_drop ev l e" and lo: "lo = Some l"
  from act [OF lo] have l: "l \<in> active vw e" .
  have "active vw e - {l} \<noteq> {}" using dropD(1) [OF laws l] e' y(1) by auto
  with dropD(2,3,4) [OF laws l] e' ne show ?thesis by (cases "l \<in> notified vw e") auto
qed (use ne in simp)

text \<open>The effects that are not notifications: they add none, and drop passes one on.\<close>

definition ev_silent :: "('e, 'l) event_ops \<Rightarrow> 'e \<Rightarrow> 'l option \<Rightarrow> 'e \<Rightarrow> 'l option \<Rightarrow> bool" where
  "ev_silent ev e lo e' lo' \<longleftrightarrow>
     e' = e \<or>
     (\<exists>l. ev_listen ev e = (l, e')) \<or>
     (\<exists>l r. ev_poll ev l e = (r, e') \<and> lo = Some l) \<or>
     (\<exists>l. e' = ev_drop ev l e \<and> lo = Some l)"

lemma ev_silent_same: "ev_silent ev e lo e lo'"
  by (simp add: ev_silent_def)

lemma ev_silent_notified:
  assumes laws: "event_laws ev vw" and silent: "ev_silent ev e lo e' lo'"
    and act: "\<And>l. lo = Some l \<Longrightarrow> l \<in> active vw e" and ne: "notified vw e' \<noteq> {}"
  shows "notified vw e \<noteq> {}"
  using silent unfolding ev_silent_def
proof (elim disjE exE conjE)
  fix l assume "ev_listen ev e = (l, e')"
  from listenD(3) [OF laws this] ne show ?thesis by simp
next
  fix l r assume poll: "ev_poll ev l e = (r, e')" and lo: "lo = Some l"
  from pollD(3) [OF laws act [OF lo] poll] ne show ?thesis by (auto split: if_splits)
next
  fix l assume e': "e' = ev_drop ev l e" and lo: "lo = Some l"
  from dropD(3) [OF laws act [OF lo]] e' ne show ?thesis by (cases "l \<in> notified vw e") auto
qed (use ne in simp)

end
