(* ===== verification/Wakeup_Duty.thy ===== *)
theory Wakeup_Duty
  imports Event_Ownership
begin

text \<open>
  The argument that no wake-up is lost, shared by the primitives. Tasks own listeners of one event.
  \<open>waits\<close> holds of a task that is suspended, or will suspend unless its listener has been notified;
  \<open>carries\<close> of a task that will pass a wake-up on or look at the shared state again before it can
  suspend. A task is needy when it waits and its listener has not been notified. The duty is done
  when there is no needy task, or some listener is notified, or some task carries.

  A primitive interprets the locale \<open>wakeup_duty\<close> on its own tasks and shows which of the lemmas
  each step falls under.
\<close>

definition needy ::
    "('e, 'l) event_view \<Rightarrow> ('t \<Rightarrow> 'l option) \<Rightarrow> ('t \<Rightarrow> bool) \<Rightarrow> 'e \<Rightarrow> 't \<Rightarrow> bool" where
  "needy vw lst waits e t \<longleftrightarrow> waits t \<and> (\<exists>x. lst t = Some x \<and> x \<notin> notified vw e)"

definition duty_done ::
    "('e, 'l) event_view \<Rightarrow> ('t \<Rightarrow> 'l option) \<Rightarrow> ('t \<Rightarrow> bool) \<Rightarrow> ('t \<Rightarrow> bool) \<Rightarrow> 'e \<Rightarrow> 't list \<Rightarrow> bool" where
  "duty_done vw lst waits carries e ts \<longleftrightarrow>
     ((\<exists>k < length ts. needy vw lst waits e (ts ! k)) \<longrightarrow>
        notified vw e \<noteq> {} \<or> (\<exists>k < length ts. carries (ts ! k)))"

locale wakeup_duty =
  fixes lst :: "'t \<Rightarrow> 'l option"
    and waits :: "'t \<Rightarrow> bool"
    and carries :: "'t \<Rightarrow> bool"
    and wft :: "'t \<Rightarrow> bool"
  assumes waits_listener: "wft t \<Longrightarrow> waits t \<Longrightarrow> lst t \<noteq> None"
begin

lemma duty_Nil: "duty_done vw lst waits carries e []"
  by (simp add: duty_done_def)

lemma duty_snoc:
  assumes "\<not> waits t" and "\<not> carries t"
  shows "duty_done vw lst waits carries e (ts @ [t]) = duty_done vw lst waits carries e ts"
  using assms by (auto simp: duty_done_def needy_def nth_append less_Suc_eq)

lemma duty_carrier:
  "k < length ts \<Longrightarrow> carries t' \<Longrightarrow> duty_done vw lst waits carries e (ts[k := t'])"
  unfolding duty_done_def by (metis length_list_update nth_list_update_eq)

text \<open>After a notification of at least one listener nothing is left to do.\<close>

lemma duty_notify:
  assumes laws: "event_laws ev vw" and own: "own_inv vw lst (ev_notify ev n e) ts" and n: "n \<noteq> 0"
  shows "duty_done vw lst waits carries (ev_notify ev n e) ts"
proof -
  have "notified vw (ev_notify ev n e) \<noteq> {}"
    if "j < length ts" "needy vw lst waits (ev_notify ev n e) (ts ! j)" for j
  proof -
    from that(2) obtain x where "lst (ts ! j) = Some x" by (auto simp: needy_def)
    from own_inv_active [OF own that(1) this] have "x \<in> active vw e"
      by (simp add: notify_active [OF laws])
    from notify_some [OF laws this n] show ?thesis .
  qed
  then show ?thesis by (auto simp: duty_done_def)
qed

text \<open>A calm step of a task that does not carry.\<close>

lemma duty_frame:
  assumes laws: "event_laws ev vw" and own: "own_inv vw lst e ts"
    and own': "own_inv vw lst e' (ts[k := t'])" and k: "k < length ts"
    and calm: "ev_calm ev e (lst (ts ! k)) e' (lst t')"
    and duty: "duty_done vw lst waits carries e ts" and wf: "wft (ts ! k)"
    and quiet: "\<not> carries (ts ! k)" and waits: "waits t' \<longrightarrow> waits (ts ! k)"
  shows "duty_done vw lst waits carries e' (ts[k := t'])"
  unfolding duty_done_def
proof
  assume "\<exists>j < length (ts[k := t']). needy vw lst waits e' (ts[k := t'] ! j)"
  then obtain j x where j: "j < length ts" "waits (ts[k := t'] ! j)"
    and x: "lst (ts[k := t'] ! j) = Some x" "x \<notin> notified vw e'"
    by (auto simp: needy_def)
  have act: "\<And>y. lst (ts ! k) = Some y \<Longrightarrow> y \<in> active vw e"
    by (rule own_inv_active [OF own k])
  have x_act: "x \<in> active vw e'" using own_inv_active [OF own'] j(1) x(1) by simp
  have "waits (ts ! j) \<and> lst (ts ! j) = Some x"
  proof (cases "j = k")
    case True
    with j k waits have "waits (ts ! k)" by simp
    with waits_listener [OF wf this] calm x(1) True k show ?thesis by (auto simp: ev_calm_def)
  next
    case False
    with j x show ?thesis by simp
  qed
  with j(1) ev_calm_unnotified [OF laws calm act x_act x(2)]
  have "\<exists>j < length ts. needy vw lst waits e (ts ! j)" by (auto simp: needy_def)
  with duty consider "notified vw e \<noteq> {}" | c where "c < length ts" "carries (ts ! c)"
    by (auto simp: duty_done_def)
  then show "notified vw e' \<noteq> {} \<or> (\<exists>c < length (ts[k := t']). carries (ts[k := t'] ! c))"
  proof cases
    case 1
    from ev_calm_notified [OF laws calm act x_act x(2) this] show ?thesis by blast
  next
    case (2 c)
    with quiet have "c \<noteq> k" by auto
    with 2 show ?thesis by auto
  qed
qed

text \<open>At rest, nobody carries: a waiting task means that the listener of some task is notified.\<close>

lemma duty_rest:
  assumes laws: "event_laws ev vw" and own: "own_inv vw lst e ts"
    and duty: "duty_done vw lst waits carries e ts"
    and quiet: "\<forall>t \<in> set ts. \<not> carries t" and k: "k < length ts" "wft (ts ! k)" "waits (ts ! k)"
  shows "\<exists>j < length ts. \<exists>x. lst (ts ! j) = Some x \<and> x \<in> notified vw e"
proof -
  obtain y where "lst (ts ! k) = Some y" using waits_listener [OF k(2,3)] by blast
  with k(3) have "needy vw lst waits e (ts ! k) \<or> notified vw e \<noteq> {}" by (auto simp: needy_def)
  with duty quiet k(1) have "notified vw e \<noteq> {}" by (auto simp: duty_done_def)
  then obtain x where x: "x \<in> notified vw e" by blast
  with own_inv_owner [OF own notified_active [OF laws x]] show ?thesis by metis
qed

end

subsection \<open>Waking everybody\<close>

text \<open>Every waiting task has been notified.\<close>

definition all_notified ::
    "('e, 'l) event_view \<Rightarrow> ('t \<Rightarrow> 'l option) \<Rightarrow> ('t \<Rightarrow> bool) \<Rightarrow> 'e \<Rightarrow> 't list \<Rightarrow> bool" where
  "all_notified vw lst waits e ts \<longleftrightarrow>
     (\<forall>k < length ts. waits (ts ! k) \<longrightarrow> (\<exists>x. lst (ts ! k) = Some x \<and> x \<in> notified vw e))"

lemma all_notified_snoc:
  "\<not> waits t \<Longrightarrow> all_notified vw lst waits e (ts @ [t]) = all_notified vw lst waits e ts"
  by (auto simp: all_notified_def nth_append less_Suc_eq)

text \<open>A step whose task waits afterwards only if it did before, with the same listener.\<close>

lemma all_notified_frame:
  assumes laws: "event_laws ev vw" and own: "own_inv vw lst e ts" and k: "k < length ts"
    and eff: "ev_effect ev e (lst (ts ! k)) e' (lst t')"
    and all: "all_notified vw lst waits e ts"
    and waits: "waits t' \<longrightarrow> waits (ts ! k) \<and> lst t' = lst (ts ! k)"
  shows "all_notified vw lst waits e' (ts[k := t'])"
  unfolding all_notified_def
proof (intro allI impI)
  fix j assume j: "j < length (ts[k := t'])" "waits (ts[k := t'] ! j)"
  have act: "\<And>l. lst (ts ! k) = Some l \<Longrightarrow> l \<in> active vw e" by (rule own_inv_active [OF own k])
  have old: "waits (ts ! j)" and same: "lst (ts[k := t'] ! j) = lst (ts ! j)"
    using j waits k by (cases "j = k"; simp)+
  from all j(1) old obtain x where x: "lst (ts ! j) = Some x" "x \<in> notified vw e"
    by (auto simp: all_notified_def)
  have "x \<in> notified vw e'"
  proof (rule ev_effect_keeps [OF laws eff act x(2)])
    assume "lst (ts ! k) = Some x"
    with own_inv_unique [OF own] j(1) k x(1) have "j = k" by auto
    with same k x(1) show "lst t' = Some x" by simp
  qed
  with x(1) same show "\<exists>x. lst (ts[k := t'] ! j) = Some x \<and> x \<in> notified vw e'" by auto
qed

text \<open>After a notification that reaches every listener.\<close>

lemma all_notified_everybody:
  assumes own: "own_inv vw lst e' ts" and all: "notified vw e' = active vw e'"
    and waits: "\<And>t. t \<in> set ts \<Longrightarrow> waits t \<Longrightarrow> lst t \<noteq> None"
  shows "all_notified vw lst waits e' ts"
  unfolding all_notified_def
proof (intro allI impI)
  fix j assume j: "j < length ts" "waits (ts ! j)"
  with waits obtain x where "lst (ts ! j) = Some x" by (metis not_Some_eq nth_mem)
  with own_inv_active [OF own j(1)] all show "\<exists>x. lst (ts ! j) = Some x \<and> x \<in> notified vw e'" by auto
qed

text \<open>
  A task that is \<open>due\<close> to wake everybody: until it does, or when every waiting task has been
  notified.
\<close>

definition all_or_due ::
    "('e, 'l) event_view \<Rightarrow> ('t \<Rightarrow> 'l option) \<Rightarrow> ('t \<Rightarrow> bool) \<Rightarrow> ('t \<Rightarrow> bool) \<Rightarrow> 'e \<Rightarrow> 't list \<Rightarrow> bool" where
  "all_or_due vw lst waits due e ts \<longleftrightarrow> (\<exists>t \<in> set ts. due t) \<or> all_notified vw lst waits e ts"

lemma all_or_due_Nil: "all_or_due vw lst waits due e []"
  by (simp add: all_or_due_def all_notified_def)

lemma all_or_due_snoc:
  "\<not> waits t \<Longrightarrow> all_or_due vw lst waits due e ts \<Longrightarrow> all_or_due vw lst waits due e (ts @ [t])"
  by (auto simp: all_or_due_def all_notified_snoc)

lemma all_or_due_act:
  assumes laws: "event_laws ev vw" and own: "own_inv vw lst e ts" and k: "k < length ts"
    and eff: "ev_effect ev e (lst (ts ! k)) e' (lst t')"
    and listener: "\<And>t. t \<in> set (ts[k := t']) \<Longrightarrow> waits t \<Longrightarrow> lst t \<noteq> None"
    and step: "due t' \<or> notified vw e' = active vw e' \<or>
      all_or_due vw lst waits due e ts \<and> \<not> due (ts ! k) \<and>
        (waits t' \<longrightarrow> waits (ts ! k) \<and> lst t' = lst (ts ! k))"
  shows "all_or_due vw lst waits due e' (ts[k := t'])"
  using step
proof (elim disjE conjE)
  assume "due t'"
  with set_update_memI [OF k, of t'] show ?thesis unfolding all_or_due_def by blast
next
  assume "notified vw e' = active vw e'"
  from all_notified_everybody [OF own_inv_effect [OF laws own k eff] this listener] show ?thesis
    by (simp add: all_or_due_def)
next
  assume old: "all_or_due vw lst waits due e ts" and not_due: "\<not> due (ts ! k)"
    and waits: "waits t' \<longrightarrow> waits (ts ! k) \<and> lst t' = lst (ts ! k)"
  from old consider j where "j < length ts" "due (ts ! j)" | "all_notified vw lst waits e ts"
    by (auto simp: all_or_due_def in_set_conv_nth)
  then show ?thesis
  proof cases
    case (1 j)
    with not_due have "j \<noteq> k" by auto
    with 1 nth_mem [of j "ts[k := t']"] have "ts ! j \<in> set (ts[k := t'])" by simp
    with 1 show ?thesis unfolding all_or_due_def by blast
  next
    case 2
    from all_notified_frame [OF laws own k eff 2 waits] show ?thesis by (simp add: all_or_due_def)
  qed
qed

end
