(* ===== verification/Mutex_Wakeup.thy ===== *)
theory Mutex_Wakeup
  imports Mutex_Safety Wakeup_Duty
begin

text \<open>
  No lost wake-up in the mutex, under the event laws. A task \<open>waits\<close> when it is suspended, or will
  suspend unless its listener is notified. A task \<open>carries\<close> the duty of a wake-up when it has
  taken a notification, or is about to notify, or will retry before it can suspend. The invariant:
  while the lock bit is clear and some waiting task is not notified, some listener is notified or
  some task carries.
\<close>

definition lock_listener :: "'l lock \<Rightarrow> 'l option" where
  "lock_listener l = (case l of
     LSlow s \<Rightarrow> sl_listener s | LHot _ s \<Rightarrow> sl_listener s | LFair _ s \<Rightarrow> sl_listener s
   | LHeld lo \<Rightarrow> lo | LUnlock lo \<Rightarrow> lo | LDone lo \<Rightarrow> lo | _ \<Rightarrow> None)"

definition waits :: "'l lock \<Rightarrow> bool" where
  "waits l = (case l of
     LSlow s \<Rightarrow> True
   | LHot pc s \<Rightarrow> pc = HotWait \<or> pc = AddStarved \<and> sl_listener s \<noteq> None
   | LFair pc s \<Rightarrow> pc = FairWait
   | _ \<Rightarrow> False)"

definition carries :: "'l lock \<Rightarrow> bool" where
  "carries l = (case l of
     LHot pc s \<Rightarrow> pc = HotRetry \<or> pc = HotNotify \<or> pc = AddStarved \<and> sl_listener s = None
   | LFair pc s \<Rightarrow> pc = FairListen \<or> pc = FairCas \<or> pc = FairNotify \<or> pc = FairOr
   | LUnlock lo \<Rightarrow> True
   | _ \<Rightarrow> False)"

lemma hot_step_effect:
  "hot_step ev now pc m s = Next (m', l') \<Longrightarrow> hot_wf pc s \<Longrightarrow>
   ev_effect ev (lock_ops m) (sl_listener s) (lock_ops m') (lock_listener l')"
  by (cases pc)
     (auto simp: mutex_op_defs hot_wf_def lock_listener_def Let_def
       intro: ev_effect.intros split: if_splits prod.splits option.splits)

lemma fair_step_effect:
  "fair_step ev pc m s = Next (m', l') \<Longrightarrow> fair_wf pc s \<Longrightarrow>
   ev_effect ev (lock_ops m) (sl_listener s) (lock_ops m') (lock_listener l')"
  by (cases pc)
     (auto simp: mutex_op_defs fair_wf_def lock_listener_def Let_def
       intro: ev_effect.intros split: if_splits prod.splits option.splits)

lemma slow_enter_effect:
  "slow_enter now m s = Next (m', l') \<Longrightarrow> m' = m \<and> lock_listener l' = sl_listener s"
  by (auto simp: slow_enter_def hot_top_def fair_top_def lock_listener_def Let_def split: if_splits)

lemma lock_step_effect:
  assumes step: "lock_step ev i m l = Next (m', l')" and wf: "lock_wf l"
  shows "ev_effect ev (lock_ops m) (lock_listener l) (lock_ops m') (lock_listener l')"
proof (cases l)
  case (LHot pc s)
  with step wf show ?thesis
    by (auto simp: lock_step_def lock_wf_def lock_listener_def [of "LHot _ _"]
        dest: hot_step_effect split: lock_in.splits)
next
  case (LFair pc s)
  with step wf show ?thesis
    by (auto simp: lock_step_def lock_wf_def lock_listener_def [of "LFair _ _"]
        dest: fair_step_effect split: lock_in.splits)
next
  case LTry
  with step show ?thesis
    by (auto simp: lock_step_def try_lock_eq lock_listener_def [of "LHeld _"] lock_listener_def [of LTry]
        acquire_slow_new_def dest!: slow_enter_effect intro: ev_effect.intros
        split: lock_in.splits if_splits)
next
  case (LSlow s)
  with step show ?thesis
    by (auto simp: lock_step_def take_mutex_def lock_listener_def [of "LSlow _"]
        lock_listener_def [of "LDone _"] dest!: slow_enter_effect intro: ev_effect.intros
        split: lock_in.splits)
qed (use step in \<open>auto simp: lock_step_def drop_listener_def lock_listener_def Let_def
       unlock_sub_def unlock_notify_def try_lock_eq intro: ev_effect.intros
       split: lock_in.splits option.splits if_splits\<close>)

lemmas duty_defs = carries_def waits_def lock_owner_def lock_listener_def ev_calm_def

text \<open>
  What a step can do to the duty of a wake-up, if its task does not carry afterwards: the lock bit
  is set; or it has just notified; or it neither carried nor changed the lock bit, and waits only
  if it already waited; or it found the lock word to be neither 0 nor 1 and keeps its listener.
\<close>

lemma lock_step_duty:
  assumes step: "lock_step ev i m l = Next (m', l')" and wf: "lock_wf l" and "\<not> carries l'"
  shows "odd (unat (mstate m')) \<or>
    lock_ops m' = ev_notify ev 1 (lock_ops m) \<or>
    (\<not> carries l \<and> lock_owner l' = lock_owner l \<and> (waits l' \<longrightarrow> waits l) \<and>
      ev_calm ev (lock_ops m) (lock_listener l) (lock_ops m') (lock_listener l')) \<or>
    (\<exists>s. l = LHot HotCas s \<and> l' = LHot AddStarved s \<and> m' = m \<and> mstate m \<noteq> 0 \<and> mstate m \<noteq> 1)"
proof (cases l)
  case (LHot pc s)
  with step wf have "hot_step ev (case i of Run now \<Rightarrow> now | _ \<Rightarrow> 0) pc m s = Next (m', l')"
    by (auto simp: lock_step_def split: lock_in.splits)
  with LHot wf \<open>\<not> carries l'\<close> show ?thesis
    by (cases pc)
       (auto simp: mutex_op_defs lock_wf_defs duty_defs Let_def
         split: if_splits prod.splits option.splits)
next
  case (LFair pc s)
  with step have "fair_step ev pc m s = Next (m', l')"
    by (auto simp: lock_step_def split: lock_in.splits)
  with LFair wf \<open>\<not> carries l'\<close> show ?thesis
    by (cases pc)
       (auto simp: mutex_op_defs lock_wf_defs duty_defs Let_def
         unat_or_1 mod_2_eq_1_iff mod_2_eq_0_iff
         split: if_splits prod.splits option.splits)
next
  case (LSlow s)
  with step wf \<open>\<not> carries l'\<close> show ?thesis
    by (auto simp: lock_step_def mutex_op_defs lock_wf_defs duty_defs
        Let_def split: lock_in.splits if_splits)
next
  case LTry
  with step \<open>\<not> carries l'\<close> show ?thesis
    by (auto simp: lock_step_def mutex_op_defs duty_defs
        Let_def split: lock_in.splits if_splits)
next
  case (LHeld lo)
  with step \<open>\<not> carries l'\<close> show ?thesis
    by (auto simp: lock_step_def mutex_op_defs duty_defs
        Let_def split: lock_in.splits option.splits)
qed (use step \<open>\<not> carries l'\<close> in \<open>auto simp: lock_step_def mutex_op_defs duty_defs Let_def split: lock_in.splits option.splits if_splits\<close>)

subsection \<open>The invariant\<close>

interpretation mtx_duty: wakeup_duty lock_listener waits carries lock_wf
  by unfold_locales (auto simp: waits_def lock_wf_defs lock_listener_def split: lock.splits)

definition wake_inv :: "('e, 'l) event_view \<Rightarrow> (('e, 'a) mutex, 'l lock) sys \<Rightarrow> bool" where
  "wake_inv vw S \<longleftrightarrow> counting_inv lock_wt lock_wf mutex_good S \<and>
     own_inv vw lock_listener (lock_ops (shared S)) (tasks S) \<and>
     (even (unat (mstate (shared S))) \<longrightarrow> 
       duty_done vw lock_listener waits carries (lock_ops (shared S)) (tasks S))"

text \<open>
  A free lock with a non-zero state word: some starved operation carries, or is notified, or is
  needy itself.
\<close>

lemma starved_needs:
  assumes good: "mutex_good m (totals lock_wt ts)" and wf: "\<forall>t \<in> set ts. lock_wf t"
    and even: "even (unat (mstate m))" and nz: "mstate m \<noteq> 0"
  obtains j where "j < length ts" and "lock_starved (ts ! j) = 1"
    and "carries (ts ! j) \<or> waits (ts ! j)"
proof -
  from good have ok: "mutex_ok m (totals lock_wt ts KOwner) (totals lock_wt ts KStarved)"
    by (simp add: mutex_good_def)
  from even mutex_ok_even [OF ok] have own: "totals lock_wt ts KOwner = 0"
    by (simp add: mod_2_eq_0_iff)
  with nz mutex_ok_0 [OF ok] have "0 < totals lock_wt ts KStarved" by simp
  then obtain t where "t \<in> set ts" "0 < lock_starved t" by (auto simp: totals_pos_iff lock_wt_def)
  then obtain j where j: "j < length ts" "0 < lock_starved (ts ! j)" by (metis in_set_conv_nth)
  have "lock_owner (ts ! j) = 0"
    using totals_member_le [OF j(1), of lock_wt KOwner] own by (simp add: lock_wt_def)
  moreover have "lock_wf (ts ! j)" using wf j(1) by simp
  ultimately have "carries (ts ! j) \<or> waits (ts ! j)"
    using j(2) by (auto simp: lock_starved_def lock_owner_def carries_def waits_def lock_wf_defs
        split: lock.splits) (metis fair_pc.exhaust)+
  with j that lock_starved_le_1 [of "ts ! j"] show ?thesis by simp
qed

text \<open>
  A word that is even but not zero counts a starved operation, which has been notified, will notify,
  or waits and is owed a notification.
\<close>

lemma starved_heard:
  assumes good: "mutex_good m (totals lock_wt ts)" and wfs: "\<forall>t \<in> set ts. lock_wf t"
    and word: "even (unat (mstate m))" "mstate m \<noteq> 0"
    and duty: "even (unat (mstate m)) \<Longrightarrow> duty_done vw lock_listener waits carries (lock_ops m) ts"
  shows "notified vw (lock_ops m) \<noteq> {} \<or> (\<exists>c < length ts. carries (ts ! c))"
proof -
  obtain j where j: "j < length ts" "carries (ts ! j) \<or> waits (ts ! j)"
    using starved_needs [OF good wfs word] by metis
  show ?thesis
  proof (cases "carries (ts ! j)")
    case True
    with j(1) show ?thesis by blast
  next
    case False
    with j wfs obtain y where y: "waits (ts ! j)" "lock_listener (ts ! j) = Some y"
      using mtx_duty.waits_listener [of "ts ! j"] by auto
    with j(1) duty [OF word(1)] show ?thesis by (auto simp: duty_done_def needy_def)
  qed
qed

lemma wake_inv_act:
  assumes laws: "event_laws ev vw" and inv: "wake_inv vw S" and k: "k < length (tasks S)"
    and step: "lock_step ev i (shared S) (tasks S ! k) = Next (m', l')"
  shows "wake_inv vw \<lparr>shared = m', tasks = (tasks S)[k := l']\<rparr>"
proof -
  let ?m = "shared S" and ?ts = "tasks S" and ?ts' = "(tasks S)[k := l']"
  let ?e = "lock_ops ?m" and ?e' = "lock_ops m'" and ?l = "tasks S ! k"
  have cnt: "counting_inv lock_wt lock_wf mutex_good S"
    and own: "own_inv vw lock_listener ?e ?ts"
    and duty: "even (unat (mstate ?m)) \<Longrightarrow> duty_done vw lock_listener waits carries ?e ?ts"
    using inv by (simp_all add: wake_inv_def)
  have cnt': "counting_inv lock_wt lock_wf mutex_good \<lparr>shared = m', tasks = ?ts'\<rparr>"
    by (rule mtx.inv_act [OF cnt k step])
  have good: "mutex_good ?m (totals lock_wt ?ts)" "mutex_good m' (totals lock_wt ?ts')"
    and wfs: "\<forall>t \<in> set ?ts. lock_wf t"
    using cnt cnt' by (simp_all add: counting_inv_def)
  have wf: "lock_wf ?l" using wfs k by simp
  have own': "own_inv vw lock_listener ?e' ?ts'"
    by (rule own_inv_effect [OF laws own k lock_step_effect [OF step wf]])
  have "duty_done vw lock_listener waits carries ?e' ?ts'" if even': "even (unat (mstate m'))"
  proof (cases "carries l'")
    case True
    with k show ?thesis by (rule mtx_duty.duty_carrier)
  next
    case False
    from lock_step_duty [OF step wf False] even' consider
        "?e' = ev_notify ev 1 ?e"
      | "\<not> carries ?l" "lock_owner l' = lock_owner ?l" "waits l' \<longrightarrow> waits ?l"
        "ev_calm ev ?e (lock_listener ?l) ?e' (lock_listener l')"
      | s where "?l = LHot HotCas s" "l' = LHot AddStarved s" "m' = ?m" "mstate ?m \<noteq> 0"
      by blast
    then show ?thesis
    proof cases
      case 1
      with mtx_duty.duty_notify [OF laws, of 1 ?e ?ts'] own' show ?thesis by simp
    next
      case 2
      have "totals lock_wt ?ts' KOwner = totals lock_wt ?ts KOwner"
        using k 2(2) totals_member_le [OF k, of lock_wt KOwner]
        by (simp add: totals_def wsum_update lock_wt_def)
      with even' good have "even (unat (mstate ?m))"
        by (simp add: mutex_good_def mutex_ok_def)
      from mtx_duty.duty_frame [OF laws own own' k 2(4) duty [OF this] wf 2(1,3)] show ?thesis .
    next
      case 3
      have "notified vw ?e \<noteq> {} \<or> (\<exists>c < length ?ts. carries (?ts ! c))"
        using starved_heard [OF good(1) wfs _ 3(4) duty] even' 3(3) by simp
      moreover have "\<not> carries ?l" by (simp add: 3(1) carries_def)
      ultimately have "notified vw ?e' \<noteq> {} \<or> (\<exists>c < length ?ts'. carries (?ts' ! c))"
        using 3(3) by (metis length_list_update nth_list_update_neq)
      then show ?thesis by (simp add: duty_done_def)
    qed
  qed
  with cnt' own' show ?thesis by (simp add: wake_inv_def)
qed

interpretation mtx_wake: inv_system "lock_step ev" lock_fresh "mutex_start (fresh_event vw)"
    "\<lambda>S. event_laws ev vw \<longrightarrow> wake_inv vw S"
  for ev :: "('e, 'l) event_ops" and vw
proof
  fix m :: "('e, 'a) mutex"
  assume "mutex_start (fresh_event vw) m"
  then show "event_laws ev vw \<longrightarrow> wake_inv vw \<lparr>shared = m, tasks = []\<rparr>"
    using mtx.inv_init [of "fresh_event vw" m]
    by (auto simp: wake_inv_def mutex_start_def mtx_duty.duty_Nil intro: own_inv_Nil)
next
  fix S :: "(('e, 'a) mutex, 'l lock) sys" and t :: "'l lock"
  assume inv: "event_laws ev vw \<longrightarrow> wake_inv vw S" and t: "lock_fresh t"
  have none: "lock_listener t = None" "\<not> waits t" "\<not> carries t"
    using t by (auto simp: lock_fresh_def lock_listener_def waits_def carries_def)
  with inv mtx.inv_spawn [OF _ t, of S] own_inv_snoc [where lst = lock_listener and t = t, OF none(1)]
  show "event_laws ev vw \<longrightarrow> wake_inv vw (S\<lparr>tasks := tasks S @ [t]\<rparr>)"
    by (auto simp: wake_inv_def mtx_duty.duty_snoc [OF none(2,3)])
next
  fix S :: "(('e, 'a) mutex, 'l lock) sys" and k i m' l'
  assume "event_laws ev vw \<longrightarrow> wake_inv vw S" and "k < length (tasks S)"
    and "lock_step ev i (shared S) (tasks S ! k) = Next (m', l')"
  then show "event_laws ev vw \<longrightarrow> wake_inv vw \<lparr>shared = m', tasks = (tasks S)[k := l']\<rparr>"
    using wake_inv_act by blast
qed

subsection \<open>Properties\<close>

text \<open>A task at rest: no call of it is running and it owns nothing that it is about to drop.\<close>

definition lock_at_rest :: "'l lock \<Rightarrow> bool" where
  "lock_at_rest l = (case l of LNew \<Rightarrow> True | LSlow s \<Rightarrow> True | LHeld lo \<Rightarrow> lo = None
     | LDone lo \<Rightarrow> lo = None | _ \<Rightarrow> False)"

lemma owner_total: "totals lock_wt ts KOwner = card (mutex_owners ts)"
  unfolding mutex_owners_def card_indices totals_def
  by (rule wsum_cong) (use lock_owner_le_1 in \<open>auto simp: lock_wt_def le_Suc_eq\<close>)

lemma wake_inv_rest:
  assumes laws: "event_laws ev vw" and inv: "wake_inv vw S"
    and rest: "\<forall>t \<in> set (tasks S). lock_at_rest t" and free: "mutex_owners (tasks S) = {}"
    and susp: "k < length (tasks S)" "tasks S ! k = LSlow s"
  shows "\<exists>j < length (tasks S). \<exists>s' x. tasks S ! j = LSlow s' \<and> sl_listener s' = Some x \<and>
    x \<in> notified vw (lock_ops (shared S))"
proof -
  from free have "totals lock_wt (tasks S) KOwner = 0" by (simp add: owner_total)
  with inv have "even (unat (mstate (shared S)))"
    by (simp add: wake_inv_def counting_inv_def mutex_good_def mutex_ok_def)
  with inv have duty: "duty_done vw lock_listener waits carries (lock_ops (shared S)) (tasks S)"
    and own: "own_inv vw lock_listener (lock_ops (shared S)) (tasks S)" and wf: "lock_wf (tasks S ! k)"
    using susp(1) by (simp_all add: wake_inv_def counting_inv_def)
  have "\<forall>t \<in> set (tasks S). \<not> carries t"
    using rest by (auto simp: lock_at_rest_def carries_def split: lock.splits)
  from mtx_duty.duty_rest [OF laws own duty this susp(1) wf] susp(2) obtain j x where
    j: "j < length (tasks S)" "lock_listener (tasks S ! j) = Some x"
    and x: "x \<in> notified vw (lock_ops (shared S))"
    by (auto simp: waits_def)
  have "lock_at_rest (tasks S ! j)" using rest j(1) by simp
  with j(2) obtain s' where "tasks S ! j = LSlow s'" "sl_listener s' = Some x"
    by (auto simp: lock_at_rest_def lock_listener_def split: lock.splits)
  with j(1) x show ?thesis by blast
qed

text \<open>
  C7: no wake-up is lost. Whenever every task is at rest (not polled yet, suspended, or finished, and then
  without a listener that its completed or cancelled future still owns), nobody holds the mutex, and
  some lock operation is suspended, then the listener of some suspended lock operation has been
  notified: its task will be polled again. So lock operations cannot all sleep while the mutex is
  free, after any interleaving of polls, cancellations, timeouts and unlocks.
\<close>

theorem mutex_no_lost_wakeup:
  assumes laws: "event_laws ev vw"
    and reach: "mutex_reachable ev (fresh_event vw) S"
    and rest: "\<forall>t \<in> set (tasks S). lock_at_rest t"
    and free: "mutex_owners (tasks S) = {}"
    and susp: "k < length (tasks S)" "tasks S ! k = LSlow s"
  shows "\<exists>j < length (tasks S). \<exists>s' x. tasks S ! j = LSlow s' \<and> sl_listener s' = Some x \<and>
    x \<in> notified vw (lock_ops (shared S))"
proof -
  have "wake_inv vw S" using mtx_wake.reachable_inv [OF reach] laws by blast
  from wake_inv_rest [OF laws this rest free susp] show ?thesis .
qed

text \<open>The holder has unlocked; the two waiting operations are suspended, the first is notified.\<close>

definition demo_waiting :: "((qevent, nat) mutex, nat lock) sys" where
  "demo_waiting =
     \<lparr>shared = \<lparr>mstate = 0, lock_ops = [Some True, Some False], mdata = 9\<rparr>,
      tasks = [LDone None,
        LSlow \<lparr>sl_mutex = True, sl_listener = Some 0, sl_start = Some 5, sl_starved = False\<rparr>,
        LSlow \<lparr>sl_mutex = True, sl_listener = Some 1, sl_start = Some 6, sl_starved = False\<rparr>]\<rparr>"

lemma demo_waiting_run:
  "exec (lock_step queue_events) lock_fresh
     [Spawn LNew, Act 2 (Poll 6), Act 2 (Run 6), Act 2 (Run 6), Act 2 (Run 6), Act 2 (Run 6),
      Act 0 Unlock, Act 0 (Run 7)]
     demo_contended = Next demo_waiting"
  by (simp add: mutex_run_simps demo_contended_def demo_waiting_def)

lemma demo_waiting_reachable:
  "mutex_reachable queue_events (fresh_event queue_view) demo_waiting"
  by (rule exec_reachable [OF demo_waiting_run demo_contended_reachable])

theorem mutex_no_lost_wakeup_witness:
  "\<exists>j < length (tasks demo_waiting). \<exists>s x. tasks demo_waiting ! j = LSlow s \<and>
     sl_listener s = Some x \<and> x \<in> notified queue_view (lock_ops (shared demo_waiting))"
proof (rule mutex_no_lost_wakeup [OF queue_events_laws demo_waiting_reachable])
  show "\<forall>t \<in> set (tasks demo_waiting). lock_at_rest t"
    by (simp add: demo_waiting_def lock_at_rest_def)
  show "mutex_owners (tasks demo_waiting) = {}"
    by (simp add: demo_waiting_def mutex_owners_def indices_empty_iff lock_owner_def)
  show "1 < length (tasks demo_waiting)" by (simp add: demo_waiting_def)
  show "tasks demo_waiting ! 1 =
      LSlow \<lparr>sl_mutex = True, sl_listener = Some 0, sl_start = Some 5, sl_starved = False\<rparr>"
    by (simp add: demo_waiting_def)
qed

text \<open>
  C4: a suspended lock future is well formed, in every reachable state: it still has its reference to
  the mutex and the time of its first poll (so the \<open>expect\<close> and the \<open>unwrap\<close>s of its next poll
  succeed), and a listener that is registered with the event of the mutex and that no other task
  has.
\<close>

theorem lock_future_well_formed:
  assumes laws: "event_laws ev vw" and reach: "mutex_reachable ev (fresh_event vw) S"
    and k: "k < length (tasks S)" "tasks S ! k = LSlow s"
  shows "sl_mutex s \<and> sl_start s \<noteq> None \<and>
    (\<exists>x. sl_listener s = Some x \<and> x \<in> active vw (lock_ops (shared S)) \<and>
       {j. j < length (tasks S) \<and> lock_listener (tasks S ! j) = Some x} = {k})"
proof -
  have "wake_inv vw S" using mtx_wake.reachable_inv [OF reach] laws by blast
  then have own: "own_inv vw lock_listener (lock_ops (shared S)) (tasks S)" by (simp add: wake_inv_def)
  have wf: "lock_wf (LSlow s)" using mtx.reachable_wf [OF reach k(1)] k(2) by simp
  from wf obtain x where x: "sl_mutex s" "sl_start s \<noteq> None" "sl_listener s = Some x"
    by (auto simp: lock_wf_def)
  then have lst: "lock_listener (tasks S ! k) = Some x" by (simp add: k(2) lock_listener_def)
  have uniq: "j = k" if "j < length (tasks S)" and "lock_listener (tasks S ! j) = Some x" for j
    by (rule own_inv_unique [OF own that(1) k(1) that(2) lst])
  have "{j. j < length (tasks S) \<and> lock_listener (tasks S ! j) = Some x} = {k}"
    using k(1) lst by (auto dest: uniq)
  with x(3) own_inv_active [OF own k(1) lst] have "sl_listener s = Some x \<and> x \<in> active vw (lock_ops (shared S)) \<and>
      {j. j < length (tasks S) \<and> lock_listener (tasks S ! j) = Some x} = {k}" by (intro conjI)
  with x(1,2) show ?thesis by (intro conjI) (assumption+, rule exI)
qed

theorem lock_future_well_formed_witness:
  "{j. j < length (tasks demo_waiting) \<and> lock_listener (tasks demo_waiting ! j) = Some 1} = {2}"
proof -
  have "tasks demo_waiting ! 2 =
      LSlow \<lparr>sl_mutex = True, sl_listener = Some 1, sl_start = Some 6, sl_starved = False\<rparr>"
    by (simp add: demo_waiting_def)
  moreover have "2 < length (tasks demo_waiting)" by (simp add: demo_waiting_def)
  ultimately have "\<exists>x. Some 1 = Some x \<and>
      {j. j < length (tasks demo_waiting) \<and> lock_listener (tasks demo_waiting ! j) = Some x} = {2}"
    using lock_future_well_formed [OF queue_events_laws demo_waiting_reachable, of 2] by force
  then show ?thesis by simp
qed

end
