(* ===== verification/Event_Shares.thy ===== *)
theory Event_Shares
  imports Event_Interface "HOL-Library.Multiset"
begin

text \<open>
  How tasks use an event of which one task may own several listeners: those of completed futures
  that have not been dropped yet, beside the one it waits with. \<open>ev_share ev took e M e' M'\<close>: one
  operation of a task takes the event from \<open>e\<close> to \<open>e'\<close> and the listeners of the task from \<open>M\<close> to
  \<open>M'\<close>; \<open>took\<close> says that it has taken a notification. Under the event laws the registered listeners
  are exactly those the tasks own, each owned once (\<open>shares_inv\<close>).
\<close>

inductive ev_share ::
    "('e, 'l) event_ops \<Rightarrow> bool \<Rightarrow> 'e \<Rightarrow> 'l multiset \<Rightarrow> 'e \<Rightarrow> 'l multiset \<Rightarrow> bool"
  for ev where
  none: "ev_share ev False e M e M"
| listen: "ev_listen ev e = (l, e') \<Longrightarrow> ev_share ev False e M e' (add_mset l M)"
| notify: "ev_share ev False e M (ev_notify ev n e) M"
| pending: "l \<in># M \<Longrightarrow> ev_poll ev l e = (False, e') \<Longrightarrow> ev_share ev False e M e' M"
| ready: "l \<in># M \<Longrightarrow> ev_poll ev l e = (True, e') \<Longrightarrow> ev_share ev True e M e' (M - {#l#})"
| drop: "l \<in># M \<Longrightarrow> ev_share ev False e M (ev_drop ev l e) (M - {#l#})"

definition shares_inv ::
    "('e, 'l) event_view \<Rightarrow> ('t \<Rightarrow> 'l multiset) \<Rightarrow> 'e \<Rightarrow> 't list \<Rightarrow> bool" where
  "shares_inv vw shr e ts \<longleftrightarrow> (\<Sum>t\<leftarrow>ts. shr t) = mset_set (active vw e)"

lemma shares_inv_Nil: "fresh_event vw e \<Longrightarrow> shares_inv vw shr e []"
  by (simp add: shares_inv_def fresh_event_def)

lemma shares_inv_snoc: "shr t = {#} \<Longrightarrow> shares_inv vw shr e ts \<Longrightarrow> shares_inv vw shr e (ts @ [t])"
  by (simp add: shares_inv_def)

lemma share_member:
  fixes shr :: "'t \<Rightarrow> 'l multiset"
  shows "k < length ts \<Longrightarrow> x \<in># shr (ts ! k) \<Longrightarrow> x \<in># (\<Sum>t\<leftarrow>ts. shr t)"
  by (induction ts arbitrary: k) (auto simp: nth_Cons split: nat.splits)

lemma share_owner:
  fixes shr :: "'t \<Rightarrow> 'l multiset"
  shows "x \<in># (\<Sum>t\<leftarrow>ts. shr t) \<Longrightarrow> \<exists>k < length ts. x \<in># shr (ts ! k)"
proof (induction ts)
  case (Cons t ts)
  then consider "x \<in># shr t" | k where "k < length ts" "x \<in># shr (ts ! k)" by auto
  then show ?case
  proof cases
    case 1
    then show ?thesis by (intro exI [of _ 0]) simp
  next
    case 2
    then show ?thesis by (intro exI [of _ "Suc k"]) simp
  qed
qed simp

lemma shares_inv_active:
  assumes "event_laws ev vw" and "shares_inv vw shr e ts" and "k < length ts" and "x \<in># shr (ts ! k)"
  shows "x \<in> active vw e"
proof -
  have "finite (active vw e)" using assms(1) by (simp add: event_laws_def view_law_def)
  with assms(2) share_member [of k ts x shr, OF assms(3,4)] show ?thesis by (simp add: shares_inv_def)
qed

lemma shares_inv_owner:
  assumes "event_laws ev vw" and "shares_inv vw shr e ts" and "x \<in> active vw e"
  shows "\<exists>k < length ts. x \<in># shr (ts ! k)"
proof -
  have "finite (active vw e)" using assms(1) by (simp add: event_laws_def view_law_def)
  with assms(2,3) have "x \<in># (\<Sum>t\<leftarrow>ts. shr t)" by (simp add: shares_inv_def)
  then show ?thesis by (rule share_owner)
qed

lemma shares_update:
  fixes shr :: "'t \<Rightarrow> 'l multiset"
  shows "k < length ts \<Longrightarrow> (\<Sum>t\<leftarrow>ts[k := t']. shr t) + shr (ts ! k) = (\<Sum>t\<leftarrow>ts. shr t) + shr t'"
proof (induction ts arbitrary: k)
  case Nil
  then show ?case by simp
next
  case (Cons u us)
  show ?case
  proof (cases k)
    case 0
    then show ?thesis by (simp add: union_commute union_lcomm)
  next
    case (Suc j)
    with Cons.IH [of j] Cons.prems show ?thesis by (simp add: union_assoc)
  qed
qed

lemma shares_inv_step:
  assumes laws: "event_laws ev vw" and inv: "shares_inv vw shr e ts" and k: "k < length ts"
    and eff: "ev_share ev took e (shr (ts ! k)) e' (shr t')"
  shows "shares_inv vw shr e' (ts[k := t'])"
proof -
  let ?M = "\<Sum>t\<leftarrow>ts. shr t" and ?M' = "\<Sum>t\<leftarrow>ts[k := t']. shr t"
  have fin: "finite (active vw x)" for x using laws by (simp add: event_laws_def view_law_def)
  have M: "?M = mset_set (active vw e)" using inv by (simp add: shares_inv_def)
  note upd = shares_update [OF k, where t' = t' and shr = shr]
  have act: "l \<in> active vw e" if "l \<in># shr (ts ! k)" for l
    by (rule shares_inv_active [OF laws inv k that])
  have gone: "?M' = mset_set (active vw e - {l})"
    if "l \<in># shr (ts ! k)" and "shr t' = shr (ts ! k) - {#l#}" for l
  proof -
    have "?M' + shr (ts ! k) = ?M + (shr (ts ! k) - {#l#})" using upd that(2) by simp
    also have "\<dots> = (?M - {#l#}) + shr (ts ! k)"
      using that(1) share_member [of k ts l shr, OF k that(1)]
      by (simp add: multiset_eq_iff)
    finally have "?M' = ?M - {#l#}" by simp
    with M fin act [OF that(1)] show ?thesis by (simp add: mset_set_Diff)
  qed
  from eff have "?M' = mset_set (active vw e')"
  proof cases
    case none
    with upd M show ?thesis by simp
  next
    case (listen l)
    with listenD [OF laws listen(3)] fin [of e] upd M show ?thesis by simp
  next
    case (notify n)
    with upd M notify_active [OF laws, of n e] show ?thesis by simp
  next
    case (pending l)
    with pollD(2) [OF laws act [OF pending(3)] pending(4)] upd M show ?thesis by simp
  next
    case (ready l)
    with pollD(2) [OF laws act [OF ready(3)] ready(4)] gone [OF ready(3,2)] show ?thesis by simp
  next
    case (drop l)
    with dropD(1) [OF laws act [OF drop(4)]] gone [OF drop(4,3)] show ?thesis by simp
  qed
  then show ?thesis by (simp add: shares_inv_def)
qed

text \<open>An operation that takes no notification leaves one, while a listener is registered.\<close>

lemma ev_share_notified:
  assumes laws: "event_laws ev vw" and eff: "ev_share ev False e M e' M'"
    and act: "\<And>l. l \<in># M \<Longrightarrow> l \<in> active vw e"
    and some: "notified vw e \<noteq> {}" and reg: "active vw e' \<noteq> {}"
  shows "notified vw e' \<noteq> {}"
  using eff
proof cases
  case none
  with some show ?thesis by simp
next
  case (listen l)
  with some listenD(3) [OF laws listen(2)] show ?thesis by simp
next
  case (notify n)
  with some notify_keeps [OF laws] show ?thesis by blast
next
  case (pending l)
  with some pollD(3) [OF laws act [OF pending(2)] pending(3)] show ?thesis by simp
next
  case (drop l)
  note d = dropD [OF laws act [OF drop(3)]]
  show ?thesis
  proof (cases "l \<in> notified vw e")
    case True
    with d(1,4) reg drop(1) show ?thesis by simp
  next
    case False
    with d(3) some drop(1) show ?thesis by simp
  qed
qed simp

subsection \<open>Moves\<close>

text \<open>
  One operation of a task on an event; if it takes a notification then \<open>c\<close> holds of the task
  afterwards: it passes the notification on or looks at the shared state again.
\<close>

definition share_move ::
    "('e, 'l) event_ops \<Rightarrow> bool \<Rightarrow> 'e \<Rightarrow> 'l multiset \<Rightarrow> 'e \<Rightarrow> 'l multiset \<Rightarrow> bool" where
  "share_move ev c e M e' M' \<longleftrightarrow> (\<exists>took. ev_share ev took e M e' M' \<and> (took \<longrightarrow> c))"

lemma share_move_none: "e' = e \<Longrightarrow> M' = M \<Longrightarrow> share_move ev c e M e' M'"
  unfolding share_move_def by (rule exI [of _ False]) (simp add: ev_share.none)

lemma share_move_listen: "ev_listen ev e = (l, e') \<Longrightarrow> M' = add_mset l M \<Longrightarrow> share_move ev c e M e' M'"
  using ev_share.listen by (fastforce simp: share_move_def)

lemma share_move_notify: "e' = ev_notify ev n e \<Longrightarrow> M' = M \<Longrightarrow> share_move ev c e M e' M'"
  using ev_share.notify by (fastforce simp: share_move_def)

lemma share_move_poll:
  assumes "ev_poll ev l e = (r, e')" and "l \<in># M" and "M' = (if r then M - {#l#} else M)" and "r \<longrightarrow> c"
  shows "share_move ev c e M e' M'"
  using assms ev_share.pending ev_share.ready by (cases r) (fastforce simp: share_move_def)+

lemma share_move_drop:
  "e' = ev_drop ev l e \<Longrightarrow> l \<in># M \<Longrightarrow> M' = M - {#l#} \<Longrightarrow> share_move ev c e M e' M'"
  using ev_share.drop by (fastforce simp: share_move_def)

lemma shares_inv_move:
  assumes "event_laws ev vw" and "shares_inv vw shr e ts" and "k < length ts"
    and "share_move ev c e (shr (ts ! k)) e' (shr t')"
  shows "shares_inv vw shr e' (ts[k := t'])"
  using shares_inv_step [OF assms(1-3)] assms(4) unfolding share_move_def by blast

subsection \<open>No wake-up is lost\<close>

text \<open>
  The duty: while a task waits, some listener is notified or some task carries, that is, it will
  notify or look at the shared state again. Compare \<open>wakeup_duty\<close>, for tasks with one listener each.
\<close>

definition share_done ::
    "('e, 'l) event_view \<Rightarrow> ('t \<Rightarrow> bool) \<Rightarrow> ('t \<Rightarrow> bool) \<Rightarrow> 'e \<Rightarrow> 't list \<Rightarrow> bool" where
  "share_done vw waits carries e ts \<longleftrightarrow> (\<exists>t \<in> set ts. waits t) \<longrightarrow>
     notified vw e \<noteq> {} \<or> (\<exists>t \<in> set ts. carries t)"

locale share_duty =
  fixes shr :: "'t \<Rightarrow> 'l multiset"
    and waits :: "'t \<Rightarrow> bool"
    and carries :: "'t \<Rightarrow> bool"
    and twf :: "'t \<Rightarrow> bool"
  assumes waits_share: "waits t \<Longrightarrow> twf t \<Longrightarrow> \<exists>x. x \<in># shr t"
begin

lemma done_Nil: "share_done vw waits carries e []"
  by (simp add: share_done_def)

lemma done_snoc:
  "\<not> waits t \<Longrightarrow> share_done vw waits carries e ts \<Longrightarrow> share_done vw waits carries e (ts @ [t])"
  by (auto simp: share_done_def)

lemma done_carrier: "k < length ts \<Longrightarrow> carries t' \<Longrightarrow> share_done vw waits carries e (ts[k := t'])"
  using set_update_memI [of k ts t'] unfolding share_done_def by blast

text \<open>A step that notifies, or of a task that does not carry and waits only if it did before.\<close>

lemma done_act:
  assumes laws: "event_laws ev vw" and own: "shares_inv vw shr e ts"
    and own': "shares_inv vw shr e' (ts[k := t'])" and k: "k < length ts"
    and wf: "\<forall>t \<in> set (ts[k := t']). twf t"
    and move: "share_move ev (carries t') e (shr (ts ! k)) e' (shr t')"
    and step: "e' = ev_notify ev 1 e \<or>
      share_done vw waits carries e ts \<and> \<not> carries (ts ! k) \<and> (waits t' \<longrightarrow> waits (ts ! k))"
  shows "share_done vw waits carries e' (ts[k := t'])"
proof (cases "carries t' \<or> (\<forall>t \<in> set (ts[k := t']). \<not> waits t)")
  case True
  then show ?thesis
  proof
    assume "carries t'"
    from done_carrier [OF k this] show ?thesis .
  qed (simp add: share_done_def)
next
  case False
  then obtain w where w: "w < length ts" "waits (ts[k := t'] ! w)" by (metis in_set_conv_nth length_list_update)
  with wf have "twf (ts[k := t'] ! w)" by simp
  with waits_share w obtain x where "x \<in># shr (ts[k := t'] ! w)" by blast
  with shares_inv_active [OF laws own'] w(1) have reg: "x \<in> active vw e'" by simp
  from step show ?thesis
  proof (elim disjE conjE)
    assume "e' = ev_notify ev 1 e"
    with reg notify_one [OF laws] notify_active [OF laws] show ?thesis by (metis share_done_def)
  next
    assume old: "share_done vw waits carries e ts" and quiet: "\<not> carries (ts ! k)"
      and "waits t' \<longrightarrow> waits (ts ! k)"
    with w k have "\<exists>t \<in> set ts. waits t" by (cases "w = k") (auto intro: nth_mem)
    with old consider "notified vw e \<noteq> {}" | c where "c < length ts" "carries (ts ! c)"
      by (metis share_done_def in_set_conv_nth)
    then show ?thesis
    proof cases
      case 1
      from move False have "ev_share ev False e (shr (ts ! k)) e' (shr t')" by (auto simp: share_move_def)
      from ev_share_notified [OF laws this _ 1] shares_inv_active [OF laws own k] reg
      show ?thesis by (auto simp: share_done_def)
    next
      case 2
      with quiet have "c \<noteq> k" by auto
      with 2 nth_mem [of c "ts[k := t']"] show ?thesis by (auto simp: share_done_def)
    qed
  qed
qed

text \<open>At rest nobody carries: the listener of some task is notified.\<close>

lemma done_rest:
  assumes laws: "event_laws ev vw" and own: "shares_inv vw shr e ts"
    and "share_done vw waits carries e ts" and "\<forall>t \<in> set ts. \<not> carries t"
    and "k < length ts" and "waits (ts ! k)"
  shows "\<exists>j < length ts. \<exists>x. x \<in># shr (ts ! j) \<and> x \<in> notified vw e"
proof -
  from assms(3-6) nth_mem obtain x where x: "x \<in> notified vw e" by (fastforce simp: share_done_def)
  with shares_inv_owner [OF laws own notified_active [OF laws x]] show ?thesis by blast
qed

end

end
