(* ===== verification/RawRwLock_Wakeup.thy ===== *)
theory RawRwLock_Wakeup
  imports RawRwLock_Props Mutex_Wakeup Event_Shares
begin

text \<open>
  A writer is not stranded. A task that has set the writer bit waits for the readers to leave, with a
  listener of \<open>no_readers\<close>; the last reader notifies it. The invariant, under the event laws: while
  the state word is \<open>WRITER_BIT\<close> and a task waits for readers, some listener of \<open>no_readers\<close> is
  notified, or some task is about to notify or to look at the state word.
\<close>

subsection \<open>The listeners of \<open>no_readers\<close>\<close>

text \<open>The listeners of one of the three events that completed futures still own.\<close>

definition left_on :: "rw_event \<Rightarrow> 'l leftovers \<Rightarrow> 'l multiset" where
  "left_on w lo = mset (map snd (filter (\<lambda>p. fst p = w) lo))"

abbreviation on_readers :: "'l leftovers \<Rightarrow> 'l multiset" where
  "on_readers \<equiv> left_on OnReaders"

definition opt_mset :: "'l option \<Rightarrow> 'l multiset" where
  "opt_mset lo = (case lo of None \<Rightarrow> {#} | Some l \<Rightarrow> {#l#})"

lemma opt_mset_simps [simp]: "opt_mset None = {#}" "opt_mset (Some l) = {#l#}"
  by (simp_all add: opt_mset_def)

lemma left_on_simps [simp]:
  "left_on w [] = {#}" "left_on w (xs @ ys) = left_on w xs + left_on w ys"
  "left_on w (left v lo) = (if v = w then opt_mset lo else {#})"
  by (simp_all add: left_on_def left_def opt_mset_def split: option.splits)

definition shr :: "'l rw \<Rightarrow> 'l multiset" where
  "shr t = (case t of
     RWriteSet l nr st \<Rightarrow> opt_mset nr | RWrite pc nr \<Rightarrow> opt_mset nr
   | RUpgrade pc listener lo \<Rightarrow> opt_mset listener + on_readers lo
   | RReader lo \<Rightarrow> on_readers lo | RUpgradable lo \<Rightarrow> on_readers lo | RWriter lo \<Rightarrow> on_readers lo
   | RReadUnlockNotify lo \<Rightarrow> on_readers lo | RUpUnlockNotify lo \<Rightarrow> on_readers lo
   | RWriteUnlockNotify lo \<Rightarrow> on_readers lo | RUnlockMutex lo \<Rightarrow> on_readers lo
   | RUnlockMutexNotify lo \<Rightarrow> on_readers lo | RDownWriteMutex lo \<Rightarrow> on_readers lo
   | RDownWriteMutexNotify lo \<Rightarrow> on_readers lo | RDownWriteNotify lo \<Rightarrow> on_readers lo
   | RDownUpNotify lo \<Rightarrow> on_readers lo | RDone lo \<Rightarrow> on_readers lo | _ \<Rightarrow> {#})"

text \<open>Waiting for readers: suspended, or will suspend unless the listener is notified.\<close>

definition drain_waits :: "'l rw \<Rightarrow> bool" where
  "drain_waits t = (case t of
     RWrite pc nr \<Rightarrow> pc = DrWait \<or> pc = DrSleep
   | RUpgrade pc listener lo \<Rightarrow> pc = DrWait \<or> pc = DrSleep
   | _ \<Rightarrow> False)"

text \<open>About to notify \<open>no_readers\<close>, or to look at the state word before it can suspend.\<close>

definition drain_carries :: "'l rw \<Rightarrow> bool" where
  "drain_carries t = (case t of
     RWrite pc nr \<Rightarrow> pc = DrLoad \<or> pc = DrListen
   | RUpgrade pc listener lo \<Rightarrow> pc = DrLoad \<or> pc = DrListen
   | RReadUnlockNotify lo \<Rightarrow> True | RUpUnlockNotify lo \<Rightarrow> True
   | _ \<Rightarrow> False)"

lemma shr_simps [simp]:
  "shr RTryRead = {#}" "shr (RTryReadCas st) = {#}" "shr RReadCall = {#}" "shr (RRead rpc r) = {#}"
  "shr RTryUp = {#}" "shr RTryUpLoad = {#}" "shr (RTryUpCas st) = {#}" "shr (RUpLock l) = {#}"
  "shr (RUpLoad o1) = {#}" "shr (RUpCas st o1) = {#}" "shr RTryWrite = {#}" "shr RTryWriteCas = {#}"
  "shr (RWriteLock l) = {#}" "shr (RWriteOr o1) = {#}" "shr (RWriteListen o1) = {#}"
  "shr (RWriteSet x nr ws) = opt_mset nr" "shr (RWrite pc nr) = opt_mset nr"
  "shr (RUpgrade pc nr lo) = opt_mset nr + on_readers lo"
  "shr (RReader lo) = on_readers lo" "shr (RUpgradable lo) = on_readers lo"
  "shr (RWriter lo) = on_readers lo" "shr (RReadUnlockNotify lo) = on_readers lo"
  "shr (RUpUnlockNotify lo) = on_readers lo" "shr (RWriteUnlockNotify lo) = on_readers lo"
  "shr (RUnlockMutex lo) = on_readers lo" "shr (RUnlockMutexNotify lo) = on_readers lo"
  "shr (RDownWriteMutex lo) = on_readers lo" "shr (RDownWriteMutexNotify lo) = on_readers lo"
  "shr (RDownWriteNotify lo) = on_readers lo" "shr (RDownUpNotify lo) = on_readers lo"
  "shr (RDone lo) = on_readers lo"
  by (simp_all add: shr_def)

lemma drain_waits_simps [simp]:
  "drain_waits (RWrite pc nr) \<longleftrightarrow> pc = DrWait \<or> pc = DrSleep"
  "drain_waits (RUpgrade pc nr lo) \<longleftrightarrow> pc = DrWait \<or> pc = DrSleep"
  "\<not> drain_waits RTryRead" "\<not> drain_waits (RTryReadCas st)" "\<not> drain_waits RReadCall"
  "\<not> drain_waits (RRead rpc r)" "\<not> drain_waits RTryUp" "\<not> drain_waits RTryUpLoad"
  "\<not> drain_waits (RTryUpCas st)" "\<not> drain_waits (RUpLock l)" "\<not> drain_waits (RUpLoad o1)"
  "\<not> drain_waits (RUpCas st o1)" "\<not> drain_waits RTryWrite" "\<not> drain_waits RTryWriteCas"
  "\<not> drain_waits (RWriteLock l)" "\<not> drain_waits (RWriteOr o1)" "\<not> drain_waits (RWriteListen o1)"
  "\<not> drain_waits (RWriteSet x nr ws)" "\<not> drain_waits (RReader lo)" "\<not> drain_waits (RUpgradable lo)"
  "\<not> drain_waits (RWriter lo)" "\<not> drain_waits (RReadUnlockNotify lo)"
  "\<not> drain_waits (RUpUnlockNotify lo)" "\<not> drain_waits (RWriteUnlockNotify lo)"
  "\<not> drain_waits (RUnlockMutex lo)" "\<not> drain_waits (RUnlockMutexNotify lo)"
  "\<not> drain_waits (RDownWriteMutex lo)" "\<not> drain_waits (RDownWriteMutexNotify lo)"
  "\<not> drain_waits (RDownWriteNotify lo)" "\<not> drain_waits (RDownUpNotify lo)" "\<not> drain_waits (RDone lo)"
  by (simp_all add: drain_waits_def)

lemma drain_carries_simps [simp]:
  "drain_carries (RWrite pc nr) \<longleftrightarrow> pc = DrLoad \<or> pc = DrListen"
  "drain_carries (RUpgrade pc nr lo) \<longleftrightarrow> pc = DrLoad \<or> pc = DrListen"
  "drain_carries (RReadUnlockNotify lo)" "drain_carries (RUpUnlockNotify lo)"
  "\<not> drain_carries RTryRead" "\<not> drain_carries (RTryReadCas st)" "\<not> drain_carries RReadCall"
  "\<not> drain_carries (RRead rpc r)" "\<not> drain_carries RTryUp" "\<not> drain_carries RTryUpLoad"
  "\<not> drain_carries (RTryUpCas st)" "\<not> drain_carries (RUpLock l)" "\<not> drain_carries (RUpLoad o1)"
  "\<not> drain_carries (RUpCas st o1)" "\<not> drain_carries RTryWrite" "\<not> drain_carries RTryWriteCas"
  "\<not> drain_carries (RWriteLock l)" "\<not> drain_carries (RWriteOr o1)" "\<not> drain_carries (RWriteListen o1)"
  "\<not> drain_carries (RWriteSet x nr ws)" "\<not> drain_carries (RReader lo)"
  "\<not> drain_carries (RUpgradable lo)" "\<not> drain_carries (RWriter lo)"
  "\<not> drain_carries (RWriteUnlockNotify lo)" "\<not> drain_carries (RUnlockMutex lo)"
  "\<not> drain_carries (RUnlockMutexNotify lo)" "\<not> drain_carries (RDownWriteMutex lo)"
  "\<not> drain_carries (RDownWriteMutexNotify lo)" "\<not> drain_carries (RDownWriteNotify lo)"
  "\<not> drain_carries (RDownUpNotify lo)" "\<not> drain_carries (RDone lo)"
  by (simp_all add: drain_carries_def)

lemma drain_waits_role: "drain_waits t \<Longrightarrow> role t = Wt"
  by (cases t) auto

lemma drain_waits_listener: "drain_waits t \<Longrightarrow> rw_wf t \<Longrightarrow> \<exists>x. x \<in># shr t"
  by (cases t) (auto simp: drain_wf_def)

subsection \<open>What a step does with its listeners\<close>

text \<open>
  One operation on \<open>no_readers\<close>. A step that takes a notification looks at the state word next, one
  that leaves \<open>no_readers\<close> alone does not change the listeners of the task.
\<close>

definition drain_move :: "('e, 'l) event_ops \<Rightarrow> 'e raw_rwlock \<Rightarrow> 'l rw \<Rightarrow> 'e raw_rwlock \<Rightarrow> 'l rw \<Rightarrow> bool" where
  "drain_move ev s t s' t' \<longleftrightarrow>
     share_move ev (drain_carries t') (no_readers s) (shr t) (no_readers s') (shr t')"

lemma drain_move_none:
  "no_readers s' = no_readers s \<Longrightarrow> shr t' = shr t \<Longrightarrow> drain_move ev s t s' t'"
  by (simp add: drain_move_def share_move_none)

lemma drain_moves:
  "ev_listen ev (no_readers s) = (l, no_readers s') \<Longrightarrow> shr t' = add_mset l (shr t) \<Longrightarrow> drain_move ev s t s' t'"
  "no_readers s' = ev_notify ev n (no_readers s) \<Longrightarrow> shr t' = shr t \<Longrightarrow> drain_move ev s t s' t'"
  "ev_poll ev l (no_readers s) = (r, no_readers s') \<Longrightarrow> l \<in># shr t \<Longrightarrow>
   shr t' = (if r then shr t - {#l#} else shr t) \<Longrightarrow> r \<longrightarrow> drain_carries t' \<Longrightarrow> drain_move ev s t s' t'"
  unfolding drain_move_def by (fact share_move_listen share_move_notify share_move_poll)+

lemma left_on_remove:
  assumes "j < length lo"
  shows "left_on w (take j lo @ drop (Suc j) lo) =
    (if fst (lo ! j) = w then left_on w lo - {#snd (lo ! j)#} else left_on w lo)"
    and "fst (lo ! j) = w \<Longrightarrow> snd (lo ! j) \<in># left_on w lo"
proof -
  have lo: "left_on w lo = left_on w (take j lo @ lo ! j # drop (Suc j) lo)"
    using id_take_nth_drop [OF assms] by simp
  also have "\<dots> = left_on w (take j lo @ drop (Suc j) lo) +
      (if fst (lo ! j) = w then {#snd (lo ! j)#} else {#})"
    by (simp add: left_on_def)
  finally have eq: "left_on w lo = left_on w (take j lo @ drop (Suc j) lo) +
      (if fst (lo ! j) = w then {#snd (lo ! j)#} else {#})" .
  then show "left_on w (take j lo @ drop (Suc j) lo) =
    (if fst (lo ! j) = w then left_on w lo - {#snd (lo ! j)#} else left_on w lo)"
    by simp
  show "fst (lo ! j) = w \<Longrightarrow> snd (lo ! j) \<in># left_on w lo"
    by (subst eq) simp
qed

text \<open>The event with a given name, and what dropping a leftover listener does with it.\<close>

definition event_at :: "rw_event \<Rightarrow> 'e raw_rwlock \<Rightarrow> 'e" where
  "event_at w s = (case w of
     OnMutex \<Rightarrow> lock_ops (rmutex s) | OnReaders \<Rightarrow> no_readers s | OnWriter \<Rightarrow> no_writer s)"

lemma event_at_drop_on:
  "event_at w (drop_on ev v l s) = (if v = w then ev_drop ev l (event_at w s) else event_at w s)"
  by (cases v; cases w) (simp_all add: event_at_def drop_on_def on_mutex_def)

lemma drop_left_share:
  assumes step: "drop_left ev j s lo C = Next (s', t')" and shr: "\<And>xs. f (C xs) = M + left_on w xs"
  shows "share_move ev c (event_at w s) (f (C lo)) (event_at w s') (f t')"
proof -
  from step have j: "j < length lo" and s': "s' = drop_on ev (fst (lo ! j)) (snd (lo ! j)) s"
    and t': "t' = C (take j lo @ drop (Suc j) lo)"
    by (auto simp: drop_left_def split: if_splits)
  note rm = left_on_remove [OF j, of w]
  show ?thesis
  proof (cases "fst (lo ! j) = w")
    case True
    with rm show ?thesis
      by (intro share_move_drop) (simp_all add: s' t' shr event_at_drop_on del: left_on_simps(2))
  next
    case False
    with rm show ?thesis
      by (intro share_move_none) (simp_all add: s' t' shr event_at_drop_on del: left_on_simps(2))
  qed
qed

lemma drop_left_drain:
  "drop_left ev j s lo C = Next (s', t') \<Longrightarrow> (\<And>xs. shr (C xs) = M + on_readers xs) \<Longrightarrow>
   drain_move ev s (C lo) s' t'"
  unfolding drain_move_def by (drule drop_left_share [where f = shr and w = OnReaders]) (simp_all add: event_at_def)

lemma drop_left_shares:
  "drop_left ev j s lo RReader = Next (s', t') \<Longrightarrow> drain_move ev s (RReader lo) s' t'"
  "drop_left ev j s lo RUpgradable = Next (s', t') \<Longrightarrow> drain_move ev s (RUpgradable lo) s' t'"
  "drop_left ev j s lo RWriter = Next (s', t') \<Longrightarrow> drain_move ev s (RWriter lo) s' t'"
  "drop_left ev j s lo RDone = Next (s', t') \<Longrightarrow> drain_move ev s (RDone lo) s' t'"
  by (rule drop_left_drain [where M = "{#}"], assumption, simp)+

lemma drop_left_upgrade:
  "drop_left ev j s lo (RUpgrade pc nr) = Next (s', t') \<Longrightarrow> drain_move ev s (RUpgrade pc nr lo) s' t'"
  by (rule drop_left_drain [where M = "opt_mset nr"], assumption, simp)

lemma write_step_drain:
  assumes "write_step ev pc s nr = Next (s', t')" and "drain_wf pc nr"
  shows "drain_move ev s (RWrite pc nr) s' t'"
proof (cases pc)
  case DrListen
  obtain l e where l: "ev_listen ev (no_readers s) = (l, e)" by fastforce
  with DrListen assms show ?thesis
    by (intro drain_moves(1) [where l = l]) (auto simp: drain_wf_def)
next
  case DrWait
  with assms obtain x where x: "nr = Some x" by (auto simp: drain_wf_def)
  obtain r e where p: "ev_poll ev x (no_readers s) = (r, e)" by fastforce
  with DrWait x assms show ?thesis
    by (intro drain_moves(3) [where l = x and r = r]) (auto split: if_splits)
qed (use assms in \<open>auto intro!: drain_move_none split: if_splits\<close>)

lemma upgrade_step_drain:
  assumes "upgrade_step ev pc s nr lo = Next (s', t')" and "drain_wf pc nr"
  shows "drain_move ev s (RUpgrade pc nr lo) s' t'"
proof (cases pc)
  case DrListen
  obtain l e where l: "ev_listen ev (no_readers s) = (l, e)" by fastforce
  with DrListen assms show ?thesis
    by (intro drain_moves(1) [where l = l]) (auto simp: drain_wf_def)
next
  case DrWait
  with assms obtain x where x: "nr = Some x" by (auto simp: drain_wf_def)
  obtain r e where p: "ev_poll ev x (no_readers s) = (r, e)" by fastforce
  with DrWait x assms show ?thesis
    by (intro drain_moves(3) [where l = x and r = r]) (auto split: if_splits)
qed (use assms in \<open>auto intro!: drain_move_none split: if_splits\<close>)

lemma read_head_shr: "read_head r = Next t \<Longrightarrow> shr t = {#}" "try_read_head st = Next t \<Longrightarrow> shr t = {#}"
  by (auto simp: read_head_def try_read_head_def split: if_splits)

lemma read_step_drain:
  "read_step ev pc s r = Next (s', t') \<Longrightarrow> drain_move ev s (RRead pc r) s' t'"
  by (cases pc)
     (auto simp: stay_Next Let_def intro!: drain_move_none dest: read_head_shr
       split: prod.splits sum.splits option.splits if_splits)

lemma guard_steps_drain:
  "reader_step ev i s lo = Next (s', t') \<Longrightarrow> drain_move ev s (RReader lo) s' t'"
  "upgradable_step ev i s lo = Next (s', t') \<Longrightarrow> drain_move ev s (RUpgradable lo) s' t'"
  "writer_step ev i s lo = Next (s', t') \<Longrightarrow> drain_move ev s (RWriter lo) s' t'"
  subgoal
    by (auto simp: reader_step_def read_unlock_def Let_def fetch_sub_def intro!: drain_move_none
        elim!: drop_left_shares split: rw_in.splits if_splits)
  subgoal
    by (auto simp: upgradable_step_def upgradable_read_unlock_def downgrade_upgradable_read_def
        try_upgrade_def upgrade_def on_mutex_def fetch_sub_def Let_def intro!: drain_move_none
        elim!: drop_left_shares split: rw_in.splits if_splits prod.splits)
  subgoal
    by (auto simp: writer_step_def write_unlock_def downgrade_write_def downgrade_to_upgradable_def
        intro!: drain_move_none elim!: drop_left_shares split: rw_in.splits if_splits)
  done

lemma rw_step_drain:
  assumes step: "rw_step ev i s t = Next (s', t')" and wf: "rw_wf t"
  shows "drain_move ev s t s' t'"
proof (cases t)
  case (RRead pc r)
  with step show ?thesis
    by (auto simp: rw_step_def run_only_Next stay_Next intro!: drain_move_none
        dest: read_head_shr elim!: read_step_drain split: rw_in.splits if_splits)
next
  case (RTryReadCas st)
  with step show ?thesis
    by (auto simp: rw_step_def run_only_Next try_read_cas_def stay_Next Let_def intro!: drain_move_none
        dest: read_head_shr split: sum.splits prod.splits)
next
  case RTryRead
  with step show ?thesis
    by (auto simp: rw_step_def run_only_Next try_read_load_def stay_Next intro!: drain_move_none
        dest: read_head_shr)
next
  case (RUpLock l)
  with step wf show ?thesis
    by (auto simp: rw_step_def intro!: drain_move_none elim!: up_lock_stepE split: option.splits)
next
  case (RWriteLock l)
  with step wf show ?thesis
    by (auto simp: rw_step_def intro!: drain_move_none elim!: write_lock_stepE split: option.splits)
next
  case (RWrite pc nr)
  with step wf show ?thesis
    by (auto simp: rw_step_def run_only_Next write_unlock_def intro!: drain_move_none
        elim!: write_step_drain split: rw_in.splits if_splits)
next
  case (RUpgrade pc listener lo)
  with step wf show ?thesis
    by (auto simp: rw_step_def run_only_Next write_unlock_def intro!: drain_move_none
        elim!: upgrade_step_drain drop_left_upgrade split: rw_in.splits if_splits)
next
  case (RWriteOr lo)
  with step show ?thesis
    by (auto simp: rw_step_def run_only_Next write_or_def write_set_def write_enter_def Let_def
        intro!: drain_move_none split: prod.splits option.splits if_splits)
next
  case (RWriteListen lo)
  obtain l e where "ev_listen ev (no_readers s) = (l, e)" by fastforce
  with RWriteListen step show ?thesis
    by (intro drain_moves(1) [where l = l])
       (auto simp: rw_step_def run_only_Next write_listen_def write_set_def write_enter_def
         split: option.splits)
next
  case (RWriteSet l nr ws)
  with step show ?thesis
    by (auto simp: rw_step_def run_only_Next write_drop_lock_def write_enter_def on_mutex_def
        intro!: drain_move_none split: write_state.splits)
next
  case (RReadUnlockNotify lo)
  with step show ?thesis
    by (auto simp: rw_step_def run_only_Next notify_no_readers_def intro: drain_moves(2))
next
  case (RUpUnlockNotify lo)
  with step show ?thesis
    by (auto simp: rw_step_def run_only_Next notify_no_readers_def intro: drain_moves(2))
qed (use step in \<open>auto simp: rw_step_def run_only_Next stay_Next guard_steps_drain Let_def
      try_upgradable_read_def try_upgradable_load_def try_upgradable_cas_def up_load_def up_cas_def
      try_write_def try_write_cas_def notify_no_writer_def on_mutex_def
      intro!: drain_move_none elim!: drop_left_shares
      split: rw_in.splits if_splits prod.splits sum.splits\<close>)

subsection \<open>What a step does with the duty\<close>

text \<open>
  If the task does not carry afterwards: it has just notified; or there are readers or no writer; or
  it has the mutex and does not wait, so nobody waits; or it did not carry before and waits only if
  it already did.
\<close>

definition duty_move :: "('e, 'l) event_ops \<Rightarrow> 'e raw_rwlock \<Rightarrow> 'l rw \<Rightarrow> 'e raw_rwlock \<Rightarrow> 'l rw \<Rightarrow> bool" where
  "duty_move ev s t s' t' \<longleftrightarrow> drain_carries t' \<or>
     no_readers s' = ev_notify ev 1 (no_readers s) \<or> rstate s' \<noteq> 1 \<or>
     (role t \<notin> {Idle, Rd} \<and> \<not> drain_waits t') \<or>
     (\<not> drain_carries t \<and> rstate s' = rstate s \<and> (drain_waits t' \<longrightarrow> drain_waits t))"

lemma duty_move_mutex: "role t \<notin> {Idle, Rd} \<Longrightarrow> \<not> drain_waits t' \<Longrightarrow> duty_move ev s t s' t'"
  by (simp add: duty_move_def)

lemma duty_move_stay:
  "\<not> drain_carries t \<Longrightarrow> rstate s' = rstate s \<Longrightarrow> (drain_waits t' \<Longrightarrow> drain_waits t) \<Longrightarrow> duty_move ev s t s' t'"
  by (simp add: duty_move_def)

lemma duty_move_carries: "drain_carries t' \<Longrightarrow> duty_move ev s t s' t'"
  by (simp add: duty_move_def)

lemma duty_move_readers: "rstate s' \<noteq> 1 \<Longrightarrow> duty_move ev s t s' t'"
  by (simp add: duty_move_def)

lemma read_head_idle:
  "read_head r = Next t \<Longrightarrow> \<not> drain_waits t" "try_read_head st = Next t \<Longrightarrow> \<not> drain_waits t"
  by (auto simp: read_head_def try_read_head_def split: if_splits)

lemma readable_plus_2: "readable st \<Longrightarrow> st + 2 \<noteq> 1"
proof
  assume "readable st" and "st + 2 = 1"
  then have "even (unat st)" and "st = - 1" by (auto simp: readable_def eq_diff_eq [symmetric])
  then show False by (simp add: unsigned_minus_1_eq_mask mask_eq_exp_minus_1)
qed

lemma read_step_duty:
  assumes "read_step ev pc s r = Next (s', t')" and "rw_wf (RRead pc r)"
  shows "duty_move ev s (RRead pc r) s' t'"
proof (cases pc)
  case RdCas
  with assms show ?thesis
    by (auto simp: stay_Next compare_exchange_def Let_def rw_consts readable_plus_2
        intro: duty_move_readers duty_move_stay dest: read_head_idle split: if_splits)
qed (use assms in \<open>auto simp: stay_Next Let_def intro!: duty_move_stay dest: read_head_idle
      split: prod.splits option.splits if_splits\<close>)

lemma last_reader: "(st :: usize) - 2 = 1 \<Longrightarrow> st AND NOT 1 = 2"
  by (simp add: diff_eq_eq)

lemma reader_step_duty: "reader_step ev i s lo = Next (s', t') \<Longrightarrow> duty_move ev s (RReader lo) s' t'"
  by (auto simp: reader_step_def read_unlock_def fetch_sub_def rw_consts drop_left_def drop_on_def
      on_mutex_def Let_def duty_move_def dest: last_reader split: rw_in.splits if_splits rw_event.splits)

lemma write_step_duty:
  "write_step ev pc s nr = Next (s', t') \<Longrightarrow> duty_move ev s (RWrite pc nr) s' t'"
  by (cases pc)
     (auto simp: rw_consts Let_def duty_move_def split: prod.splits option.splits if_splits)

lemma upgrade_step_duty:
  "upgrade_step ev pc s nr lo = Next (s', t') \<Longrightarrow> duty_move ev s (RUpgrade pc nr lo) s' t'"
  by (cases pc)
     (auto simp: rw_consts Let_def duty_move_def split: prod.splits option.splits if_splits)

lemma guard_steps_duty:
  "upgradable_step ev i s lo = Next (s', t') \<Longrightarrow> duty_move ev s (RUpgradable lo) s' t'"
  "writer_step ev i s lo = Next (s', t') \<Longrightarrow> duty_move ev s (RWriter lo) s' t'"
  subgoal
    by (rule duty_move_mutex)
       (auto simp: upgradable_step_def upgradable_read_unlock_def downgrade_upgradable_read_def
         drop_left_def Let_def split: rw_in.splits if_splits prod.splits)
  subgoal
    by (rule duty_move_mutex)
       (auto simp: writer_step_def write_unlock_def downgrade_write_def downgrade_to_upgradable_def
         drop_left_def split: rw_in.splits if_splits)
  done

lemma drop_left_duty:
  "drop_left ev j s lo C = Next (s', t') \<Longrightarrow> (\<And>xs. drain_waits (C xs) = drain_waits (C lo)) \<Longrightarrow>
   \<not> drain_carries (C lo) \<Longrightarrow> duty_move ev s (C lo) s' t'"
  by (rule duty_move_stay)
     (auto simp: drop_left_def drop_on_def on_mutex_def split: if_splits rw_event.splits)

lemma drop_left_upgrade_duty:
  "drop_left ev j s lo (RUpgrade pc nr) = Next (s', t') \<Longrightarrow> pc = DrIdle \<or> pc = DrSleep \<Longrightarrow>
   duty_move ev s (RUpgrade pc nr lo) s' t'"
  by (rule drop_left_duty) auto

lemma rw_step_duty:
  assumes step: "rw_step ev i s t = Next (s', t')" and wf: "rw_wf t"
  shows "duty_move ev s t s' t'"
proof (cases t)
  case (RRead pc r)
  with step wf show ?thesis
    by (auto simp: rw_step_def run_only_Next stay_Next intro!: duty_move_stay
        dest: read_head_idle elim!: read_step_duty split: rw_in.splits if_splits)
next
  case (RTryReadCas st)
  with step wf show ?thesis
    by (auto simp: rw_step_def run_only_Next try_read_cas_def compare_exchange_def rw_consts stay_Next
        readable_plus_2 duty_move_def Let_def dest: read_head_idle
        split: sum.splits prod.splits if_splits)
next
  case RTryRead
  with step show ?thesis
    by (auto simp: rw_step_def run_only_Next try_read_load_def stay_Next intro!: duty_move_stay
        dest: read_head_idle)
next
  case (RUpLock l)
  with step wf show ?thesis
    by (auto simp: rw_step_def intro!: duty_move_stay elim!: up_lock_stepE split: option.splits)
next
  case (RWriteLock l)
  with step wf show ?thesis
    by (auto simp: rw_step_def intro!: duty_move_stay elim!: write_lock_stepE split: option.splits)
next
  case (RWrite pc nr)
  with step show ?thesis
    by (auto simp: rw_step_def run_only_Next write_unlock_def elim!: write_step_duty
        split: rw_in.splits if_splits) (auto simp: duty_move_def)
next
  case (RUpgrade pc nr lo)
  with step show ?thesis
    by (auto simp: rw_step_def run_only_Next write_unlock_def elim!: upgrade_step_duty
        drop_left_upgrade_duty split: rw_in.splits if_splits) (auto simp: duty_move_def)
next
  case (RWriteOr lo)
  with step show ?thesis
    by (auto simp: rw_step_def run_only_Next write_or_def write_set_def write_enter_def Let_def
        duty_move_def split: prod.splits option.splits if_splits)
next
  case (RWriteListen lo)
  with step show ?thesis
    by (auto simp: rw_step_def run_only_Next write_listen_def write_set_def write_enter_def Let_def
        duty_move_def split: prod.splits option.splits)
next
  case (RWriteSet l nr ws)
  with step show ?thesis
    by (auto simp: rw_step_def run_only_Next write_drop_lock_def write_enter_def on_mutex_def
        duty_move_def split: write_state.splits)
next
  case (RReader lo)
  with step show ?thesis by (auto simp: rw_step_def dest: reader_step_duty)
next
  case (RUpgradable lo)
  with step show ?thesis by (auto simp: rw_step_def dest: guard_steps_duty(1))
next
  case (RWriter lo)
  with step show ?thesis by (auto simp: rw_step_def dest: guard_steps_duty(2))
next
  case (RDone lo)
  with step show ?thesis
    by (auto simp: rw_step_def intro: drop_left_duty [where C = RDone] split: rw_in.splits)
qed (use step in \<open>auto simp: rw_step_def run_only_Next stay_Next Let_def
      try_upgradable_read_def try_upgradable_load_def try_upgradable_cas_def up_load_def up_cas_def
      try_write_def try_write_cas_def notify_no_writer_def notify_no_readers_def on_mutex_def
      duty_move_def split: rw_in.splits if_splits prod.splits sum.splits\<close>)

subsection \<open>The invariant\<close>

interpretation rw_duty: share_duty shr drain_waits drain_carries rw_wf
  by unfold_locales (rule drain_waits_listener)

definition drain_done :: "('e, 'l) event_view \<Rightarrow> 'e raw_rwlock \<Rightarrow> 'l rw list \<Rightarrow> bool" where
  "drain_done vw s ts \<longleftrightarrow>
     (rstate s = 1 \<longrightarrow> share_done vw drain_waits drain_carries (no_readers s) ts)"

definition drain_inv :: "('e, 'l) event_view \<Rightarrow> ('e raw_rwlock, 'l rw) sys \<Rightarrow> bool" where
  "drain_inv vw S \<longleftrightarrow> counting_inv rw_wt rw_wf rw_good S \<and>
     shares_inv vw shr (no_readers (shared S)) (tasks S) \<and> drain_done vw (shared S) (tasks S)"

text \<open>A task that waits for readers has the mutex, so it is the only one that has.\<close>

lemma mutex_role_unique:
  assumes good: "rw_good s (totals rw_wt ts)" and jk: "j < length ts" "k < length ts"
    and roles: "role (ts ! j) \<notin> {Idle, Rd}" "role (ts ! k) \<notin> {Idle, Rd}"
  shows "j = k"
proof (rule ccontr)
  assume ne: "j \<noteq> k"
  note pair = roles_pair [OF jk ne]
  have "totals rw_wt ts (KRole Mx) + totals rw_wt ts (KRole Cs) + totals rw_wt ts (KRole Up) +
      totals rw_wt ts (KRole Wt) + totals rw_wt ts (KRole Exc) \<le> 1"
    using good by (auto simp: rw_good_def dest: rw_ok_own)
  with pair [of Mx] pair [of Cs] pair [of Up] pair [of Wt] pair [of Exc] roles show False
    by (cases "role (ts ! j)"; cases "role (ts ! k)") simp_all
qed

lemma drain_done_act:
  assumes laws: "event_laws ev vw" and inv: "drain_inv vw S" and k: "k < length (tasks S)"
    and step: "rw_step ev i (shared S) (tasks S ! k) = Next (s', t')"
    and inv': "shares_inv vw shr (no_readers s') ((tasks S)[k := t'])"
  shows "drain_done vw s' ((tasks S)[k := t'])"
  unfolding drain_done_def
proof
  let ?ts' = "(tasks S)[k := t']" and ?t = "tasks S ! k"
  assume one: "rstate s' = 1"
  from inv have good: "rw_good (shared S) (totals rw_wt (tasks S))"
    and wfs: "\<forall>t \<in> set (tasks S). rw_wf t"
    and shares: "shares_inv vw shr (no_readers (shared S)) (tasks S)"
    and duty: "drain_done vw (shared S) (tasks S)"
    by (simp_all add: drain_inv_def counting_inv_def)
  have wf: "rw_wf ?t" using wfs k by simp
  with wfs rw_step_wf [OF step] have wfs': "\<forall>t \<in> set ?ts'. rw_wf t"
    by (auto dest!: set_update_subset_insert [THEN subsetD])
  note act = rw_duty.done_act [OF laws shares inv' k wfs' rw_step_drain [OF step wf, unfolded drain_move_def]]
  from rw_step_duty [OF step wf] one consider "drain_carries t'"
    | "no_readers s' = ev_notify ev 1 (no_readers (shared S))"
    | "role ?t \<notin> {Idle, Rd}" "\<not> drain_waits t'"
    | "\<not> drain_carries ?t" "rstate (shared S) = 1" "drain_waits t' \<longrightarrow> drain_waits ?t"
    by (auto simp: duty_move_def)
  then show "share_done vw drain_waits drain_carries (no_readers s') ?ts'"
  proof cases
    case 1
    from rw_duty.done_carrier [OF k this] show ?thesis .
  next
    case 3
    have "\<not> drain_waits (?ts' ! w)" if w: "w < length ?ts'" for w
    proof
      assume waits: "drain_waits (?ts' ! w)"
      with 3 k have "w \<noteq> k" by auto
      with w drain_waits_role [OF waits] mutex_role_unique [OF good _ k _ 3(1), of w] show False by simp
    qed
    then show ?thesis by (auto simp: share_done_def in_set_conv_nth simp del: length_list_update)
  qed (use act duty in \<open>simp_all add: drain_done_def\<close>)
qed

lemma rw_fresh_shr: "rw_fresh t \<Longrightarrow> shr t = {#} \<and> \<not> drain_waits t \<and> \<not> drain_carries t"
  by (auto simp: rw_fresh_def)

lemma drain_inv_act:
  assumes laws: "event_laws ev vw" and inv: "drain_inv vw S" and k: "k < length (tasks S)"
    and step: "rw_step ev i (shared S) (tasks S ! k) = Next (s', t')"
  shows "drain_inv vw \<lparr>shared = s', tasks = (tasks S)[k := t']\<rparr>"
proof -
  from inv have cnt: "counting_inv rw_wt rw_wf rw_good S"
    and shares: "shares_inv vw shr (no_readers (shared S)) (tasks S)"
    by (simp_all add: drain_inv_def)
  from cnt k have "rw_wf (tasks S ! k)" by (simp add: counting_inv_def)
  from shares_inv_move [OF laws shares k rw_step_drain [OF step this, unfolded drain_move_def]]
  have shares': "shares_inv vw shr (no_readers s') ((tasks S)[k := t'])" .
  with rw.inv_act [OF cnt k step] drain_done_act [OF laws inv k step] show ?thesis
    by (simp add: drain_inv_def)
qed

interpretation rw_drain: inv_system "rw_step ev" rw_fresh "rw_start (fresh_event vw)"
    "\<lambda>S. event_laws ev vw \<longrightarrow> drain_inv vw S"
  for ev :: "('e, 'l) event_ops" and vw
proof
  fix s :: "'e raw_rwlock"
  assume start: "rw_start (fresh_event vw) s"
  have "counting_inv rw_wt rw_wf rw_good (\<lparr>shared = s, tasks = []\<rparr> :: ('e raw_rwlock, 'l rw) sys)"
    by (rule rw.inv_init [OF start])
  with start show "event_laws ev vw \<longrightarrow> drain_inv vw \<lparr>shared = s, tasks = []\<rparr>"
    by (simp add: drain_inv_def drain_done_def rw_start_def shares_inv_Nil rw_duty.done_Nil)
next
  fix S :: "('e raw_rwlock, 'l rw) sys" and t :: "'l rw"
  assume inv: "event_laws ev vw \<longrightarrow> drain_inv vw S" and t: "rw_fresh t"
  with rw.inv_spawn [OF _ t, of S] rw_fresh_shr [OF t]
  show "event_laws ev vw \<longrightarrow> drain_inv vw (S\<lparr>tasks := tasks S @ [t]\<rparr>)"
    by (auto simp: drain_inv_def drain_done_def intro: shares_inv_snoc rw_duty.done_snoc)
next
  fix S :: "('e raw_rwlock, 'l rw) sys" and k i s' t'
  assume "event_laws ev vw \<longrightarrow> drain_inv vw S" and "k < length (tasks S)"
    and "rw_step ev i (shared S) (tasks S ! k) = Next (s', t')"
  then show "event_laws ev vw \<longrightarrow> drain_inv vw \<lparr>shared = s', tasks = (tasks S)[k := t']\<rparr>"
    using drain_inv_act by blast
qed

subsection \<open>Properties\<close>

text \<open>A task at rest: no call of it is running, and no completed future of it is still to be dropped.\<close>

definition rw_at_rest :: "'l rw \<Rightarrow> bool" where
  "rw_at_rest t = (case t of
     RRead pc r \<Rightarrow> pc = RdIdle \<or> pc = RdSleep
   | RUpLock l \<Rightarrow> lock_at_rest l
   | RWriteLock l \<Rightarrow> lock_at_rest l
   | RWrite pc nr \<Rightarrow> pc = DrSleep
   | RUpgrade pc nr lo \<Rightarrow> (pc = DrIdle \<and> nr = None \<or> pc = DrSleep) \<and> lo = []
   | RReader lo \<Rightarrow> lo = [] | RUpgradable lo \<Rightarrow> lo = [] | RWriter lo \<Rightarrow> lo = []
   | RDone lo \<Rightarrow> lo = [] | _ \<Rightarrow> False)"

lemma rest_drain:
  assumes "rw_at_rest t"
  shows "\<not> drain_carries t" and "x \<in># shr t \<Longrightarrow> drain_waits t \<and> shr t = {#x#}"
  using assms by (cases t; auto simp: rw_at_rest_def opt_mset_def split: option.splits)+

text \<open>
  C16: the last reader wakes the writer. Under the event laws, when every task is at rest and nobody
  reads, a task that is suspended in \<open>write()\<close> or \<open>upgrade()\<close> to wait for the readers is notified:
  its next poll goes on.
\<close>

theorem rwlock_writer_wakes:
  assumes laws: "event_laws ev vw" and reach: "rw_reachable ev (fresh_event vw) S"
    and rest: "\<forall>t \<in> set (tasks S). rw_at_rest t" and no_reader: "in_role Rd (tasks S) = {}"
    and k: "k < length (tasks S)"
    and susp: "tasks S ! k = RWrite DrSleep (Some x) \<or> tasks S ! k = RUpgrade DrSleep (Some x) []"
  shows "x \<in> notified vw (no_readers (shared S))"
proof -
  have "drain_inv vw S" using rw_drain.reachable_inv [OF reach] laws by blast
  then have good: "rw_good (shared S) (totals rw_wt (tasks S))"
    and shares: "shares_inv vw shr (no_readers (shared S)) (tasks S)"
    and duty: "drain_done vw (shared S) (tasks S)"
    by (simp_all add: drain_inv_def counting_inv_def)
  from susp have waits: "drain_waits (tasks S ! k)" and mine: "shr (tasks S ! k) = {#x#}" by auto
  have role: "role (tasks S ! k) = Wt" by (rule drain_waits_role [OF waits])
  have "1 \<le> totals rw_wt (tasks S) (KRole Wt)"
    using totals_member_le [OF k, of rw_wt "KRole Wt"] role by (simp add: rw_wt_def)
  with good no_reader have "unat (rstate (shared S)) = 1"
    by (auto simp: rw_good_def rw_ok_def mutex_ok_def card_in_role)
  then have one: "rstate (shared S) = 1" by (metis unat_1 word_unat_eq_iff)
  with duty have "share_done vw drain_waits drain_carries (no_readers (shared S)) (tasks S)"
    by (simp add: drain_done_def)
  from rw_duty.done_rest [OF laws shares this _ k waits] rest rest_drain(1) obtain j y where
    j: "j < length (tasks S)" "y \<in># shr (tasks S ! j)" and y: "y \<in> notified vw (no_readers (shared S))"
    by blast
  with rest have w: "drain_waits (tasks S ! j)" "shr (tasks S ! j) = {#y#}"
    by (auto dest: rest_drain(2))
  have "j = k"
    by (rule mutex_role_unique [OF good j(1) k]) (use role drain_waits_role [OF w(1)] in simp_all)
  with w(2) mine y show ?thesis by simp
qed

text \<open>
  An upgradable reader has called \<open>upgrade()\<close> with a reader inside and sleeps; then the reader leaves.
\<close>

definition demo_drained :: "(qevent raw_rwlock, nat rw) sys" where
  "demo_drained =
     \<lparr>shared = \<lparr>rmutex = \<lparr>mstate = 1, lock_ops = [Some False], mdata = ()\<rparr>,
        no_readers = [Some True], no_writer = [], rstate = 1\<rparr>,
      tasks = [RDone [], RUpgrade DrSleep (Some 0) [],
        RWriteLock (LSlow \<lparr>sl_mutex = True, sl_listener = Some 0, sl_start = Some 0, sl_starved = False\<rparr>)]\<rparr>"

lemma demo_drained_run:
  "exec (rw_step queue_events) rw_fresh
     [Act 1 RwUpgrade, Act 1 (RwPoll 0), Act 1 (RwRun 0), Act 1 (RwRun 0), Act 1 (RwRun 0),
      Act 1 (RwRun 0), Act 0 RwUnlock, Act 0 (RwRun 0)] demo_shared = Next demo_drained"
  by (simp add: rw_run_simps demo_shared_def demo_drained_def)

theorem rwlock_writer_wakes_witness: "0 \<in> notified queue_view (no_readers (shared demo_drained))"
proof (rule rwlock_writer_wakes [OF queue_events_laws exec_reachable [OF demo_drained_run demo_shared_reachable]])
  show "\<forall>t \<in> set (tasks demo_drained). rw_at_rest t"
    by (simp add: demo_drained_def rw_at_rest_def lock_at_rest_def)
  show "in_role Rd (tasks demo_drained) = {}"
    by (simp add: demo_drained_def in_role_def indices_empty_iff lock_role_def)
  show "1 < length (tasks demo_drained)" by (simp add: demo_drained_def)
  show "tasks demo_drained ! 1 = RWrite DrSleep (Some 0) \<or>
      tasks demo_drained ! 1 = RUpgrade DrSleep (Some 0) []"
    by (simp add: demo_drained_def)
qed

end
