(* ===== verification/Lock_Client.thy ===== *)
theory Lock_Client
  imports Mutex_Wakeup Lock_Embedded
begin

text \<open>
  The interface between the mutex and a primitive that is built on one. Each task of the primitive
  uses the mutex through one lock future at a time: \<open>lock_of\<close> gives it, with the guard it has
  yielded. A step of the primitive is one action of that lock future, or leaves the mutex alone and
  may replace a finished lock future by a new one. The invariants of the mutex then hold for the
  lock futures inside every reachable state of the primitive.
\<close>

definition inert :: "'l lock \<Rightarrow> bool" where
  "inert l \<longleftrightarrow> l = LNew \<or> l = LTry \<or> l = LTryLock \<or> l = LDone None"

definition lock_move ::
    "('e, 'l) event_ops \<Rightarrow> ('e, 'a) mutex \<Rightarrow> 'l lock \<Rightarrow> ('e, 'a) mutex \<Rightarrow> 'l lock \<Rightarrow> bool" where
  "lock_move ev m l m' l' \<longleftrightarrow>
     (\<exists>i. lock_step ev i m l = Next (m', l')) \<or> m' = m \<and> (l' = l \<or> inert l \<and> inert l')"

text \<open>The actions of a lock future that its owner performs itself.\<close>

lemma lock_moveI: "lock_step ev i m l = Next (m', l') \<Longrightarrow> lock_move ev m l m' l'"
  unfolding lock_move_def by blast

lemma held_moves:
  "lock_move ev m (LHeld lo) (unlock_sub m) (LUnlock lo)"
  "lock_move ev m (LUnlock lo) (unlock_notify ev m) (LDone lo)"
  by (rule lock_moveI [where i = Unlock], simp add: lock_step_def)
     (rule lock_moveI [where i = "Run 0"], simp add: lock_step_def)

lemma drop_moves:
  "lock_move ev m (LHeld (Some x)) (m\<lparr>lock_ops := ev_drop ev x (lock_ops m)\<rparr>) (LHeld None)"
  "lock_move ev m (LUnlock (Some x)) (m\<lparr>lock_ops := ev_drop ev x (lock_ops m)\<rparr>) (LUnlock None)"
  "lock_move ev m (LDone (Some x)) (m\<lparr>lock_ops := ev_drop ev x (lock_ops m)\<rparr>) (LDone None)"
  by (rule lock_moveI [where i = DropFut], simp add: lock_step_def drop_listener_def)+

lemma write_move: "lock_move ev m (LHeld lo) (m\<lparr>mdata := v\<rparr>) (LHeld lo)"
  by (rule lock_moveI [where i = "Write v"]) (simp add: lock_step_def)

lemma try_lock_move:
  "try_lock m = (ok, m') \<Longrightarrow> lock_move ev m LTryLock m' (if ok then LHeld None else LDone None)"
  by (rule lock_moveI [where i = "Run 0"]) (simp add: lock_step_def)

lemma same_move: "lock_move ev m l m l" "lock_move ev m (LDone None) m LTry"
  by (simp_all add: lock_move_def inert_def)

lemma inert_facts:
  assumes "inert l"
  shows "lock_wf l" "lock_wt key l = 0" "lock_listener l = None" "\<not> waits l" "\<not> carries l"
  using assms
  by (auto simp: inert_def lock_wf_def lock_wt_def lock_owner_def lock_starved_def lock_listener_def
      waits_def carries_def split: mutex_key.split)

lemma counting_move:
  assumes inv: "counting_inv lock_wt lock_wf mutex_good S" and k: "k < length (tasks S)"
    and move: "lock_move ev (shared S) (tasks S ! k) m' l'"
  shows "counting_inv lock_wt lock_wf mutex_good \<lparr>shared = m', tasks = (tasks S)[k := l']\<rparr>"
  using move unfolding lock_move_def
proof (elim disjE exE conjE)
  fix i assume "lock_step ev i (shared S) (tasks S ! k) = Next (m', l')"
  from mtx.inv_act [OF inv k this] show ?thesis .
next
  assume "m' = shared S" and "l' = tasks S ! k"
  with inv show ?thesis by (simp add: counting_inv_def)
next
  assume m': "m' = shared S" and inert: "inert (tasks S ! k)" "inert l'"
  have "totals lock_wt ((tasks S)[k := l']) = totals lock_wt (tasks S)"
    by (rule ext) (simp add: totals_def wsum_update [OF k] inert_facts(2) [OF inert(1)]
        inert_facts(2) [OF inert(2)])
  with inv m' inert_facts(1) [OF inert(2)] show ?thesis
    by (auto simp: counting_inv_def dest!: set_update_subset_insert [THEN subsetD])
qed

lemma wake_move:
  assumes laws: "event_laws ev vw" and inv: "wake_inv vw S" and k: "k < length (tasks S)"
    and move: "lock_move ev (shared S) (tasks S ! k) m' l'"
  shows "wake_inv vw \<lparr>shared = m', tasks = (tasks S)[k := l']\<rparr>"
  using move unfolding lock_move_def
proof (elim disjE exE conjE)
  fix i assume "lock_step ev i (shared S) (tasks S ! k) = Next (m', l')"
  from wake_inv_act [OF laws inv k this] show ?thesis .
next
  assume "m' = shared S" and "l' = tasks S ! k"
  with inv show ?thesis by (simp add: wake_inv_def counting_inv_def)
next
  assume m': "m' = shared S" and inert: "inert (tasks S ! k)" "inert l'"
  have cnt: "counting_inv lock_wt lock_wf mutex_good S"
    and own: "own_inv vw lock_listener (lock_ops (shared S)) (tasks S)"
    and duty: "even (unat (mstate (shared S))) \<Longrightarrow>
      duty_done vw lock_listener waits carries (lock_ops (shared S)) (tasks S)"
    using inv by (simp_all add: wake_inv_def)
  note old = inert_facts [OF inert(1)] and new = inert_facts [OF inert(2)]
  have own': "own_inv vw lock_listener (lock_ops m') ((tasks S)[k := l'])"
    using own_inv_same [OF own k] old(3) new(3) m' by simp
  have calm: "ev_calm ev (lock_ops (shared S)) (lock_listener (tasks S ! k)) (lock_ops m') (lock_listener l')"
    using old(3) new(3) m' by (simp add: ev_calm_same)
  have "duty_done vw lock_listener waits carries (lock_ops m') ((tasks S)[k := l'])"
    if "even (unat (mstate m'))"
    by (rule mtx_duty.duty_frame [OF laws own own' k calm duty old(1,5)]) (use that m' new in simp_all)
  with own' counting_move [OF cnt k move] show ?thesis by (simp add: wake_inv_def)
qed

text \<open>The lock futures of a state of the primitive, as a state of the mutex.\<close>

definition lock_part ::
    "('s \<Rightarrow> ('e, 'a) mutex) \<Rightarrow> ('t \<Rightarrow> 'l lock) \<Rightarrow> ('s, 't) sys \<Rightarrow> (('e, 'a) mutex, 'l lock) sys" where
  "lock_part mtx_of lock_of S = \<lparr>shared = mtx_of (shared S), tasks = map lock_of (tasks S)\<rparr>"

lemma lock_part_simps [simp]:
  "shared (lock_part mtx_of lock_of S) = mtx_of (shared S)"
  "tasks (lock_part mtx_of lock_of S) = map lock_of (tasks S)"
  by (simp_all add: lock_part_def)

locale lock_client =
  fixes ev :: "('e, 'l) event_ops"
    and stp :: "'i \<Rightarrow> 's \<Rightarrow> 't \<Rightarrow> ('s \<times> 't) outcome"
    and fresh :: "'t \<Rightarrow> bool"
    and start :: "('e \<Rightarrow> bool) \<Rightarrow> 's \<Rightarrow> bool"
    and mtx_of :: "'s \<Rightarrow> ('e, 'a) mutex"
    and lock_of :: "'t \<Rightarrow> 'l lock"
    and twf :: "'t \<Rightarrow> bool"
  assumes start_mutex: "start new_event s \<Longrightarrow> mutex_start new_event (mtx_of s)"
    and fresh_inert: "fresh t \<Longrightarrow> inert (lock_of t)"
    and fresh_twf: "fresh t \<Longrightarrow> twf t"
    and step_twf: "stp i s t = Next (s', t') \<Longrightarrow> twf t \<Longrightarrow> twf t'"
    and step_move: "stp i s t = Next (s', t') \<Longrightarrow> twf t \<Longrightarrow>
      lock_move ev (mtx_of s) (lock_of t) (mtx_of s') (lock_of t')"

definition client_ok ::
    "('s \<Rightarrow> ('e, 'a) mutex) \<Rightarrow> ('t \<Rightarrow> 'l lock) \<Rightarrow> ('t \<Rightarrow> bool) \<Rightarrow> ('s, 't) sys \<Rightarrow> bool" where
  "client_ok mtx_of lock_of twf S \<longleftrightarrow> (\<forall>t \<in> set (tasks S). twf t) \<and>
     counting_inv lock_wt lock_wf mutex_good (lock_part mtx_of lock_of S)"

text \<open>With few tasks the mutex of the client never reaches the overflow abort.\<close>

lemma client_no_abort:
  assumes ok: "client_ok mtx_of lock_of twf S" and k: "k < length (tasks S)"
    and few: "length (tasks S) \<le> 2 ^ 62"
  shows "lock_step ev i (mtx_of (shared S)) (lock_of (tasks S ! k)) \<noteq> Abort"
proof -
  let ?P = "lock_part mtx_of lock_of S"
  from ok have "mutex_good (shared ?P) (totals lock_wt (tasks ?P))" "lock_wf (tasks ?P ! k)"
    using k by (auto simp: client_ok_def counting_inv_def)
  from lock_step_no_abort [OF this, of ev i] k few show ?thesis by simp
qed

text \<open>At most one task has the guard.\<close>

lemma client_owner_unique:
  assumes ok: "client_ok mtx_of lock_of twf S" and j: "j < length (tasks S)" and k: "k < length (tasks S)"
    and own: "0 < lock_owner (lock_of (tasks S ! j))" "0 < lock_owner (lock_of (tasks S ! k))"
  shows "j = k"
proof -
  have "totals lock_wt (map lock_of (tasks S)) KOwner \<le> 1"
    using ok by (simp add: client_ok_def counting_inv_def mutex_good_def mutex_ok_def)
  from totals_unique [OF this, of j k] j k own show ?thesis by (simp add: lock_wt_def)
qed

context lock_client
begin

lemma client_ok_init: "start new_event s \<Longrightarrow> client_ok mtx_of lock_of twf \<lparr>shared = s, tasks = []\<rparr>"
  using mtx.inv_init [OF start_mutex, of new_event s] by (simp add: client_ok_def lock_part_def)

lemma client_ok_spawn:
  assumes "client_ok mtx_of lock_of twf S" and "fresh t"
  shows "client_ok mtx_of lock_of twf (S\<lparr>tasks := tasks S @ [t]\<rparr>)"
proof -
  note new = inert_facts [OF fresh_inert [OF assms(2)]]
  have "totals lock_wt (map lock_of (tasks S) @ [lock_of t]) = totals lock_wt (map lock_of (tasks S))"
    by (rule ext) (simp add: totals_def new(2))
  with assms fresh_twf [OF assms(2)] new(1) show ?thesis
    by (auto simp: client_ok_def counting_inv_def lock_part_def)
qed

lemma client_ok_act:
  assumes ok: "client_ok mtx_of lock_of twf S" and k: "k < length (tasks S)"
    and step: "stp i (shared S) (tasks S ! k) = Next (s', t')"
  shows "client_ok mtx_of lock_of twf \<lparr>shared = s', tasks = (tasks S)[k := t']\<rparr>"
proof -
  have wf: "twf (tasks S ! k)" using ok k by (simp add: client_ok_def)
  have "counting_inv lock_wt lock_wf mutex_good
      \<lparr>shared = mtx_of s', tasks = (map lock_of (tasks S))[k := lock_of t']\<rparr>"
    using counting_move [of "lock_part mtx_of lock_of S" k] ok k step_move [OF step wf]
    by (simp add: client_ok_def)
  with ok step_twf [OF step wf] show ?thesis
    by (auto simp: client_ok_def lock_part_def map_update dest!: set_update_subset_insert [THEN subsetD])
qed

end

sublocale lock_client \<subseteq> client: inv_system stp fresh "start new_event" "client_ok mtx_of lock_of twf"
  for new_event
  by unfold_locales (fact client_ok_init client_ok_spawn client_ok_act)+

definition client_wake ::
    "('e, 'l) event_view \<Rightarrow> ('s \<Rightarrow> ('e, 'a) mutex) \<Rightarrow> ('t \<Rightarrow> 'l lock) \<Rightarrow> ('t \<Rightarrow> bool) \<Rightarrow> ('s, 't) sys \<Rightarrow> bool"
where
  "client_wake vw mtx_of lock_of twf S \<longleftrightarrow> client_ok mtx_of lock_of twf S \<and>
     wake_inv vw (lock_part mtx_of lock_of S)"

context lock_client
begin

lemma client_wake_act:
  assumes laws: "event_laws ev vw" and ok: "client_wake vw mtx_of lock_of twf S"
    and k: "k < length (tasks S)" and step: "stp i (shared S) (tasks S ! k) = Next (s', t')"
  shows "client_wake vw mtx_of lock_of twf \<lparr>shared = s', tasks = (tasks S)[k := t']\<rparr>"
proof -
  have cok: "client_ok mtx_of lock_of twf S" using ok by (simp add: client_wake_def)
  then have wf: "twf (tasks S ! k)" using k by (simp add: client_ok_def)
  have "wake_inv vw \<lparr>shared = mtx_of s', tasks = (map lock_of (tasks S))[k := lock_of t']\<rparr>"
    using wake_move [OF laws, of "lock_part mtx_of lock_of S" k] ok k step_move [OF step wf]
    by (simp add: client_wake_def)
  with client_ok_act [OF cok k step] show ?thesis
    by (simp add: client_wake_def lock_part_def map_update)
qed

lemma client_wake_init:
  assumes "event_laws ev vw" and "start (fresh_event vw) s"
  shows "client_wake vw mtx_of lock_of twf \<lparr>shared = s, tasks = []\<rparr>"
  using assms mtx_wake.inv_init [OF start_mutex [OF assms(2)], of ev] client_ok_init [OF assms(2)]
  by (simp add: client_wake_def lock_part_def)

lemma client_wake_spawn:
  assumes "client_wake vw mtx_of lock_of twf S" and "fresh t"
  shows "client_wake vw mtx_of lock_of twf (S\<lparr>tasks := tasks S @ [t]\<rparr>)"
proof -
  note new = inert_facts [OF fresh_inert [OF assms(2)]]
  from client_ok_spawn [OF _ assms(2), of S] assms(1)
  have ok': "client_ok mtx_of lock_of twf (S\<lparr>tasks := tasks S @ [t]\<rparr>)" by (simp add: client_wake_def)
  with assms(1) show ?thesis
    by (auto simp: client_wake_def client_ok_def wake_inv_def mtx_duty.duty_snoc [OF new(4,5)] lock_part_def
        intro: own_inv_snoc [where lst = lock_listener, OF new(3)])
qed

end

sublocale lock_client \<subseteq> client_wake: inv_system stp fresh "start (fresh_event vw)"
    "\<lambda>S. event_laws ev vw \<longrightarrow> client_wake vw mtx_of lock_of twf S"
  for vw
  by unfold_locales (auto intro: client_wake_init client_wake_spawn client_wake_act)

context lock_client
begin

text \<open>No wake-up of the embedded mutex is lost.\<close>

lemma client_rest:
  assumes laws: "event_laws ev vw" and reach: "reachable stp fresh (start (fresh_event vw)) S"
    and rest: "\<And>t. t \<in> set (tasks S) \<Longrightarrow> lock_at_rest (lock_of t)"
    and free: "\<And>t. t \<in> set (tasks S) \<Longrightarrow> lock_owner (lock_of t) = 0"
    and susp: "k < length (tasks S)" "lock_of (tasks S ! k) = LSlow s"
  shows "\<exists>j < length (tasks S). \<exists>s' x. lock_of (tasks S ! j) = LSlow s' \<and> sl_listener s' = Some x \<and>
    x \<in> notified vw (lock_ops (mtx_of (shared S)))"
proof -
  have "client_wake vw mtx_of lock_of twf S" using client_wake.reachable_inv [OF reach] laws by blast
  then have "wake_inv vw (lock_part mtx_of lock_of S)" by (simp add: client_wake_def)
  moreover have "mutex_owners (map lock_of (tasks S)) = {}"
    using free by (auto simp: mutex_owners_def indices_empty_iff)
  ultimately show ?thesis
    using wake_inv_rest [OF laws, of "lock_part mtx_of lock_of S" k s] rest susp by fastforce
qed

end

end
