(* ===== verification/RawRwLock_Mutex.thy ===== *)
theory RawRwLock_Mutex
  imports RawRwLock_Wakeup Lock_Client
begin

text \<open>
  The mutex inside the reader-writer lock. Upgradable readers and writers queue on it, so a task that
  waits for another writer is a task that waits for this mutex. At each program point a task uses the
  mutex through one lock future or the guard it has yielded: \<open>rw_lock\<close>. The interface \<open>lock_client\<close>
  then gives that no wake-up of the mutex is lost.
\<close>

subsection \<open>The lock future of a task\<close>

text \<open>The listener of a completed lock future that is still to be dropped; there is at most one.\<close>

definition mutex_left :: "'l leftovers \<Rightarrow> 'l option" where
  "mutex_left lo = map_of lo OnMutex"

definition left_wf :: "'l leftovers \<Rightarrow> bool" where
  "left_wf lo \<longleftrightarrow> length (filter (\<lambda>p. fst p = OnMutex) lo) \<le> 1"

definition rw_lock :: "'l rw \<Rightarrow> 'l lock" where
  "rw_lock t = (case t of
     RTryUp \<Rightarrow> LTryLock | RTryWrite \<Rightarrow> LTryLock
   | RTryUpLoad \<Rightarrow> LHeld None | RTryUpCas st \<Rightarrow> LHeld None | RTryWriteCas \<Rightarrow> LHeld None
   | RUpLock l \<Rightarrow> l | RWriteLock l \<Rightarrow> l
   | RUpLoad lo \<Rightarrow> LHeld lo | RUpCas st lo \<Rightarrow> LHeld lo
   | RWriteOr lo \<Rightarrow> LHeld lo | RWriteListen lo \<Rightarrow> LHeld lo | RWriteSet l nr st \<Rightarrow> LHeld (Some l)
   | RWrite pc nr \<Rightarrow> LHeld None
   | RUpgrade pc nr lo \<Rightarrow> LHeld (mutex_left lo)
   | RUpgradable lo \<Rightarrow> LHeld (mutex_left lo) | RWriter lo \<Rightarrow> LHeld (mutex_left lo)
   | RUpUnlockNotify lo \<Rightarrow> LHeld (mutex_left lo) | RWriteUnlockNotify lo \<Rightarrow> LHeld (mutex_left lo)
   | RUnlockMutex lo \<Rightarrow> LHeld (mutex_left lo) | RDownWriteMutex lo \<Rightarrow> LHeld (mutex_left lo)
   | RUnlockMutexNotify lo \<Rightarrow> LUnlock (mutex_left lo)
   | RDownWriteMutexNotify lo \<Rightarrow> LUnlock (mutex_left lo) | RDownUpNotify lo \<Rightarrow> LUnlock (mutex_left lo)
   | RReader lo \<Rightarrow> LDone (mutex_left lo) | RReadUnlockNotify lo \<Rightarrow> LDone (mutex_left lo)
   | RDownWriteNotify lo \<Rightarrow> LDone (mutex_left lo) | RDone lo \<Rightarrow> LDone (mutex_left lo)
   | _ \<Rightarrow> LDone None)"

definition rw_left :: "'l rw \<Rightarrow> 'l leftovers" where
  "rw_left t = (case t of
     RUpgrade pc nr lo \<Rightarrow> lo | RReader lo \<Rightarrow> lo | RUpgradable lo \<Rightarrow> lo | RWriter lo \<Rightarrow> lo
   | RReadUnlockNotify lo \<Rightarrow> lo | RUpUnlockNotify lo \<Rightarrow> lo | RWriteUnlockNotify lo \<Rightarrow> lo
   | RUnlockMutex lo \<Rightarrow> lo | RUnlockMutexNotify lo \<Rightarrow> lo | RDownWriteMutex lo \<Rightarrow> lo
   | RDownWriteMutexNotify lo \<Rightarrow> lo | RDownWriteNotify lo \<Rightarrow> lo | RDownUpNotify lo \<Rightarrow> lo
   | RDone lo \<Rightarrow> lo | _ \<Rightarrow> [])"

definition rw_client_wf :: "'l rw \<Rightarrow> bool" where
  "rw_client_wf t \<longleftrightarrow> rw_wf t \<and> left_wf (rw_left t)"

lemma rw_lock_simps [simp]:
  "rw_lock RTryRead = LDone None" "rw_lock (RTryReadCas st) = LDone None"
  "rw_lock RReadCall = LDone None" "rw_lock (RRead rpc r) = LDone None"
  "rw_lock RTryUp = LTryLock" "rw_lock RTryUpLoad = LHeld None"
  "rw_lock (RTryUpCas st) = LHeld None" "rw_lock (RUpLock l) = l" "rw_lock (RUpLoad o1) = LHeld o1"
  "rw_lock (RUpCas st o1) = LHeld o1" "rw_lock RTryWrite = LTryLock"
  "rw_lock RTryWriteCas = LHeld None" "rw_lock (RWriteLock l) = l" "rw_lock (RWriteOr o1) = LHeld o1"
  "rw_lock (RWriteListen o1) = LHeld o1" "rw_lock (RWriteSet x nr ws) = LHeld (Some x)"
  "rw_lock (RWrite pc nr) = LHeld None" "rw_lock (RUpgrade pc nr lo) = LHeld (mutex_left lo)"
  "rw_lock (RReader lo) = LDone (mutex_left lo)" "rw_lock (RUpgradable lo) = LHeld (mutex_left lo)"
  "rw_lock (RWriter lo) = LHeld (mutex_left lo)"
  "rw_lock (RReadUnlockNotify lo) = LDone (mutex_left lo)"
  "rw_lock (RUpUnlockNotify lo) = LHeld (mutex_left lo)"
  "rw_lock (RWriteUnlockNotify lo) = LHeld (mutex_left lo)"
  "rw_lock (RUnlockMutex lo) = LHeld (mutex_left lo)"
  "rw_lock (RUnlockMutexNotify lo) = LUnlock (mutex_left lo)"
  "rw_lock (RDownWriteMutex lo) = LHeld (mutex_left lo)"
  "rw_lock (RDownWriteMutexNotify lo) = LUnlock (mutex_left lo)"
  "rw_lock (RDownWriteNotify lo) = LDone (mutex_left lo)"
  "rw_lock (RDownUpNotify lo) = LUnlock (mutex_left lo)" "rw_lock (RDone lo) = LDone (mutex_left lo)"
  by (simp_all add: rw_lock_def)

lemma rw_left_simps [simp]:
  "rw_left RTryRead = []" "rw_left (RTryReadCas st) = []" "rw_left RReadCall = []"
  "rw_left (RRead rpc r) = []" "rw_left RTryUp = []" "rw_left RTryUpLoad = []"
  "rw_left (RTryUpCas st) = []" "rw_left (RUpLock l) = []" "rw_left (RUpLoad o1) = []"
  "rw_left (RUpCas st o1) = []" "rw_left RTryWrite = []" "rw_left RTryWriteCas = []"
  "rw_left (RWriteLock l) = []" "rw_left (RWriteOr o1) = []" "rw_left (RWriteListen o1) = []"
  "rw_left (RWriteSet x nr ws) = []" "rw_left (RWrite pc nr) = []" "rw_left (RUpgrade pc nr lo) = lo"
  "rw_left (RReader lo) = lo" "rw_left (RUpgradable lo) = lo" "rw_left (RWriter lo) = lo"
  "rw_left (RReadUnlockNotify lo) = lo" "rw_left (RUpUnlockNotify lo) = lo"
  "rw_left (RWriteUnlockNotify lo) = lo" "rw_left (RUnlockMutex lo) = lo"
  "rw_left (RUnlockMutexNotify lo) = lo" "rw_left (RDownWriteMutex lo) = lo"
  "rw_left (RDownWriteMutexNotify lo) = lo" "rw_left (RDownWriteNotify lo) = lo"
  "rw_left (RDownUpNotify lo) = lo" "rw_left (RDone lo) = lo"
  by (simp_all add: rw_left_def)

lemma mutex_left_simps [simp]:
  "mutex_left [] = None" "mutex_left (left OnMutex x) = x"
  "mutex_left (left OnReaders x) = None" "mutex_left (left OnWriter x) = None"
  "mutex_left (left OnReaders x @ lo) = mutex_left lo"
  by (simp_all add: mutex_left_def left_def split: option.splits)

lemma left_wf_simps [simp]:
  "left_wf []" "left_wf (left OnMutex x)" "left_wf (left OnReaders x)" "left_wf (left OnWriter x)"
  "left_wf (left OnReaders x @ lo) = left_wf lo"
  by (simp_all add: left_wf_def left_def split: option.splits)

text \<open>Dropping one of the leftovers.\<close>

lemma left_remove:
  assumes j: "j < length lo" and wf: "left_wf lo"
  shows "left_wf (take j lo @ drop (Suc j) lo)"
    and "fst (lo ! j) = OnMutex \<Longrightarrow> mutex_left lo = Some (snd (lo ! j))"
    and "mutex_left (take j lo @ drop (Suc j) lo) =
      (if fst (lo ! j) = OnMutex then None else mutex_left lo)"
proof -
  obtain xs p ys where lo: "lo = xs @ p # ys" and x: "xs = take j lo" "p = lo ! j" "ys = drop (Suc j) lo"
    using id_take_nth_drop [OF j] by blast
  have none: "fst p = OnMutex \<Longrightarrow> map_of xs OnMutex = None \<and> map_of ys OnMutex = None"
    using wf by (auto simp: lo left_wf_def filter_empty_conv map_of_eq_None_iff)
  have wf': "left_wf (xs @ ys)" using wf by (simp add: lo left_wf_def split: if_splits)
  have same: "mutex_left (xs @ ys) = (if fst p = OnMutex then None else mutex_left lo)"
    using none by (auto simp: lo mutex_left_def map_add_def split: option.splits)
  have some: "fst p = OnMutex \<Longrightarrow> mutex_left lo = Some (snd p)"
    using none by (auto simp: lo mutex_left_def map_add_def split: option.splits)
  from wf' same some show "left_wf (take j lo @ drop (Suc j) lo)"
    "fst (lo ! j) = OnMutex \<Longrightarrow> mutex_left lo = Some (snd (lo ! j))"
    "mutex_left (take j lo @ drop (Suc j) lo) = (if fst (lo ! j) = OnMutex then None else mutex_left lo)"
    by (simp_all only: x [symmetric])
qed

lemma drop_on_mutex:
  "rmutex (drop_on ev w l s) =
     (if w = OnMutex then (rmutex s)\<lparr>lock_ops := ev_drop ev l (lock_ops (rmutex s))\<rparr> else rmutex s)"
  by (cases w) (simp_all add: drop_on_def on_mutex_def)

lemma drop_left_lock:
  assumes step: "drop_left ev j s lo C = Next (s', t')" and wf: "left_wf lo"
    and lock: "\<And>xs. rw_lock (C xs) = L (mutex_left xs)" and L: "L = LHeld \<or> L = LDone"
  shows "lock_move ev (rmutex s) (rw_lock (C lo)) (rmutex s') (rw_lock t')"
    and "\<exists>xs. t' = C xs \<and> left_wf xs"
proof -
  from step have j: "j < length lo" and s': "s' = drop_on ev (fst (lo ! j)) (snd (lo ! j)) s"
    and t': "t' = C (take j lo @ drop (Suc j) lo)"
    by (auto simp: drop_left_def split: if_splits)
  note rm = left_remove [OF j wf]
  from t' rm(1) show "\<exists>xs. t' = C xs \<and> left_wf xs" by blast
  show "lock_move ev (rmutex s) (rw_lock (C lo)) (rmutex s') (rw_lock t')"
    using rm(2,3) L by (auto simp: s' t' lock drop_on_mutex intro: drop_moves same_move)
qed

lemma drop_left_uses:
  "drop_left ev j s lo RReader = Next (s', t') \<Longrightarrow> left_wf lo \<Longrightarrow>
   lock_move ev (rmutex s) (LDone (mutex_left lo)) (rmutex s') (rw_lock t')"
  "drop_left ev j s lo RUpgradable = Next (s', t') \<Longrightarrow> left_wf lo \<Longrightarrow>
   lock_move ev (rmutex s) (LHeld (mutex_left lo)) (rmutex s') (rw_lock t')"
  "drop_left ev j s lo RWriter = Next (s', t') \<Longrightarrow> left_wf lo \<Longrightarrow>
   lock_move ev (rmutex s) (LHeld (mutex_left lo)) (rmutex s') (rw_lock t')"
  "drop_left ev j s lo RDone = Next (s', t') \<Longrightarrow> left_wf lo \<Longrightarrow>
   lock_move ev (rmutex s) (LDone (mutex_left lo)) (rmutex s') (rw_lock t')"
  "drop_left ev j s lo (RUpgrade pc nr) = Next (s', t') \<Longrightarrow> left_wf lo \<Longrightarrow>
   lock_move ev (rmutex s) (LHeld (mutex_left lo)) (rmutex s') (rw_lock t')"
  using drop_left_lock(1) [where C = RReader and L = LDone]
    drop_left_lock(1) [where C = RUpgradable and L = LHeld]
    drop_left_lock(1) [where C = RWriter and L = LHeld]
    drop_left_lock(1) [where C = RDone and L = LDone]
    drop_left_lock(1) [where C = "RUpgrade pc nr" and L = LHeld]
  by simp_all

lemma drop_left_left:
  "drop_left ev j s lo C = Next (s', t') \<Longrightarrow> left_wf lo \<Longrightarrow> (\<And>xs. rw_left (C xs) = xs) \<Longrightarrow>
   left_wf (rw_left t')"
  by (auto simp: drop_left_def left_remove(1) split: if_splits)

subsection \<open>Every step uses the lock future as the mutex allows\<close>

lemma read_head_lock:
  "read_head r = Next t \<Longrightarrow> rw_lock t = LDone None \<and> rw_left t = []"
  "try_read_head st = Next t \<Longrightarrow> rw_lock t = LDone None \<and> rw_left t = []"
  by (auto simp: read_head_def try_read_head_def split: if_splits)

lemma read_step_lock:
  "read_step ev pc s r = Next (s', t') \<Longrightarrow>
   rmutex s' = rmutex s \<and> rw_lock t' = LDone None \<and> left_wf (rw_left t')"
  by (cases pc)
     (auto simp: stay_Next Let_def dest!: read_head_lock split: prod.splits sum.splits option.splits if_splits)

lemma write_step_lock:
  "write_step ev pc s nr = Next (s', t') \<Longrightarrow>
   rmutex s' = rmutex s \<and> rw_lock t' = LHeld None \<and> left_wf (rw_left t')"
  by (cases pc) (auto split: prod.splits option.splits if_splits)

lemma upgrade_step_lock:
  "upgrade_step ev pc s nr lo = Next (s', t') \<Longrightarrow> left_wf lo \<Longrightarrow>
   rmutex s' = rmutex s \<and> rw_lock t' = LHeld (mutex_left lo) \<and> left_wf (rw_left t')"
  by (cases pc) (auto split: prod.splits option.splits if_splits)

lemma write_set_lock:
  "rw_lock (write_set lo nr st) = LHeld lo" "left_wf (rw_left (write_set lo nr st))"
  "rw_lock (write_enter nr st) = LHeld None" "left_wf (rw_left (write_enter nr st))"
  by (simp_all add: write_set_def write_enter_def split: option.splits write_state.splits)

lemma guard_steps_lock:
  "reader_step ev i s lo = Next (s', t') \<Longrightarrow> left_wf lo \<Longrightarrow>
   lock_move ev (rmutex s) (LDone (mutex_left lo)) (rmutex s') (rw_lock t') \<and> left_wf (rw_left t')"
  "upgradable_step ev i s lo = Next (s', t') \<Longrightarrow> left_wf lo \<Longrightarrow>
   lock_move ev (rmutex s) (LHeld (mutex_left lo)) (rmutex s') (rw_lock t') \<and> left_wf (rw_left t')"
  "writer_step ev i s lo = Next (s', t') \<Longrightarrow> left_wf lo \<Longrightarrow>
   lock_move ev (rmutex s) (LHeld (mutex_left lo)) (rmutex s') (rw_lock t') \<and> left_wf (rw_left t')"
  subgoal
    by (auto simp: reader_step_def read_unlock_def Let_def fetch_sub_def same_move
        drop_left_uses drop_left_left split: rw_in.splits if_splits)
  subgoal
    by (auto simp: upgradable_step_def upgradable_read_unlock_def downgrade_upgradable_read_def
        try_upgrade_def upgrade_def on_mutex_def fetch_sub_def Let_def same_move held_moves
        drop_left_uses drop_left_left split: rw_in.splits if_splits prod.splits)
  subgoal
    by (auto simp: writer_step_def write_unlock_def downgrade_write_def downgrade_to_upgradable_def
        same_move drop_left_uses drop_left_left split: rw_in.splits if_splits)
  done

lemma lock_step_into:
  assumes "lock_step ev i m l = Next (m', l')" and "embedded l" and "lock_wf l"
  shows "lock_move ev m l m' l'" and "rw_lock (case l' of LHeld lo \<Rightarrow> RUpLoad lo | _ \<Rightarrow> RUpLock l') = l'"
    and "rw_lock (case l' of LHeld lo \<Rightarrow> RWriteOr lo | _ \<Rightarrow> RWriteLock l') = l'"
    and "rw_left (case l' of LHeld lo \<Rightarrow> RUpLoad lo | _ \<Rightarrow> RUpLock l') = []"
    and "rw_left (case l' of LHeld lo \<Rightarrow> RWriteOr lo | _ \<Rightarrow> RWriteLock l') = []"
  using lock_moveI [OF assms(1)] by (simp_all split: lock.splits)

lemma rw_step_uses:
  assumes step: "rw_step ev i s t = Next (s', t')" and wf: "rw_client_wf t"
  shows "lock_move ev (rmutex s) (rw_lock t) (rmutex s') (rw_lock t') \<and> left_wf (rw_left t')"
proof -
  from wf have w: "rw_wf t" and lw: "left_wf (rw_left t)" by (simp_all add: rw_client_wf_def)
  show ?thesis
  proof (cases t)
    case (RRead pc r)
    with step show ?thesis
      by (auto simp: rw_step_def run_only_Next stay_Next same_move dest!: read_head_lock read_step_lock
          split: rw_in.splits if_splits)
  next
    case (RTryReadCas st)
    with step show ?thesis
      by (auto simp: rw_step_def run_only_Next try_read_cas_def stay_Next Let_def same_move
          dest!: read_head_lock split: sum.splits prod.splits)
  next
    case RTryRead
    with step show ?thesis
      by (auto simp: rw_step_def run_only_Next try_read_load_def stay_Next same_move
          dest!: read_head_lock)
  next
    case (RUpLock l)
    with step w show ?thesis
      by (auto simp: rw_step_def up_lock_step_def map_outcome_Next_iff lock_step_into
          split: option.splits)
  next
    case (RWriteLock l)
    with step w show ?thesis
      by (auto simp: rw_step_def write_lock_step_def map_outcome_Next_iff lock_step_into
          split: option.splits)
  next
    case (RWrite pc nr)
    with step show ?thesis
      by (auto simp: rw_step_def run_only_Next write_unlock_def same_move dest!: write_step_lock
          split: rw_in.splits if_splits)
  next
    case (RUpgrade pc nr lo)
    with step lw show ?thesis
      by (auto simp: rw_step_def run_only_Next write_unlock_def same_move drop_left_uses
          drop_left_left dest!: upgrade_step_lock split: rw_in.splits if_splits)
  next
    case (RWriteSet l nr ws)
    with step show ?thesis
      by (auto simp: rw_step_def run_only_Next write_drop_lock_def on_mutex_def write_set_lock drop_moves)
  qed (use step lw in \<open>auto simp: rw_step_def run_only_Next stay_Next guard_steps_lock Let_def
      try_upgradable_read_def try_upgradable_load_def try_upgradable_cas_def up_load_def up_cas_def
      try_write_def try_write_cas_def notify_no_writer_def notify_no_readers_def on_mutex_def
      write_or_def write_listen_def write_set_lock same_move held_moves drop_left_uses drop_left_left
      dest: try_lock_move [where ev = ev]
      split: rw_in.splits if_splits prod.splits sum.splits\<close>)
qed

interpretation rw_client: lock_client ev "rw_step ev" rw_fresh rw_start rmutex rw_lock rw_client_wf
  for ev :: "('e, 'l) event_ops"
proof
  show "rw_start new_event s \<Longrightarrow> mutex_start new_event (rmutex s)" for new_event and s :: "'e raw_rwlock"
    by (simp add: rw_start_def)
  show "rw_fresh t \<Longrightarrow> inert (rw_lock t)" for t :: "'l rw"
    by (auto simp: rw_fresh_def inert_def)
  show "rw_fresh t \<Longrightarrow> rw_client_wf t" for t :: "'l rw"
    by (auto simp: rw_fresh_def rw_client_wf_def embedded_def lock_wf_def)
  fix i and s s' :: "'e raw_rwlock" and t t'
  assume step: "rw_step ev i s t = Next (s', t')" and wf: "rw_client_wf t"
  from rw_step_uses [OF step wf] rw_step_wf [OF step] wf show "rw_client_wf t'"
    by (simp add: rw_client_wf_def)
  from rw_step_uses [OF step wf]
  show "lock_move ev (rmutex s) (rw_lock t) (rmutex s') (rw_lock t')" by simp
qed

subsection \<open>Properties\<close>

text \<open>The state of the mutex inside the lock: at rest, and free.\<close>

lemma rw_rest_lock:
  assumes "rw_at_rest t" and "role t = Idle \<or> role t = Rd"
  shows "lock_at_rest (rw_lock t)" and "lock_owner (rw_lock t) = 0"
  using assms
  by (cases t; auto simp: rw_at_rest_def lock_at_rest_def lock_role_def lock_owner_def split: if_splits)+

text \<open>
  C20: a writer is not stranded behind a writer. Under the event laws, when every task is at rest, nobody
  has an upgradable or a write guard or waits for readers to leave, and some task is suspended on
  the mutex in \<open>write()\<close> or \<open>upgradable_read()\<close>, then one of the suspended tasks has been notified.
\<close>

theorem rwlock_mutex_wakes:
  assumes laws: "event_laws ev vw" and reach: "rw_reachable ev (fresh_event vw) S"
    and rest: "\<forall>t \<in> set (tasks S). rw_at_rest t"
    and free: "\<forall>t \<in> set (tasks S). role t = Idle \<or> role t = Rd"
    and k: "k < length (tasks S)"
    and susp: "tasks S ! k = RWriteLock (LSlow s) \<or> tasks S ! k = RUpLock (LSlow s)"
  shows "\<exists>j < length (tasks S). \<exists>s' x.
    (tasks S ! j = RWriteLock (LSlow s') \<or> tasks S ! j = RUpLock (LSlow s')) \<and>
    sl_listener s' = Some x \<and> x \<in> notified vw (lock_ops (rmutex (shared S)))"
proof -
  have "lock_at_rest (rw_lock t)" and "lock_owner (rw_lock t) = 0" if "t \<in> set (tasks S)" for t
    using rest free that by (auto intro: rw_rest_lock)
  moreover have "rw_lock (tasks S ! k) = LSlow s" using susp by auto
  ultimately obtain j s' x where j: "j < length (tasks S)" "rw_lock (tasks S ! j) = LSlow s'"
    and x: "sl_listener s' = Some x" "x \<in> notified vw (lock_ops (rmutex (shared S)))"
    using rw_client.client_rest [OF laws reach _ _ k] by metis
  from j(2) have "tasks S ! j = RWriteLock (LSlow s') \<or> tasks S ! j = RUpLock (LSlow s')"
    by (cases "tasks S ! j") auto
  with j(1) x show ?thesis by blast
qed

text \<open>The upgrader of \<open>demo_drained\<close> becomes a writer and unlocks; the other writer is notified.\<close>

definition demo_passed_on :: "(qevent raw_rwlock, nat rw) sys" where
  "demo_passed_on =
     \<lparr>shared = \<lparr>rmutex = \<lparr>mstate = 0, lock_ops = [Some True], mdata = ()\<rparr>,
        no_readers = [None], no_writer = [], rstate = 0\<rparr>,
      tasks = [RDone [], RDone [],
        RWriteLock (LSlow \<lparr>sl_mutex = True, sl_listener = Some 0, sl_start = Some 0, sl_starved = False\<rparr>)]\<rparr>"

lemma demo_passed_on_run:
  "exec (rw_step queue_events) rw_fresh
     [Act 1 (RwPoll 0), Act 1 (RwRun 0), Act 1 (RwDropFut 0), Act 1 RwUnlock,
      Act 1 (RwRun 0), Act 1 (RwRun 0), Act 1 (RwRun 0)] demo_drained = Next demo_passed_on"
  by (simp add: rw_run_simps demo_drained_def demo_passed_on_def)

theorem rwlock_mutex_wakes_witness:
  "0 \<in> notified queue_view (lock_ops (rmutex (shared demo_passed_on)))"
proof -
  note reach = exec_reachable [OF demo_passed_on_run
      exec_reachable [OF demo_drained_run demo_shared_reachable]]
  have rest: "\<forall>t \<in> set (tasks demo_passed_on). rw_at_rest t"
    and free: "\<forall>t \<in> set (tasks demo_passed_on). role t = Idle \<or> role t = Rd"
    by (simp_all add: demo_passed_on_def rw_at_rest_def lock_at_rest_def lock_role_def lock_owner_def)
  have susp: "2 < length (tasks demo_passed_on)" "tasks demo_passed_on ! 2 = RWriteLock (LSlow
      \<lparr>sl_mutex = True, sl_listener = Some 0, sl_start = Some 0, sl_starved = False\<rparr>)"
    by (simp_all add: demo_passed_on_def)
  show ?thesis
    using rwlock_mutex_wakes [OF queue_events_laws reach rest free susp(1) disjI1 [OF susp(2)]]
    by (auto simp: demo_passed_on_def less_Suc_eq numeral_3_eq_3)
qed

end
