(* ===== verification/RawRwLock_Readers.thy ===== *)
theory RawRwLock_Readers
  imports RawRwLock_Mutex
begin

text \<open>
  A reader is not stranded, as long as no client calls \<open>downgrade_to_upgradable\<close>. A reader that finds
  the writer bit set waits with a listener of \<open>no_writer\<close>. First: the registered listeners of that
  event are those the tasks own. Then the invariant: while the writer bit is clear and a reader
  waits, some listener is notified or some task is about to notify. \<open>downgrade_to_upgradable\<close> clears
  the bit and notifies nobody (\<open>rwlock_reader_stuck\<close>).
\<close>

subsection \<open>The listeners of \<open>no_writer\<close>\<close>

abbreviation on_writer :: "'l leftovers \<Rightarrow> 'l multiset" where
  "on_writer \<equiv> left_on OnWriter"

definition wshr :: "'l rw \<Rightarrow> 'l multiset" where
  "wshr t = (case t of RRead pc r \<Rightarrow> opt_mset (rd_listener r) | _ \<Rightarrow> on_writer (rw_left t))"

lemma wshr_read [simp]: "wshr (RRead pc r) = opt_mset (rd_listener r)"
  by (simp add: wshr_def)

lemma wshr_left [simp]: "(\<And>pc r. t \<noteq> RRead pc r) \<Longrightarrow> wshr t = on_writer (rw_left t)"
  by (cases t) (simp_all add: wshr_def, blast)

text \<open>A reader that is suspended, or will suspend unless its listener is notified.\<close>

definition read_waits :: "'l rw \<Rightarrow> bool" where
  "read_waits t = (case t of RRead pc r \<Rightarrow> pc = RdWait \<or> pc = RdSleep | _ \<Rightarrow> False)"

text \<open>About to notify \<open>no_writer\<close>.\<close>

definition read_carries :: "'l rw \<Rightarrow> bool" where
  "read_carries t = (case t of
     RRead pc r \<Rightarrow> pc = RdNotify
   | RWriteUnlockNotify lo \<Rightarrow> True
   | RDownWriteMutex lo \<Rightarrow> True | RDownWriteMutexNotify lo \<Rightarrow> True | RDownWriteNotify lo \<Rightarrow> True
   | _ \<Rightarrow> False)"

lemma read_waits_simps [simp]:
  "read_waits (RRead pc r) \<longleftrightarrow> pc = RdWait \<or> pc = RdSleep"
  "(\<And>pc r. t \<noteq> RRead pc r) \<Longrightarrow> \<not> read_waits t"
  by (simp_all add: read_waits_def split: rw.splits)

lemma read_carries_simps [simp]:
  "read_carries (RRead pc r) \<longleftrightarrow> pc = RdNotify"
  "read_carries (RWriteUnlockNotify lo)" "read_carries (RDownWriteMutex lo)"
  "read_carries (RDownWriteMutexNotify lo)" "read_carries (RDownWriteNotify lo)"
  "\<not> read_carries RTryRead" "\<not> read_carries (RTryReadCas st)"
  "\<not> read_carries RReadCall" "\<not> read_carries RTryUp" "\<not> read_carries RTryUpLoad"
  "\<not> read_carries (RTryUpCas st)" "\<not> read_carries (RUpLock l)"
  "\<not> read_carries (RUpLoad o1)" "\<not> read_carries (RUpCas st o1)"
  "\<not> read_carries RTryWrite" "\<not> read_carries RTryWriteCas"
  "\<not> read_carries (RWriteLock l)" "\<not> read_carries (RWriteOr o1)"
  "\<not> read_carries (RWriteListen o1)" "\<not> read_carries (RWriteSet x nr ws)"
  "\<not> read_carries (RWrite dpc nr)" "\<not> read_carries (RUpgrade dpc nr lo)"
  "\<not> read_carries (RReader lo)" "\<not> read_carries (RUpgradable lo)"
  "\<not> read_carries (RWriter lo)" "\<not> read_carries (RReadUnlockNotify lo)"
  "\<not> read_carries (RUpUnlockNotify lo)" "\<not> read_carries (RUnlockMutex lo)"
  "\<not> read_carries (RUnlockMutexNotify lo)" "\<not> read_carries (RDownUpNotify lo)"
  "\<not> read_carries (RDone lo)"
  by (simp_all add: read_carries_def)

definition writer_move :: "('e, 'l) event_ops \<Rightarrow> 'e raw_rwlock \<Rightarrow> 'l rw \<Rightarrow> 'e raw_rwlock \<Rightarrow> 'l rw \<Rightarrow> bool" where
  "writer_move ev s t s' t' \<longleftrightarrow>
     share_move ev (read_carries t') (no_writer s) (wshr t) (no_writer s') (wshr t')"

lemma writer_move_none:
  "no_writer s' = no_writer s \<Longrightarrow> wshr t' = wshr t \<Longrightarrow> writer_move ev s t s' t'"
  by (simp add: writer_move_def share_move_none)

lemma writer_moves:
  "ev_listen ev (no_writer s) = (l, no_writer s') \<Longrightarrow> wshr t' = add_mset l (wshr t) \<Longrightarrow> writer_move ev s t s' t'"
  "no_writer s' = ev_notify ev n (no_writer s) \<Longrightarrow> wshr t' = wshr t \<Longrightarrow> writer_move ev s t s' t'"
  "ev_poll ev l (no_writer s) = (r, no_writer s') \<Longrightarrow> l \<in># wshr t \<Longrightarrow>
   wshr t' = (if r then wshr t - {#l#} else wshr t) \<Longrightarrow> r \<longrightarrow> read_carries t' \<Longrightarrow> writer_move ev s t s' t'"
  unfolding writer_move_def by (fact share_move_listen share_move_notify share_move_poll)+

lemma drop_left_writer:
  "drop_left ev j s lo C = Next (s', t') \<Longrightarrow> (\<And>xs. wshr (C xs) = {#} + on_writer xs) \<Longrightarrow>
   writer_move ev s (C lo) s' t'"
  unfolding writer_move_def by (drule drop_left_share [where f = wshr and w = OnWriter]) (simp_all add: event_at_def)

lemma drop_left_writers:
  "drop_left ev j s lo RReader = Next (s', t') \<Longrightarrow> writer_move ev s (RReader lo) s' t'"
  "drop_left ev j s lo RUpgradable = Next (s', t') \<Longrightarrow> writer_move ev s (RUpgradable lo) s' t'"
  "drop_left ev j s lo RWriter = Next (s', t') \<Longrightarrow> writer_move ev s (RWriter lo) s' t'"
  "drop_left ev j s lo RDone = Next (s', t') \<Longrightarrow> writer_move ev s (RDone lo) s' t'"
  "drop_left ev j s lo (RUpgrade pc nr) = Next (s', t') \<Longrightarrow> writer_move ev s (RUpgrade pc nr lo) s' t'"
  by (erule drop_left_writer, simp)+

lemma read_head_writer: 
  "read_head r = Next t \<Longrightarrow> wshr t = opt_mset (rd_listener r)"
  "try_read_head st = Next t \<Longrightarrow> wshr t = {#}"
  by (auto simp: read_head_def try_read_head_def split: if_splits)

lemma read_step_writer:
  assumes "read_step ev pc s r = Next (s', t')" and "rw_wf (RRead pc r)"
  shows "writer_move ev s (RRead pc r) s' t'"
proof (cases pc)
  case RdListen
  obtain l e where l: "ev_listen ev (no_writer s) = (l, e)" by fastforce
  with RdListen assms show ?thesis
    by (intro writer_moves(1) [where l = l]) auto
next
  case RdWait
  with assms obtain x where x: "rd_listener r = Some x" by auto
  obtain b e where p: "ev_poll ev x (no_writer s) = (b, e)" by fastforce
  with RdWait x assms show ?thesis
    by (intro writer_moves(3) [where l = x and r = b]) (auto split: if_splits)
next
  case RdNotify
  with assms show ?thesis by (auto intro: writer_moves(2))
qed (use assms in \<open>auto simp: stay_Next Let_def intro!: writer_move_none dest: read_head_writer
       split: prod.splits sum.splits if_splits\<close>)

lemma write_step_writer:
  "write_step ev pc s nr = Next (s', t') \<Longrightarrow> no_writer s' = no_writer s \<and> wshr t' = {#}"
  by (cases pc) (auto split: prod.splits option.splits if_splits)

lemma upgrade_step_writer:
  "upgrade_step ev pc s nr lo = Next (s', t') \<Longrightarrow> no_writer s' = no_writer s \<and> wshr t' = on_writer lo"
  by (cases pc) (auto split: prod.splits option.splits if_splits)

lemma write_set_writer: "wshr (write_set lo nr st) = {#}" "wshr (write_enter nr st) = {#}"
  by (simp_all add: write_set_def write_enter_def split: option.splits write_state.splits)

lemma lock_into_writer:
  "wshr (case l of LHeld lo \<Rightarrow> RUpLoad lo | _ \<Rightarrow> RUpLock l) = {#}"
  "wshr (case l of LHeld lo \<Rightarrow> RWriteOr lo | _ \<Rightarrow> RWriteLock l) = {#}"
  by (simp_all split: lock.splits)

lemma guard_steps_writer:
  "reader_step ev i s lo = Next (s', t') \<Longrightarrow> writer_move ev s (RReader lo) s' t'"
  "upgradable_step ev i s lo = Next (s', t') \<Longrightarrow> writer_move ev s (RUpgradable lo) s' t'"
  "writer_step ev i s lo = Next (s', t') \<Longrightarrow> writer_move ev s (RWriter lo) s' t'"
  subgoal
    by (auto simp: reader_step_def read_unlock_def Let_def fetch_sub_def intro!: writer_move_none
        elim!: drop_left_writers split: rw_in.splits if_splits)
  subgoal
    by (auto simp: upgradable_step_def upgradable_read_unlock_def downgrade_upgradable_read_def
        try_upgrade_def upgrade_def on_mutex_def fetch_sub_def Let_def intro!: writer_move_none
        elim!: drop_left_writers split: rw_in.splits if_splits prod.splits)
  subgoal
    by (auto simp: writer_step_def write_unlock_def downgrade_write_def downgrade_to_upgradable_def
        intro!: writer_move_none elim!: drop_left_writers split: rw_in.splits if_splits)
  done

lemma rw_step_writer:
  assumes step: "rw_step ev i s t = Next (s', t')" and wf: "rw_wf t"
  shows "writer_move ev s t s' t'"
proof (cases t)
  case (RRead pc r)
  with step wf show ?thesis
    by (auto simp: rw_step_def run_only_Next stay_Next intro!: writer_move_none
        dest: read_head_writer elim!: read_step_writer split: rw_in.splits if_splits)
next
  case (RTryReadCas st)
  with step show ?thesis
    by (auto simp: rw_step_def run_only_Next try_read_cas_def stay_Next Let_def intro!: writer_move_none
        dest: read_head_writer split: sum.splits prod.splits)
next
  case RTryRead
  with step show ?thesis
    by (auto simp: rw_step_def run_only_Next try_read_load_def stay_Next intro!: writer_move_none
        dest: read_head_writer)
next
  case (RUpLock l)
  with step show ?thesis
    by (auto simp: rw_step_def up_lock_step_def map_outcome_Next_iff lock_into_writer
        intro!: writer_move_none split: option.splits)
next
  case (RWriteLock l)
  with step show ?thesis
    by (auto simp: rw_step_def write_lock_step_def map_outcome_Next_iff lock_into_writer
        intro!: writer_move_none split: option.splits)
next
  case (RWrite pc nr)
  with step show ?thesis
    by (auto simp: rw_step_def run_only_Next write_unlock_def intro!: writer_move_none
        dest!: write_step_writer split: rw_in.splits if_splits)
next
  case (RUpgrade pc nr lo)
  with step show ?thesis
    by (auto simp: rw_step_def run_only_Next write_unlock_def intro!: writer_move_none
        elim!: drop_left_writers dest: upgrade_step_writer split: rw_in.splits if_splits)
next
  case (RDownWriteNotify lo)
  with step show ?thesis
    by (auto simp: rw_step_def run_only_Next notify_no_writer_def intro: writer_moves(2))
next
  case (RWriteUnlockNotify lo)
  with step show ?thesis
    by (auto simp: rw_step_def run_only_Next notify_no_writer_def intro: writer_moves(2))
qed (use step in \<open>auto simp: rw_step_def run_only_Next stay_Next guard_steps_writer Let_def
      try_upgradable_read_def try_upgradable_load_def try_upgradable_cas_def up_load_def up_cas_def
      try_write_def try_write_cas_def notify_no_readers_def on_mutex_def
      read_new_def write_or_def write_listen_def write_drop_lock_def write_set_writer
      intro!: writer_move_none elim!: drop_left_writers
      split: rw_in.splits if_splits prod.splits sum.splits\<close>)

definition listeners_ok :: "('e, 'l) event_view \<Rightarrow> ('e raw_rwlock, 'l rw) sys \<Rightarrow> bool" where
  "listeners_ok vw S \<longleftrightarrow> drain_inv vw S \<and> shares_inv vw wshr (no_writer (shared S)) (tasks S)"

lemma listeners_ok_act:
  assumes laws: "event_laws ev vw" and ok: "listeners_ok vw S" and k: "k < length (tasks S)"
    and step: "rw_step ev i (shared S) (tasks S ! k) = Next (s', t')"
  shows "listeners_ok vw \<lparr>shared = s', tasks = (tasks S)[k := t']\<rparr>"
proof -
  from ok have drain: "drain_inv vw S" and shares: "shares_inv vw wshr (no_writer (shared S)) (tasks S)"
    by (simp_all add: listeners_ok_def)
  from drain k have "rw_wf (tasks S ! k)" by (simp add: drain_inv_def counting_inv_def)
  from shares_inv_move [OF laws shares k rw_step_writer [OF step this, unfolded writer_move_def]]
    drain_inv_act [OF laws drain k step]
  show ?thesis by (simp add: listeners_ok_def)
qed

interpretation rw_shares: inv_system "rw_step ev" rw_fresh "rw_start (fresh_event vw)"
    "\<lambda>S. event_laws ev vw \<longrightarrow> listeners_ok vw S"
  for ev :: "('e, 'l) event_ops" and vw
proof
  fix s :: "'e raw_rwlock"
  assume start: "rw_start (fresh_event vw) s"
  with rw_drain.inv_init [OF start, of ev]
  show "event_laws ev vw \<longrightarrow> listeners_ok vw \<lparr>shared = s, tasks = []\<rparr>"
    by (simp add: listeners_ok_def rw_start_def shares_inv_Nil)
next
  fix S :: "('e raw_rwlock, 'l rw) sys" and t :: "'l rw"
  assume inv: "event_laws ev vw \<longrightarrow> listeners_ok vw S" and t: "rw_fresh t"
  have "wshr t = {#}" using t by (auto simp: rw_fresh_def)
  with inv rw_drain.inv_spawn [OF _ t, of ev vw S]
  show "event_laws ev vw \<longrightarrow> listeners_ok vw (S\<lparr>tasks := tasks S @ [t]\<rparr>)"
    by (auto simp: listeners_ok_def intro: shares_inv_snoc)
qed (blast intro: listeners_ok_act)

subsection \<open>What a step does with the duty\<close>

text \<open>
  If the task does not carry afterwards: it has just notified; or the writer bit is set; or it did not
  carry before either, the bit was clear, and it waits only if it already did.
\<close>

definition read_duty :: "('e, 'l) event_ops \<Rightarrow> 'e raw_rwlock \<Rightarrow> 'l rw \<Rightarrow> 'e raw_rwlock \<Rightarrow> 'l rw \<Rightarrow> bool" where
  "read_duty ev s t s' t' \<longleftrightarrow> read_carries t' \<or>
     no_writer s' = ev_notify ev 1 (no_writer s) \<or> odd (rstate s') \<or>
     (\<not> read_carries t \<and> even (rstate s) \<and> (read_waits t' \<longrightarrow> read_waits t))"

lemma read_duty_stay:
  "rstate s' = rstate s \<Longrightarrow> \<not> read_carries t \<Longrightarrow> (read_waits t' \<Longrightarrow> read_waits t \<or> odd (rstate s)) \<Longrightarrow>
   read_duty ev s t s' t'"
  by (auto simp: read_duty_def)

lemma even_state: "even (unat st) \<longleftrightarrow> even (st :: usize)"
  using and_1_eq_0_iff [of st] by (simp only: and_one_eq even_iff_mod_2_eq_zero)

lemma odd_state: "st AND WRITER_BIT \<noteq> 0 \<longleftrightarrow> odd (st :: usize)"
  by (simp add: WRITER_BIT_and even_state)

lemma read_head_waits:
  "read_head r = Next t \<Longrightarrow> read_waits t \<Longrightarrow> odd (rd_state r) \<and> rd_listener r \<noteq> None"
  by (auto simp: read_head_def odd_state [symmetric] split: if_splits)

lemma try_read_head_waits: "try_read_head st = Next t \<Longrightarrow> \<not> read_waits t"
  by (auto simp: try_read_head_def split: if_splits)

lemma read_step_duty_writer:
  assumes "read_step ev pc s r = Next (s', t')" and "rw_wf (RRead pc r)"
  shows "read_duty ev s (RRead pc r) s' t'"
proof (cases pc)
  case RdCas
  with assms show ?thesis
    by (auto simp: stay_Next compare_exchange_def Let_def rw_consts read_duty_def
        dest: read_head_waits split: if_splits)
next
  case RdNotify
  with assms show ?thesis by (auto simp: read_duty_def)
qed (use assms in \<open>auto simp: stay_Next Let_def intro!: read_duty_stay dest: read_head_waits
      split: prod.splits option.splits if_splits\<close>)

lemma drop_left_state: "drop_left ev j s lo C = Next (s', t') \<Longrightarrow> rstate s' = rstate s \<and> (\<exists>xs. t' = C xs)"
  by (auto simp: drop_left_def drop_on_def on_mutex_def split: if_splits rw_event.splits)

lemma guard_steps_duty_writer:
  "reader_step ev i s lo = Next (s', t') \<Longrightarrow> read_duty ev s (RReader lo) s' t'"
  "upgradable_step ev i s lo = Next (s', t') \<Longrightarrow> even (rstate s) \<Longrightarrow> read_duty ev s (RUpgradable lo) s' t'"
  "writer_step ev i s lo = Next (s', t') \<Longrightarrow> i \<noteq> RwDowngradeUp \<Longrightarrow> read_duty ev s (RWriter lo) s' t'"
  subgoal
    by (auto simp: reader_step_def read_unlock_def fetch_sub_def rw_consts Let_def read_duty_def
        dest: drop_left_state split: rw_in.splits if_splits)
  subgoal
    by (auto simp: upgradable_step_def upgradable_read_unlock_def downgrade_upgradable_read_def
        try_upgrade_def upgrade_def on_mutex_def compare_exchange_def fetch_sub_def rw_consts Let_def
        read_duty_def dest: drop_left_state split: rw_in.splits if_splits prod.splits)
  subgoal
    by (auto simp: writer_step_def write_unlock_def downgrade_write_def
        read_duty_def dest: drop_left_state split: rw_in.splits if_splits)
  done

lemma write_step_duty_writer:
  "write_step ev pc s nr = Next (s', t') \<Longrightarrow> read_duty ev s (RWrite pc nr) s' t'"
  by (cases pc) (auto intro!: read_duty_stay simp: Let_def split: prod.splits option.splits if_splits)

lemma upgrade_step_duty_writer:
  "upgrade_step ev pc s nr lo = Next (s', t') \<Longrightarrow> read_duty ev s (RUpgrade pc nr lo) s' t'"
  by (cases pc) (auto intro!: read_duty_stay simp: Let_def split: prod.splits option.splits if_splits)

lemma rw_step_duty_writer:
  assumes step: "rw_step ev i s t = Next (s', t')" and wf: "rw_wf t"
    and up: "role t = Up \<Longrightarrow> even (rstate s)" and kept: "i \<noteq> RwDowngradeUp"
  shows "read_duty ev s t s' t'"
proof (cases t)
  case (RRead pc r)
  with step wf show ?thesis
    by (auto simp: rw_step_def run_only_Next stay_Next intro!: read_duty_stay
        dest: read_head_waits elim!: read_step_duty_writer split: rw_in.splits if_splits)
next
  case (RTryReadCas st)
  with step wf show ?thesis
    by (auto simp: rw_step_def run_only_Next try_read_cas_def compare_exchange_def rw_consts stay_Next
        read_duty_def Let_def dest: try_read_head_waits split: sum.splits prod.splits if_splits)
next
  case RTryRead
  with step show ?thesis
    by (auto simp: rw_step_def run_only_Next try_read_load_def stay_Next intro!: read_duty_stay
        dest: try_read_head_waits)
next
  case (RUpLock l)
  with step wf show ?thesis
    by (auto simp: rw_step_def intro!: read_duty_stay elim!: up_lock_stepE split: option.splits)
next
  case (RWriteLock l)
  with step wf show ?thesis
    by (auto simp: rw_step_def intro!: read_duty_stay elim!: write_lock_stepE split: option.splits)
next
  case (RWrite pc nr)
  with step show ?thesis
    by (auto simp: rw_step_def run_only_Next write_unlock_def elim!: write_step_duty_writer
        split: rw_in.splits if_splits) (auto simp: read_duty_def)
next
  case (RUpgrade pc nr lo)
  with step show ?thesis
    by (auto simp: rw_step_def run_only_Next write_unlock_def elim!: upgrade_step_duty_writer
        dest!: drop_left_state split: rw_in.splits if_splits) (auto simp: read_duty_def)
next
  case (RReader lo)
  with step show ?thesis by (auto simp: rw_step_def dest: guard_steps_duty_writer(1))
next
  case (RUpgradable lo)
  with step up show ?thesis by (auto simp: rw_step_def dest: guard_steps_duty_writer(2))
next
  case (RWriter lo)
  with step kept show ?thesis by (auto simp: rw_step_def dest: guard_steps_duty_writer(3))
next
  case (RDone lo)
  with step show ?thesis
    by (auto simp: rw_step_def intro!: read_duty_stay dest!: drop_left_state split: rw_in.splits)
qed (use step in \<open>auto simp: rw_step_def run_only_Next stay_Next Let_def compare_exchange_def rw_consts
      try_upgradable_read_def try_upgradable_load_def try_upgradable_cas_def up_load_def up_cas_def
      try_write_def try_write_cas_def notify_no_writer_def notify_no_readers_def on_mutex_def
      write_or_def write_listen_def write_drop_lock_def write_set_def write_enter_def read_new_def fetch_or_def
      read_duty_def even_or_iff split: rw_in.splits if_splits prod.splits sum.splits option.splits write_state.splits\<close>)

subsection \<open>The invariant\<close>

text \<open>The actions of clients that do not call \<open>downgrade_to_upgradable\<close>.\<close>

definition rw_step_simple ::
    "('e, 'l) event_ops \<Rightarrow> rw_in \<Rightarrow> 'e raw_rwlock \<Rightarrow> 'l rw \<Rightarrow> ('e raw_rwlock \<times> 'l rw) outcome" where
  "rw_step_simple ev i s t = (if i = RwDowngradeUp then Disabled else rw_step ev i s t)"

lemma rw_step_simple_Next:
  "rw_step_simple ev i s t = Next x \<longleftrightarrow> i \<noteq> RwDowngradeUp \<and> rw_step ev i s t = Next x"
  by (simp add: rw_step_simple_def)

abbreviation rw_simple_reachable ::
    "('e, 'l) event_ops \<Rightarrow> ('e \<Rightarrow> bool) \<Rightarrow> ('e raw_rwlock, 'l rw) sys \<Rightarrow> bool" where
  "rw_simple_reachable ev new_event \<equiv> reachable (rw_step_simple ev) rw_fresh (rw_start new_event)"

lemma rw_simple_reachable: "rw_simple_reachable ev new_event S \<Longrightarrow> rw_reachable ev new_event S"
  by (erule reachable_mono) (simp add: rw_step_simple_Next)

lemma read_waits_listener: "read_waits t \<Longrightarrow> rw_wf t \<Longrightarrow> \<exists>x. x \<in># wshr t"
  by (cases t) auto

interpretation rw_read_duty: share_duty wshr read_waits read_carries rw_wf
  by unfold_locales (rule read_waits_listener)

definition read_done :: "('e, 'l) event_view \<Rightarrow> 'e raw_rwlock \<Rightarrow> 'l rw list \<Rightarrow> bool" where
  "read_done vw s ts \<longleftrightarrow> (even (rstate s) \<longrightarrow> share_done vw read_waits read_carries (no_writer s) ts)"

definition read_inv :: "('e, 'l) event_view \<Rightarrow> ('e raw_rwlock, 'l rw) sys \<Rightarrow> bool" where
  "read_inv vw S \<longleftrightarrow> listeners_ok vw S \<and> read_done vw (shared S) (tasks S)"

text \<open>The writer bit is set exactly if a task writes or waits for readers.\<close>

lemma state_parity:
  "rw_good s c \<Longrightarrow> even (rstate s) \<longleftrightarrow> even (c (KRole Wt) + c (KRole Exc))"
  by (simp add: rw_good_def rw_ok_def even_state [symmetric])

lemma upgradable_even:
  assumes good: "rw_good s (totals rw_wt ts)" and k: "k < length ts" "role (ts ! k) = Up"
  shows "even (rstate s)"
proof -
  have "1 \<le> totals rw_wt ts (KRole Up)"
    using totals_member_le [OF k(1), of rw_wt "KRole Up"] k(2) by (simp add: rw_wt_def)
  moreover have "totals rw_wt ts (KRole Up) + totals rw_wt ts (KRole Wt) + totals rw_wt ts (KRole Exc) \<le> 1"
    using good by (auto simp: rw_good_def dest: rw_ok_own)
  ultimately have "totals rw_wt ts (KRole Wt) = 0" "totals rw_wt ts (KRole Exc) = 0" by linarith+
  with state_parity [OF good] show ?thesis by simp
qed

lemma read_inv_act:
  assumes laws: "event_laws ev vw" and inv: "read_inv vw S" and k: "k < length (tasks S)"
    and step: "rw_step_simple ev i (shared S) (tasks S ! k) = Next (s', t')"
  shows "read_inv vw \<lparr>shared = s', tasks = (tasks S)[k := t']\<rparr>"
proof -
  let ?ts' = "(tasks S)[k := t']"
  from step have kept: "i \<noteq> RwDowngradeUp" and step: "rw_step ev i (shared S) (tasks S ! k) = Next (s', t')"
    by (simp_all add: rw_step_simple_Next)
  from inv have ok: "listeners_ok vw S" and duty: "read_done vw (shared S) (tasks S)"
    by (simp_all add: read_inv_def)
  from listeners_ok_act [OF laws ok k step]
  have ok': "listeners_ok vw \<lparr>shared = s', tasks = ?ts'\<rparr>" .
  from ok k have good: "rw_good (shared S) (totals rw_wt (tasks S))" and wf: "rw_wf (tasks S ! k)"
    and shares: "shares_inv vw wshr (no_writer (shared S)) (tasks S)"
    by (simp_all add: listeners_ok_def drain_inv_def counting_inv_def)
  from ok' have wfs': "\<forall>t \<in> set ?ts'. rw_wf t" and shares': "shares_inv vw wshr (no_writer s') ?ts'"
    by (simp_all add: listeners_ok_def drain_inv_def counting_inv_def)
  from rw_step_duty_writer [OF step wf upgradable_even [OF good k] kept]
    rw_read_duty.done_act [OF laws shares shares' k wfs' rw_step_writer [OF step wf, unfolded writer_move_def]]
    rw_read_duty.done_carrier [OF k] duty
  have "read_done vw s' ?ts'" by (auto simp: read_duty_def read_done_def)
  with ok' show ?thesis by (simp add: read_inv_def)
qed

interpretation rw_readers: inv_system "rw_step_simple ev" rw_fresh "rw_start (fresh_event vw)"
    "\<lambda>S. event_laws ev vw \<longrightarrow> read_inv vw S"
  for ev :: "('e, 'l) event_ops" and vw
proof
  fix s :: "'e raw_rwlock"
  assume "rw_start (fresh_event vw) s"
  from rw_shares.inv_init [OF this, of ev]
  show "event_laws ev vw \<longrightarrow> read_inv vw \<lparr>shared = s, tasks = []\<rparr>"
    by (simp add: read_inv_def read_done_def rw_read_duty.done_Nil)
next
  fix S :: "('e raw_rwlock, 'l rw) sys" and t :: "'l rw"
  assume inv: "event_laws ev vw \<longrightarrow> read_inv vw S" and t: "rw_fresh t"
  have "\<not> read_waits t" using t by (auto simp: rw_fresh_def)
  with inv rw_shares.inv_spawn [OF _ t, of ev vw S]
  show "event_laws ev vw \<longrightarrow> read_inv vw (S\<lparr>tasks := tasks S @ [t]\<rparr>)"
    by (auto simp: read_inv_def read_done_def intro: rw_read_duty.done_snoc)
qed (blast intro: read_inv_act)

subsection \<open>Properties\<close>

lemma rest_readers:
  assumes "rw_at_rest t"
  shows "\<not> read_carries t"
    and "x \<in># wshr t \<Longrightarrow> rw_wf t \<Longrightarrow> \<exists>r. t = RRead RdSleep r \<and> rd_listener r = Some x"
  using assms by (cases t; auto simp: rw_at_rest_def opt_mset_def split: option.splits)+

text \<open>
  C17: a reader is not stranded. Under the event laws, and with clients that do not call
  \<open>downgrade_to_upgradable\<close>: when every task is at rest, nobody has a write guard or waits for the
  readers to leave, and some task is suspended in \<open>read()\<close>, then a suspended reader has been notified. It
  goes on when it is polled next, and notifies the next one.
\<close>

theorem rwlock_reader_wakes:
  assumes laws: "event_laws ev vw" and reach: "rw_simple_reachable ev (fresh_event vw) S"
    and rest: "\<forall>t \<in> set (tasks S). rw_at_rest t"
    and no_writer: "in_role Wt (tasks S) = {}" "in_role Exc (tasks S) = {}"
    and k: "k < length (tasks S)" and susp: "tasks S ! k = RRead RdSleep r"
  shows "\<exists>j < length (tasks S). \<exists>r x. tasks S ! j = RRead RdSleep r \<and> rd_listener r = Some x \<and>
    x \<in> notified vw (no_writer (shared S))"
proof -
  from rw_readers.reachable_inv [OF reach] laws have inv: "read_inv vw S" by blast
  then have good: "rw_good (shared S) (totals rw_wt (tasks S))" and wfs: "\<forall>t \<in> set (tasks S). rw_wf t"
    and shares: "shares_inv vw wshr (no_writer (shared S)) (tasks S)"
    by (simp_all add: read_inv_def listeners_ok_def drain_inv_def counting_inv_def)
  have "even (rstate (shared S))" using state_parity [OF good] no_writer by (simp add: card_in_role)
  with inv have "share_done vw read_waits read_carries (no_writer (shared S)) (tasks S)"
    by (simp add: read_inv_def read_done_def)
  from rw_read_duty.done_rest [OF laws shares this _ k] rest rest_readers(1) susp
  obtain j x where j: "j < length (tasks S)" "x \<in># wshr (tasks S ! j)"
    and x: "x \<in> notified vw (no_writer (shared S))" by auto
  from rest_readers(2) [OF _ j(2)] rest wfs j(1) x show ?thesis by (metis nth_mem)
qed

text \<open>The writer of \<open>demo_writer\<close> unlocks, without a downgrade before.\<close>

definition demo_told :: "(qevent raw_rwlock, nat rw) sys" where
  "demo_told =
     \<lparr>shared = \<lparr>rmutex = \<lparr>mstate = 0, lock_ops = [Some True], mdata = ()\<rparr>,
        no_readers = [], no_writer = [Some True], rstate = 0\<rparr>,
      tasks = [RDone [], RDone [],
        RWriteLock (LSlow \<lparr>sl_mutex = True, sl_listener = Some 0, sl_start = Some 0, sl_starved = False\<rparr>),
        RRead RdSleep \<lparr>rd_state = 1, rd_listener = Some 0\<rparr>]\<rparr>"

lemmas simple_run_simps = rw_run_simps rw_step_simple_def

lemma demo_told_run:
  "exec (rw_step_simple queue_events) rw_fresh
     [Spawn RTryRead, Act 0 (RwRun 0), Act 0 (RwRun 0),
      Spawn (RUpLock LNew), Act 1 (RwPoll 0), Act 1 (RwRun 0), Act 1 (RwRun 0), Act 1 (RwRun 0),
      Spawn (RWriteLock LNew), Act 2 (RwPoll 0), Act 2 (RwRun 0), Act 2 (RwRun 0), Act 2 (RwRun 0),
      Act 2 (RwRun 0)] \<lparr>shared = demo_rw, tasks = []\<rparr> = Next demo_shared"
  "exec (rw_step_simple queue_events) rw_fresh
     [Act 0 RwUnlock, Act 1 RwTryUpgrade, Spawn RReadCall, Act 3 (RwRun 0), Act 3 (RwPoll 0),
      Act 3 (RwRun 0), Act 3 (RwRun 0), Act 3 (RwRun 0)] demo_shared = Next demo_writer"
  "exec (rw_step_simple queue_events) rw_fresh
     [Act 1 RwUnlock, Act 1 (RwRun 0), Act 1 (RwRun 0), Act 1 (RwRun 0)] demo_writer = Next demo_told"
  by (simp_all add: simple_run_simps demo_rw_def demo_shared_def demo_writer_def demo_told_def)

lemma demo_told_reachable: "rw_simple_reachable queue_events (fresh_event queue_view) demo_told"
  by (rule exec_reachable [OF demo_told_run(3)], rule exec_reachable [OF demo_told_run(2)],
      rule exec_reachable_init [where start = "rw_start (fresh_event queue_view)", OF demo_rw_start demo_told_run(1)])

theorem rwlock_reader_wakes_witness: "0 \<in> notified queue_view (no_writer (shared demo_told))"
proof -
  have rest: "\<forall>t \<in> set (tasks demo_told). rw_at_rest t"
    by (simp add: demo_told_def rw_at_rest_def lock_at_rest_def)
  have free: "in_role Wt (tasks demo_told) = {}" "in_role Exc (tasks demo_told) = {}"
    by (simp_all add: demo_told_def in_role_def indices_empty_iff lock_role_def)
  have susp: "3 < length (tasks demo_told)"
    "tasks demo_told ! 3 = RRead RdSleep \<lparr>rd_state = 1, rd_listener = Some 0\<rparr>"
    by (simp_all add: demo_told_def)
  show ?thesis
    using rwlock_reader_wakes [OF queue_events_laws demo_told_reachable rest free susp]
    by (auto simp: demo_told_def less_Suc_eq numeral_eq_Suc)
qed

end
