(* ===== verification/Solo_Run.thy ===== *)
theory Solo_Run
  imports Interleaving
begin

text \<open>
  Termination of the calls. Under interference a lock-free loop can go on for ever, so what the
  loops of the crate promise is that a call returns when it runs alone: from any reachable state,
  with all the other tasks stopped anywhere, the running call of one task comes to an end in a
  bounded number of its actions.

  \<open>solo\<close> performs the actions of the running call of task \<open>k\<close>, until the call has returned. Locale
  \<open>solo_system\<close>: if a rank decreases with every action that does not end the call, it returns
  before the actions exceed the rank.
\<close>

fun solo ::
    "('i \<Rightarrow> 's \<Rightarrow> 't \<Rightarrow> ('s \<times> 't) outcome) \<Rightarrow> ('t \<Rightarrow> bool) \<Rightarrow> nat \<Rightarrow> 'i list \<Rightarrow> ('s, 't) sys \<Rightarrow>
     ('s, 't) sys outcome" where
  "solo stp busy k [] S = Next S"
| "solo stp busy k (i # js) S =
     (if busy (tasks S ! k) then
        (case stp i (shared S) (tasks S ! k) of
           Next (s', t') \<Rightarrow> solo stp busy k js \<lparr>shared = s', tasks = (tasks S)[k := t']\<rparr>
         | Abort \<Rightarrow> Abort | Panic \<Rightarrow> Panic | Disabled \<Rightarrow> Disabled)
      else Next S)"

lemma solo_idle: "\<not> busy (tasks S ! k) \<Longrightarrow> solo stp busy k js S = Next S"
  by (cases js) simp_all

text \<open>An action that succeeds, and ends the call or leaves a rank below \<open>n\<close>.\<close>

definition goes_on ::
    "('t \<Rightarrow> bool) \<Rightarrow> ('s \<Rightarrow> 't \<Rightarrow> nat) \<Rightarrow> nat \<Rightarrow> ('s \<times> 't) outcome \<Rightarrow> bool" where
  "goes_on busy rank n r \<longleftrightarrow> (\<exists>s' t'. r = Next (s', t') \<and> (busy t' \<longrightarrow> rank s' t' < n))"

lemma goes_on_Next [simp]:
  "goes_on busy rank n (Next (s', t')) \<longleftrightarrow> (busy t' \<longrightarrow> rank s' t' < n)"
  by (simp add: goes_on_def)

lemma goes_onE:
  assumes "goes_on busy rank n r"
  obtains s' t' where "r = Next (s', t')" "busy t' \<longrightarrow> rank s' t' < n"
  using assms unfolding goes_on_def by blast

locale solo_system =
  fixes stp :: "'i \<Rightarrow> 's \<Rightarrow> 't \<Rightarrow> ('s \<times> 't) outcome"
    and busy :: "'t \<Rightarrow> bool"
    and runs :: "'i \<Rightarrow> bool"
    and ok :: "('s, 't) sys \<Rightarrow> bool"
    and rank :: "'s \<Rightarrow> 't \<Rightarrow> nat"
  assumes ok_act: "ok S \<Longrightarrow> k < length (tasks S) \<Longrightarrow>
      stp i (shared S) (tasks S ! k) = Next (s', t') \<Longrightarrow> ok \<lparr>shared = s', tasks = (tasks S)[k := t']\<rparr>"
    and progress: "ok S \<Longrightarrow> k < length (tasks S) \<Longrightarrow> busy (tasks S ! k) \<Longrightarrow> runs i \<Longrightarrow>
      goes_on busy rank (rank (shared S) (tasks S ! k)) (stp i (shared S) (tasks S ! k))"
begin

lemma solo_returns:
  assumes "ok S" and "k < length (tasks S)" and "\<forall>i \<in> set js. runs i"
    and "rank (shared S) (tasks S ! k) < length js"
  shows "\<exists>S'. solo stp busy k js S = Next S' \<and> \<not> busy (tasks S' ! k)"
  using assms
proof (induction js arbitrary: S)
  case Nil
  then show ?case by simp
next
  case (Cons i js)
  show ?case
  proof (cases "busy (tasks S ! k)")
    case True
    with Cons.prems have
      "goes_on busy rank (rank (shared S) (tasks S ! k)) (stp i (shared S) (tasks S ! k))"
      by (intro progress) simp_all
    then obtain s' t' where step: "stp i (shared S) (tasks S ! k) = Next (s', t')"
      and rank: "busy t' \<longrightarrow> rank s' t' < rank (shared S) (tasks S ! k)" by (rule goes_onE)
    let ?T = "\<lparr>shared = s', tasks = (tasks S)[k := t']\<rparr>"
    have k: "k < length (tasks ?T)" using Cons.prems(2) by simp
    have "\<exists>S'. solo stp busy k js ?T = Next S' \<and> \<not> busy (tasks S' ! k)"
    proof (cases "busy t'")
      case True
      show ?thesis
        by (rule Cons.IH [OF ok_act [OF Cons.prems(1,2) step] k])
           (use Cons.prems rank True in auto)
    next
      case False
      with k show ?thesis by (simp add: solo_idle)
    qed
    with True step show ?thesis by simp
  qed simp
qed

end

text \<open>
  An action that fails and has to be repeated: the rank does not increase. A call returns when the
  actions that do not fail exceed the rank, however many others there are in between.
\<close>

locale retry_system = solo_system stp busy runs ok rank
  for stp :: "'i \<Rightarrow> 's \<Rightarrow> 't \<Rightarrow> ('s \<times> 't) outcome"
    and busy :: "'t \<Rightarrow> bool"
    and runs :: "'i \<Rightarrow> bool"
    and ok :: "('s, 't) sys \<Rightarrow> bool"
    and rank :: "'s \<Rightarrow> 't \<Rightarrow> nat" +
  fixes fails :: "'i \<Rightarrow> bool"
  assumes retry: "ok S \<Longrightarrow> k < length (tasks S) \<Longrightarrow> busy (tasks S ! k) \<Longrightarrow> fails i \<Longrightarrow>
      goes_on busy rank (Suc (rank (shared S) (tasks S ! k))) (stp i (shared S) (tasks S ! k))"
begin

lemma retry_returns:
  assumes "ok S" and "k < length (tasks S)" and "\<forall>i \<in> set js. runs i \<or> fails i"
    and "rank (shared S) (tasks S ! k) < length (filter runs js)"
  shows "\<exists>S'. solo stp busy k js S = Next S' \<and> \<not> busy (tasks S' ! k)"
  using assms
proof (induction js arbitrary: S)
  case Nil
  then show ?case by simp
next
  case (Cons i js)
  let ?r = "rank (shared S) (tasks S ! k)"
  show ?case
  proof (cases "busy (tasks S ! k)")
    case True
    have "goes_on busy rank (if runs i then ?r else Suc ?r) (stp i (shared S) (tasks S ! k))"
      using progress [OF Cons.prems(1,2) True] retry [OF Cons.prems(1,2) True] Cons.prems(3) by auto
    then obtain s' t' where step: "stp i (shared S) (tasks S ! k) = Next (s', t')"
      and rank: "busy t' \<longrightarrow> rank s' t' < (if runs i then ?r else Suc ?r)" by (rule goes_onE)
    let ?T = "\<lparr>shared = s', tasks = (tasks S)[k := t']\<rparr>"
    have k: "k < length (tasks ?T)" using Cons.prems(2) by simp
    have "\<exists>S'. solo stp busy k js ?T = Next S' \<and> \<not> busy (tasks S' ! k)"
    proof (cases "busy t'")
      case True
      show ?thesis
        by (rule Cons.IH [OF ok_act [OF Cons.prems(1,2) step] k])
           (use Cons.prems rank True in \<open>auto split: if_splits\<close>)
    next
      case False
      with k show ?thesis by (simp add: solo_idle)
    qed
    with True step show ?thesis by simp
  qed simp
qed

end

end
