(* ===== verification/Mutex_Solo.thy ===== *)
theory Mutex_Solo
  imports Mutex_Wakeup Solo_Run
begin

text \<open>
  Termination of the lock operations: a poll of a lock future, a \<open>try_lock\<close> or an unlock that runs
  alone returns within ten actions, whatever the other tasks have left behind.
\<close>

text \<open>A call of the task is running.\<close>

definition lock_busy :: "'l lock \<Rightarrow> bool" where
  "lock_busy l = (case l of LTryLock \<Rightarrow> True | LTry \<Rightarrow> True | LHot pc s \<Rightarrow> True
     | LFair pc s \<Rightarrow> True | LUnlock lo \<Rightarrow> True | _ \<Rightarrow> False)"

text \<open>
  How many actions the call can still take, less one. \<open>one\<close>: the state word is 1. \<open>told\<close>: the
  listener has been notified. \<open>locked\<close>: the lock bit is set. Alone, a call sees its listener
  notified at most once: a new one is notified only by the call itself, in \<open>FairNotify\<close>.
\<close>

fun hot_rank :: "bool \<Rightarrow> bool \<Rightarrow> hot_pc \<Rightarrow> nat" where
  "hot_rank one told HotListen = (if one then 2 else 8)"
| "hot_rank one told HotCas = (if told then 9 else if one then 1 else 7)"
| "hot_rank one told HotWait = (if told then if one then 8 else 9 else 0)"
| "hot_rank one told HotRetry = (if one then 7 else 8)"
| "hot_rank one told HotNotify = 7"
| "hot_rank one told AddStarved = 6"

fun fair_rank :: "bool \<Rightarrow> bool \<Rightarrow> fair_pc \<Rightarrow> nat" where
  "fair_rank locked told FairListen = (if locked then 2 else 5)"
| "fair_rank locked told FairCas = (if locked then if told then 5 else 1 else 4)"
| "fair_rank locked told FairNotify = (if locked then 5 else 3)"
| "fair_rank locked told FairWait = (if told then if locked then 4 else 2 else 0)"
| "fair_rank locked told FairOr = (if locked then 3 else 1)"
| "fair_rank locked told TakeMutex = 0"

abbreviation told :: "('e, 'l) event_view \<Rightarrow> ('e, 'a) mutex \<Rightarrow> 'l acquire_slow \<Rightarrow> bool" where
  "told vw m s \<equiv> heard vw (lock_ops m) (sl_listener s)"

definition lock_rank :: "('e, 'l) event_view \<Rightarrow> ('e, 'a) mutex \<Rightarrow> 'l lock \<Rightarrow> nat" where
  "lock_rank vw m l = (case l of
     LTry \<Rightarrow> 9
   | LHot pc s \<Rightarrow> hot_rank (mstate m = 1) (told vw m s) pc
   | LFair pc s \<Rightarrow> fair_rank (mstate m mod 2 = 1) (told vw m s) pc
   | _ \<Rightarrow> 0)"

lemma fair_rank_le: "fair_rank lk n pc \<le> 5"
  by (cases pc) auto

lemma hot_rank_le: "hot_rank one n pc \<le> 9"
  by (cases pc) auto

lemma lock_rank_le: "lock_rank vw m l \<le> 9"
  using order_trans [OF fair_rank_le, of 9] hot_rank_le by (auto simp: lock_rank_def split: lock.split)

lemma fair_top_rank: "lock_rank vw m (fair_top s) < 6"
  using fair_rank_le by (auto simp: lock_rank_def fair_top_def less_Suc_eq_le)

lemma hot_progress:
  assumes laws: "event_laws ev vw" and wf: "hot_wf pc s"
    and act: "\<And>x. sl_listener s = Some x \<Longrightarrow> x \<in> active vw (lock_ops m)"
    and no_abort: "hot_step ev now pc m s \<noteq> Abort"
  shows "goes_on lock_busy (lock_rank vw) (hot_rank (mstate m = 1) (told vw m s) pc) (hot_step ev now pc m s)"
proof (cases pc)
  case HotListen
  obtain l e where l: "ev_listen ev (lock_ops m) = (l, e)" by fastforce
  with listen_untold [OF laws l] HotListen wf show ?thesis by (simp add: lock_rank_def)
next
  case HotCas
  with wf fair_top_rank [of vw m] show ?thesis
    by (auto simp: mutex_op_defs hot_wf_def lock_rank_def lock_busy_def Let_def)
next
  case HotWait
  then obtain x where x: "sl_listener s = Some x" using wf by (auto simp: hot_wf_def)
  obtain r e where p: "ev_poll ev x (lock_ops m) = (r, e)" by fastforce
  from pollD(1) [OF laws act [OF x] p] x p HotWait show ?thesis
    by (auto simp: lock_rank_def lock_busy_def)
next
  case HotRetry
  with wf fair_top_rank [of vw m] show ?thesis
    by (auto simp: mutex_op_defs hot_wf_def lock_rank_def lock_busy_def Let_def)
next
  case HotNotify
  then show ?thesis by (simp add: lock_rank_def)
next
  case AddStarved
  with no_abort fair_top_rank show ?thesis by (auto simp: Let_def split: if_splits prod.splits)
qed

lemma fair_progress:
  assumes laws: "event_laws ev vw" and wf: "fair_wf pc s"
    and act: "\<And>x. sl_listener s = Some x \<Longrightarrow> x \<in> active vw (lock_ops m)"
  shows "goes_on lock_busy (lock_rank vw) (fair_rank (mstate m mod 2 = 1) (told vw m s) pc) (fair_step ev pc m s)"
proof (cases pc)
  case FairListen
  obtain l e where l: "ev_listen ev (lock_ops m) = (l, e)" by fastforce
  with listen_untold [OF laws l] FairListen wf show ?thesis by (simp add: lock_rank_def)
next
  case FairCas
  with wf show ?thesis
    by (auto simp: mutex_op_defs fair_wf_def lock_rank_def lock_busy_def Let_def)
next
  case FairNotify
  with wf show ?thesis
    by (auto simp: fair_top_def fair_wf_def lock_rank_def)
next
  case FairWait
  then obtain x where x: "sl_listener s = Some x" using wf by (auto simp: fair_wf_def)
  obtain r e where p: "ev_poll ev x (lock_ops m) = (r, e)" by fastforce
  from pollD(1) [OF laws act [OF x] p] x p FairWait show ?thesis
    by (auto simp: lock_rank_def lock_busy_def)
next
  case FairOr
  with wf show ?thesis
    by (auto simp: mutex_op_defs fair_wf_def lock_rank_def lock_busy_def Let_def or_one_eq
        even_iff_mod_2_eq_zero)
next
  case TakeMutex
  with wf show ?thesis by (simp add: mutex_op_defs fair_wf_def lock_busy_def)
qed

subsection \<open>The lock operation as a whole\<close>

definition is_run :: "'a lock_in \<Rightarrow> bool" where
  "is_run i = (case i of Run now \<Rightarrow> True | _ \<Rightarrow> False)"

lemma lock_progress:
  assumes laws: "event_laws ev vw" and wf: "lock_wf l" and busy: "lock_busy l"
    and act: "\<And>x. lock_listener l = Some x \<Longrightarrow> x \<in> active vw (lock_ops m)"
    and no_abort: "lock_step ev (Run now) m l \<noteq> Abort"
  shows "goes_on lock_busy (lock_rank vw) (lock_rank vw m l) (lock_step ev (Run now) m l)"
proof (cases l)
  case (LHot pc s)
  with wf act no_abort hot_progress [OF laws, of pc s m now] show ?thesis
    by (auto simp: lock_step_def lock_wf_def lock_listener_def lock_rank_def [of vw m])
next
  case (LFair pc s)
  with wf act fair_progress [OF laws, of pc s m] show ?thesis
    by (auto simp: lock_step_def lock_wf_def lock_listener_def lock_rank_def [of vw m])
next
  case LTry
  then show ?thesis
    by (auto simp: lock_step_def mutex_op_defs lock_busy_def lock_rank_def Let_def)
qed (use busy in \<open>auto simp: lock_step_def lock_busy_def Let_def split: prod.split\<close>)

definition solo_ok :: "('e, 'l) event_ops \<Rightarrow> ('e, 'l) event_view \<Rightarrow> (('e, 'a) mutex, 'l lock) sys \<Rightarrow> bool" where
  "solo_ok ev vw S \<longleftrightarrow> event_laws ev vw \<and> wake_inv vw S \<and> length (tasks S) \<le> 2 ^ 62"

interpretation mtx_solo: solo_system "lock_step ev" lock_busy is_run "solo_ok ev vw" "lock_rank vw"
  for ev :: "('e, 'l) event_ops" and vw
proof
  fix S :: "(('e, 'a) mutex, 'l lock) sys" and k i m' l'
  assume "solo_ok ev vw S" and "k < length (tasks S)"
    and "lock_step ev i (shared S) (tasks S ! k) = Next (m', l')"
  then show "solo_ok ev vw \<lparr>shared = m', tasks = (tasks S)[k := l']\<rparr>"
    using wake_inv_act [of ev vw S k i m' l'] by (simp add: solo_ok_def)
next
  fix S :: "(('e, 'a) mutex, 'l lock) sys" and k and i :: "'a lock_in"
  assume ok: "solo_ok ev vw S" and k: "k < length (tasks S)" and busy: "lock_busy (tasks S ! k)"
    and "is_run i"
  then obtain now where i: "i = Run now" by (auto simp: is_run_def split: lock_in.splits)
  from ok have laws: "event_laws ev vw" and inv: "wake_inv vw S" and few: "length (tasks S) \<le> 2 ^ 62"
    by (simp_all add: solo_ok_def)
  from inv k have wf: "lock_wf (tasks S ! k)" and good: "mutex_good (shared S) (totals lock_wt (tasks S))"
    and own: "own_inv vw lock_listener (lock_ops (shared S)) (tasks S)"
    by (simp_all add: wake_inv_def counting_inv_def)
  show "goes_on lock_busy (lock_rank vw) (lock_rank vw (shared S) (tasks S ! k))
      (lock_step ev i (shared S) (tasks S ! k))"
    unfolding i
    by (rule lock_progress [OF laws wf busy _ lock_step_no_abort [OF good wf k few]])
       (rule own_inv_active [OF own k])
qed

subsection \<open>The property\<close>

text \<open>
  C3: every call on a mutex returns when it runs alone. From any reachable state, with the other
  tasks stopped at any point (holding the mutex, starved, in the middle of a slow path), the first
  or a later poll of a lock future, a \<open>try_lock\<close> or an unlock comes to its end within ten of its own
  actions, for any readings of the clock: it does not loop, panic or abort.
\<close>

theorem lock_call_returns:
  assumes "event_laws ev vw" and "mutex_reachable ev (fresh_event vw) S"
    and "length (tasks S) \<le> 2 ^ 62" and "k < length (tasks S)" and "length clock = 10"
  shows "\<exists>S'. solo (lock_step ev) lock_busy k (map Run clock) S = Next S' \<and> \<not> lock_busy (tasks S' ! k)"
proof (rule mtx_solo.solo_returns [where vw = vw])
  show "solo_ok ev vw S"
    using mtx_wake.reachable_inv [OF assms(2)] assms(1,3) by (simp add: solo_ok_def)
  show "lock_rank vw (shared S) (tasks S ! k) < length (map Run clock)"
    using lock_rank_le [of vw "shared S" "tasks S ! k"] assms(5) by simp
qed (use assms(4) in \<open>auto simp: is_run_def\<close>)

text \<open>Task 1 has been polled again, long after the holder has unlocked, while task 2 sleeps.\<close>

definition demo_polled :: "((qevent, nat) mutex, nat lock) sys" where
  "demo_polled = demo_waiting\<lparr>tasks := (tasks demo_waiting)
     [1 := LHot HotWait \<lparr>sl_mutex = True, sl_listener = Some 0, sl_start = Some 5, sl_starved = False\<rparr>]\<rparr>"

lemma demo_polled_run:
  "exec (lock_step queue_events) lock_fresh [Act 1 (Poll 600000)] demo_waiting = Next demo_polled"
  by (simp add: mutex_run_simps demo_waiting_def demo_polled_def)

lemma demo_polled_reachable: "mutex_reachable queue_events (fresh_event queue_view) demo_polled"
  by (rule exec_reachable [OF demo_polled_run demo_waiting_reachable])

theorem lock_call_returns_witness:
  "\<exists>S'. solo (lock_step queue_events) lock_busy 1 (map Run (replicate 10 600000)) demo_polled = Next S' \<and>
     \<not> lock_busy (tasks S' ! 1)"
  by (rule lock_call_returns [OF queue_events_laws demo_polled_reachable])
     (simp_all add: demo_polled_def demo_waiting_def)

end
