(* ===== verification/RawRwLock_Solo.thy ===== *)
theory RawRwLock_Solo
  imports RawRwLock_Readers Mutex_Solo
begin

text \<open>
  Termination of the calls of the reader-writer lock: a poll of any of its futures, a \<open>try_\<close> method,
  an unlock or a downgrade that runs alone returns within nineteen actions, whatever the other tasks
  have left behind.
\<close>

subsection \<open>How long a call can take\<close>

definition rw_busy :: "'l rw \<Rightarrow> bool" where
  "rw_busy t = (case t of
     RRead pc r \<Rightarrow> pc \<noteq> RdIdle \<and> pc \<noteq> RdSleep
   | RUpLock l \<Rightarrow> lock_busy l | RWriteLock l \<Rightarrow> lock_busy l
   | RWrite pc nr \<Rightarrow> pc \<noteq> DrSleep
   | RUpgrade pc nr lo \<Rightarrow> pc \<noteq> DrIdle \<and> pc \<noteq> DrSleep
   | RReader lo \<Rightarrow> False | RUpgradable lo \<Rightarrow> False | RWriter lo \<Rightarrow> False | RDone lo \<Rightarrow> False
   | _ \<Rightarrow> True)"

text \<open>
  The actions still to come, less one. \<open>w\<close>: the writer bit is set. \<open>own\<close>: the task has a listener.
  \<open>n\<close>: it has been notified. \<open>same\<close>: the state the task has loaded is the state of the lock.
\<close>

fun read_rank :: "bool \<Rightarrow> bool \<Rightarrow> bool \<Rightarrow> bool \<Rightarrow> read_pc \<Rightarrow> nat" where
  "read_rank w own n same RdCas = (if w then if n then 6 else 3 else if same then 0 else 1)"
| "read_rank w own n same RdLoad = (if w then if n then 6 else if own then 1 else 3 else 1)"
| "read_rank w own n same RdListen = 2"
| "read_rank w own n same RdNotify = 4"
| "read_rank w own n same RdWait = (if n then 5 else 0)"
| "read_rank w own n same _ = 0"

text \<open>\<open>one\<close>: the state word is the writer bit alone.\<close>

fun drain_rank :: "bool \<Rightarrow> bool \<Rightarrow> bool \<Rightarrow> drain_pc \<Rightarrow> nat" where
  "drain_rank one own n DrLoad = (if one then 0 else if n then 5 else if own then 1 else 3)"
| "drain_rank one own n DrListen = 2"
| "drain_rank one own n DrWait = (if n then 4 else 0)"
| "drain_rank one own n _ = 0"

definition rw_rank :: "('e, 'l) event_view \<Rightarrow> 'e raw_rwlock \<Rightarrow> 'l rw \<Rightarrow> nat" where
  "rw_rank vw s t = (case t of
     RTryRead \<Rightarrow> 3 | RTryReadCas st \<Rightarrow> (if st = rstate s then 0 else 1)
   | RRead pc r \<Rightarrow> read_rank (rstate s AND WRITER_BIT \<noteq> 0) (rd_listener r \<noteq> None)
       (heard vw (no_writer s) (rd_listener r)) (rd_state r = rstate s) pc
   | RTryUp \<Rightarrow> 2 | RTryUpLoad \<Rightarrow> 1 | RTryUpCas st \<Rightarrow> (if st = rstate s then 0 else 1)
   | RUpLock l \<Rightarrow> lock_rank vw (rmutex s) l + 2 | RUpLoad lo \<Rightarrow> 1
   | RUpCas st lo \<Rightarrow> (if st = rstate s then 0 else 1)
   | RTryWrite \<Rightarrow> 3 | RTryWriteCas \<Rightarrow> 2
   | RWriteLock l \<Rightarrow> lock_rank vw (rmutex s) l + 9 | RWriteOr lo \<Rightarrow> 8 | RWriteListen lo \<Rightarrow> 7
   | RWriteSet l nr st \<Rightarrow> 6
   | RWrite pc nr \<Rightarrow> drain_rank (rstate s = 1) (nr \<noteq> None) (heard vw (no_readers s) nr) pc
   | RUpgrade pc nr lo \<Rightarrow> drain_rank (rstate s = 1) (nr \<noteq> None) (heard vw (no_readers s) nr) pc
   | RUpUnlockNotify lo \<Rightarrow> 2 | RWriteUnlockNotify lo \<Rightarrow> 2 | RUnlockMutex lo \<Rightarrow> 1
   | RDownWriteMutex lo \<Rightarrow> 2 | RDownWriteMutexNotify lo \<Rightarrow> 1
   | _ \<Rightarrow> 0)"

lemma read_rank_le: "read_rank w own n same pc \<le> 6"
  by (cases pc) auto

lemma drain_rank_le: "drain_rank one own n pc \<le> 5"
  by (cases pc) auto

lemma rw_rank_le: "rw_rank vw s t \<le> 18"
  using order_trans [OF read_rank_le, of 18] order_trans [OF drain_rank_le, of 18] lock_rank_le [of vw]
  by (cases t) (auto simp: rw_rank_def intro: order_trans [OF lock_rank_le])

lemma rw_busy_simps [simp]:
  "rw_busy RTryRead" "rw_busy (RTryReadCas st)" "rw_busy RReadCall"
  "rw_busy (RRead rpc r) \<longleftrightarrow> rpc \<noteq> RdIdle \<and> rpc \<noteq> RdSleep"
  "rw_busy RTryUp" "rw_busy RTryUpLoad" "rw_busy (RTryUpCas st)" "rw_busy (RUpLock l) = lock_busy l"
  "rw_busy (RUpLoad o1)" "rw_busy (RUpCas st o1)" "rw_busy RTryWrite" "rw_busy RTryWriteCas"
  "rw_busy (RWriteLock l) = lock_busy l" "rw_busy (RWriteOr o1)" "rw_busy (RWriteListen o1)"
  "rw_busy (RWriteSet x nr ws)" "rw_busy (RWrite pc nr) \<longleftrightarrow> pc \<noteq> DrSleep"
  "rw_busy (RUpgrade pc nr lo) \<longleftrightarrow> pc \<noteq> DrIdle \<and> pc \<noteq> DrSleep"
  "\<not> rw_busy (RReader lo)" "\<not> rw_busy (RUpgradable lo)" "\<not> rw_busy (RWriter lo)"
  "rw_busy (RReadUnlockNotify lo)" "rw_busy (RUpUnlockNotify lo)" "rw_busy (RWriteUnlockNotify lo)"
  "rw_busy (RUnlockMutex lo)" "rw_busy (RUnlockMutexNotify lo)" "rw_busy (RDownWriteMutex lo)"
  "rw_busy (RDownWriteMutexNotify lo)" "rw_busy (RDownWriteNotify lo)" "rw_busy (RDownUpNotify lo)"
  "\<not> rw_busy (RDone lo)"
  by (simp_all add: rw_busy_def)

text \<open>A call is about to make progress: it performs an action, and ends or has fewer to go.\<close>

lemma read_progress:
  assumes laws: "event_laws ev vw" and wf: "rw_wf (RRead pc r)" and busy: "rw_busy (RRead pc r)"
    and act: "\<And>x. rd_listener r = Some x \<Longrightarrow> x \<in> active vw (no_writer s)"
    and small: "rstate s \<le> isize_MAX"
  shows "goes_on rw_busy (rw_rank vw) (rw_rank vw s (RRead pc r)) (read_step ev pc s r)"
proof (cases pc)
  case RdCas
  with wf small show ?thesis
    by (auto simp: stay_def read_head_def compare_exchange_def Let_def rw_rank_def readable_def WRITER_BIT_and
        not_less split: option.splits)
next
  case RdListen
  obtain l e where l: "ev_listen ev (no_writer s) = (l, e)" by fastforce
  with listen_untold [OF laws l] RdListen show ?thesis by (simp add: rw_rank_def)
next
  case RdWait
  then obtain x where x: "rd_listener r = Some x" using wf by auto
  obtain b e where p: "ev_poll ev x (no_writer s) = (b, e)" by fastforce
  from pollD(1) [OF laws act [OF x] p] x p RdWait show ?thesis by (simp add: rw_rank_def)
next
  case RdNotify
  with wf show ?thesis by (simp add: rw_rank_def)
next
  case RdLoad
  with small show ?thesis
    by (auto simp: stay_def read_head_def rw_rank_def not_less)
qed (use busy in simp_all)

lemma write_progress:
  assumes laws: "event_laws ev vw" and wf: "drain_wf pc nr" and busy: "pc \<noteq> DrIdle" "pc \<noteq> DrSleep"
    and act: "\<And>x. nr = Some x \<Longrightarrow> x \<in> active vw (no_readers s)"
  shows "goes_on rw_busy (rw_rank vw) (rw_rank vw s (RWrite pc nr)) (write_step ev pc s nr)"
    and "goes_on rw_busy (rw_rank vw) (rw_rank vw s (RUpgrade pc nr lo)) (upgrade_step ev pc s nr lo)"
proof -
  have "goes_on rw_busy (rw_rank vw) (rw_rank vw s (RWrite pc nr)) (write_step ev pc s nr) \<and>
    goes_on rw_busy (rw_rank vw) (rw_rank vw s (RUpgrade pc nr lo)) (upgrade_step ev pc s nr lo)"
  proof (cases pc)
    case DrLoad
    then show ?thesis by (auto simp: rw_rank_def rw_consts)
  next
    case DrListen
    obtain l e where l: "ev_listen ev (no_readers s) = (l, e)" by fastforce
    with listen_untold [OF laws l] DrListen show ?thesis by (simp add: rw_rank_def)
  next
    case DrWait
    then obtain x where x: "nr = Some x" using wf by (auto simp: drain_wf_def)
    obtain b e where p: "ev_poll ev x (no_readers s) = (b, e)" by fastforce
    from pollD(1) [OF laws act [OF x] p] x p DrWait show ?thesis by (simp add: rw_rank_def)
  qed (use busy in simp_all)
  then show "goes_on rw_busy (rw_rank vw) (rw_rank vw s (RWrite pc nr)) (write_step ev pc s nr)"
    and "goes_on rw_busy (rw_rank vw) (rw_rank vw s (RUpgrade pc nr lo)) (upgrade_step ev pc s nr lo)" by simp_all
qed

lemma write_set_rank: "rw_rank vw s (write_enter nr st) < 6" "rw_rank vw s (write_set lo nr st) < 7"
  using drain_rank_le [of "rstate s = 1" "nr \<noteq> None" "heard vw (no_readers s) nr" DrLoad]
  by (simp_all add: rw_rank_def write_set_def write_enter_def split: option.splits write_state.splits)

lemma lock_into_progress:
  assumes laws: "event_laws ev vw" and wf: "lock_wf l" and busy: "lock_busy l"
    and act: "\<And>x. lock_listener l = Some x \<Longrightarrow> x \<in> active vw (lock_ops (rmutex s))"
    and no_abort: "lock_step ev (Run now) (rmutex s) l \<noteq> Abort"
  shows "goes_on rw_busy (rw_rank vw) (rw_rank vw s (RUpLock l)) (up_lock_step ev (Run now) s l)"
    and "goes_on rw_busy (rw_rank vw) (rw_rank vw s (RWriteLock l)) (write_lock_step ev (Run now) s l)"
proof -
  from lock_progress [OF laws wf busy act no_abort] obtain m' l' where
    "lock_step ev (Run now) (rmutex s) l = Next (m', l')"
    "lock_busy l' \<longrightarrow> lock_rank vw m' l' < lock_rank vw (rmutex s) l" by (rule goes_onE)
  then show "goes_on rw_busy (rw_rank vw) (rw_rank vw s (RUpLock l)) (up_lock_step ev (Run now) s l)"
    and "goes_on rw_busy (rw_rank vw) (rw_rank vw s (RWriteLock l)) (write_lock_step ev (Run now) s l)"
    by (auto simp: up_lock_step_def write_lock_step_def rw_rank_def split: lock.splits)
qed

lemma rw_progress:
  assumes laws: "event_laws ev vw" and wf: "rw_wf t" and busy: "rw_busy t"
    and on_lock: "\<And>x. lock_listener (rw_lock t) = Some x \<Longrightarrow> x \<in> active vw (lock_ops (rmutex s))"
    and on_readers: "\<And>x. x \<in># shr t \<Longrightarrow> x \<in> active vw (no_readers s)"
    and on_writer: "\<And>x. x \<in># wshr t \<Longrightarrow> x \<in> active vw (no_writer s)"
    and no_abort: "lock_step ev (Run now) (rmutex s) (rw_lock t) \<noteq> Abort"
    and small: "rstate s \<le> isize_MAX"
  shows "goes_on rw_busy (rw_rank vw) (rw_rank vw s t) (rw_step ev (RwRun now) s t)"
proof (cases t)
  case (RRead pc r)
  with read_progress [OF laws, of pc r s] wf busy on_writer small show ?thesis
    by (simp add: rw_step_def run_only_def)
next
  case (RUpLock l)
  with lock_into_progress(1) [OF laws, of l s now] wf busy on_lock no_abort show ?thesis
    by (simp add: rw_step_def lock_input_def)
next
  case (RWriteLock l)
  with lock_into_progress(2) [OF laws, of l s now] wf busy on_lock no_abort show ?thesis
    by (simp add: rw_step_def lock_input_def)
next
  case (RWrite pc nr)
  with write_progress(1) [OF laws, of pc nr s] wf busy on_readers show ?thesis
    by (simp add: rw_step_def run_only_def)
next
  case (RUpgrade pc nr lo)
  with write_progress(2) [OF laws, of pc nr s lo] wf busy on_readers show ?thesis
    by (simp add: rw_step_def run_only_def)
next
  case (RWriteOr lo)
  have "rw_rank vw s' (write_set lo None WriteAcquired) < 8" for s'
    using write_set_rank(2) [of vw s' lo None WriteAcquired] by simp
  with RWriteOr show ?thesis
    by (auto simp: rw_step_def run_only_def write_or_def rw_rank_def [of _ _ "RWriteOr _"]
        rw_rank_def [of _ _ "RWriteListen _"] split: prod.split)
next
  case (RWriteListen lo)
  with write_set_rank(2) [of vw] show ?thesis
    by (simp add: rw_step_def run_only_def write_listen_def rw_rank_def [of _ _ "RWriteListen _"]
        split: prod.split)
next
  case (RWriteSet l nr ws)
  with write_set_rank(1) [of vw] show ?thesis
    by (simp add: rw_step_def run_only_def write_drop_lock_def rw_rank_def [of _ _ "RWriteSet _ _ _"])
next
  case (RTryReadCas st)
  with wf small show ?thesis
    by (auto simp: rw_step_def run_only_def try_read_cas_def compare_exchange_def stay_def try_read_head_def
        rw_rank_def not_less)
next
  case (RUpCas st lo)
  then show ?thesis
    by (auto simp: rw_step_def run_only_def up_cas_def compare_exchange_def rw_rank_def)
next
  case (RTryUpCas st)
  then show ?thesis
    by (auto simp: rw_step_def run_only_def try_upgradable_cas_def compare_exchange_def rw_rank_def)
qed (use busy small in \<open>auto simp: rw_step_def run_only_def stay_def rw_rank_def not_less Let_def
      try_read_load_def try_read_head_def read_new_def
      try_upgradable_read_def try_upgradable_load_def up_load_def try_write_def try_write_cas_def
      split: prod.splits sum.splits\<close>)

subsection \<open>The invariant of a call that runs alone\<close>

definition rw_solo_ok :: "('e, 'l) event_ops \<Rightarrow> ('e, 'l) event_view \<Rightarrow> ('e raw_rwlock, 'l rw) sys \<Rightarrow> bool" where
  "rw_solo_ok ev vw S \<longleftrightarrow> event_laws ev vw \<and> listeners_ok vw S \<and>
     client_wake vw rmutex rw_lock rw_client_wf S \<and> length (tasks S) < 2 ^ 62"

text \<open>With fewer than \<open>2 ^ 62\<close> tasks the state word stays below the overflow check.\<close>

lemma few_small:
  assumes good: "rw_good s (totals rw_wt ts)" and few: "length ts < 2 ^ 62"
  shows "rstate s \<le> isize_MAX"
proof -
  have disj: "in_role Rd ts \<inter> in_role Up ts = {}" by (auto simp: in_role_def indices_def)
  have "card (in_role Rd ts) + card (in_role Up ts) = card (in_role Rd ts \<union> in_role Up ts)"
    by (rule card_Un_disjoint [symmetric, OF _ _ disj]) (simp_all add: in_role_def indices_def)
  also have "\<dots> \<le> card {..<length ts}"
    by (rule card_mono) (auto simp: in_role_def indices_def)
  finally have "card (in_role Rd ts) + card (in_role Up ts) \<le> length ts" by simp
  with good few rw_ok_own [of s] show ?thesis
    by (fastforce simp: rw_good_def rw_ok_def card_in_role isize_MAX_def word_le_nat_alt)
qed

definition is_rw_run :: "rw_in \<Rightarrow> bool" where
  "is_rw_run i = (case i of RwRun now \<Rightarrow> True | _ \<Rightarrow> False)"

lemma rw_solo_progress:
  assumes ok: "rw_solo_ok ev vw S" and k: "k < length (tasks S)" and busy: "rw_busy (tasks S ! k)"
  shows "goes_on rw_busy (rw_rank vw) (rw_rank vw (shared S) (tasks S ! k))
    (rw_step ev (RwRun now) (shared S) (tasks S ! k))"
proof -
  let ?P = "lock_part rmutex rw_lock S"
  from ok have laws: "event_laws ev vw" and few: "length (tasks S) < 2 ^ 62"
    and good: "rw_good (shared S) (totals rw_wt (tasks S))" and wf: "rw_wf (tasks S ! k)"
    and readers: "shares_inv vw shr (no_readers (shared S)) (tasks S)"
    and writer: "shares_inv vw wshr (no_writer (shared S)) (tasks S)"
    and cok: "client_ok rmutex rw_lock rw_client_wf S"
    and own: "own_inv vw lock_listener (lock_ops (shared ?P)) (tasks ?P)"
    using k by (auto simp: rw_solo_ok_def listeners_ok_def drain_inv_def counting_inv_def client_wake_def
        wake_inv_def)
  have kP: "k < length (tasks ?P)" using k by simp
  show ?thesis
  proof (rule rw_progress [OF laws wf busy])
    show "x \<in> active vw (lock_ops (rmutex (shared S)))"
      if "lock_listener (rw_lock (tasks S ! k)) = Some x" for x
      using own_inv_active [OF own kP] that k by simp
    show "x \<in> active vw (no_readers (shared S))" if "x \<in># shr (tasks S ! k)" for x
      by (rule shares_inv_active [OF laws readers k that])
    show "x \<in> active vw (no_writer (shared S))" if "x \<in># wshr (tasks S ! k)" for x
      by (rule shares_inv_active [OF laws writer k that])
    show "lock_step ev (Run now) (rmutex (shared S)) (rw_lock (tasks S ! k)) \<noteq> Abort"
      by (rule client_no_abort [OF cok k]) (use few in simp)
    show "rstate (shared S) \<le> isize_MAX" by (rule few_small [OF good few])
  qed
qed

interpretation rw_solo: solo_system "rw_step ev" rw_busy is_rw_run "rw_solo_ok ev vw" "rw_rank vw"
  for ev :: "('e, 'l) event_ops" and vw
proof
  fix S :: "('e raw_rwlock, 'l rw) sys" and k i s' t'
  assume "rw_solo_ok ev vw S" and "k < length (tasks S)"
    and "rw_step ev i (shared S) (tasks S ! k) = Next (s', t')"
  then show "rw_solo_ok ev vw \<lparr>shared = s', tasks = (tasks S)[k := t']\<rparr>"
    by (auto simp: rw_solo_ok_def intro: listeners_ok_act rw_client.client_wake_act)
next
  fix S :: "('e raw_rwlock, 'l rw) sys" and k i
  assume "rw_solo_ok ev vw S" and "k < length (tasks S)" and "rw_busy (tasks S ! k)" and "is_rw_run i"
  then show "goes_on rw_busy (rw_rank vw) (rw_rank vw (shared S) (tasks S ! k)) (rw_step ev i (shared S) (tasks S ! k))"
    by (auto simp: is_rw_run_def intro: rw_solo_progress split: rw_in.splits)
qed

subsection \<open>The property\<close>

text \<open>
  C18: every call on a reader-writer lock returns when it runs alone. From any reachable state, with
  the other tasks stopped at any point, a first or later poll of a \<open>read\<close>, \<open>upgradable_read\<close>,
  \<open>write\<close> or \<open>upgrade\<close> future, a \<open>try_\<close> method, an unlock or a downgrade comes to its end within
  nineteen of its own actions: it does not loop, panic or abort.
\<close>

theorem rwlock_call_returns:
  assumes "event_laws ev vw" and "rw_reachable ev (fresh_event vw) S"
    and "length (tasks S) < 2 ^ 62" and "k < length (tasks S)" and "length clock = 19"
  shows "\<exists>S'. solo (rw_step ev) rw_busy k (map RwRun clock) S = Next S' \<and> \<not> rw_busy (tasks S' ! k)"
proof (rule rw_solo.solo_returns [where vw = vw])
  show "rw_solo_ok ev vw S"
    using rw_shares.reachable_inv [OF assms(2)] rw_client.client_wake.reachable_inv [OF assms(2)] assms(1,3)
    by (simp add: rw_solo_ok_def)
  show "rw_rank vw (shared S) (tasks S ! k) < length (map RwRun clock)"
    using rw_rank_le [of vw "shared S" "tasks S ! k"] assms(5) by simp
qed (use assms(4) in \<open>auto simp: is_rw_run_def\<close>)

text \<open>The upgrader of \<open>demo_drained\<close> has been polled again.\<close>

definition demo_resumed :: "(qevent raw_rwlock, nat rw) sys" where
  "demo_resumed = demo_drained\<lparr>tasks := (tasks demo_drained)[1 := RUpgrade DrLoad (Some 0) []]\<rparr>"

lemma demo_resumed_run:
  "exec (rw_step queue_events) rw_fresh [Act 1 (RwPoll 0)] demo_drained = Next demo_resumed"
  by (simp add: rw_run_simps demo_drained_def demo_resumed_def)

theorem rwlock_call_returns_witness:
  "\<exists>S'. solo (rw_step queue_events) rw_busy 1 (map RwRun (replicate 19 0)) demo_resumed = Next S' \<and>
     \<not> rw_busy (tasks S' ! 1)"
  by (rule rwlock_call_returns [OF queue_events_laws exec_reachable [OF demo_resumed_run
        exec_reachable [OF demo_drained_run demo_shared_reachable]]])
     (simp_all add: demo_resumed_def demo_drained_def)

end
