(* ===== verification/Blocking.thy ===== *)
theory Blocking
  imports Interleaving
begin

text \<open>
  The blocking methods. \<open>lock_blocking\<close> and its relatives make the future of the asynchronous method
  and call \<open>wait()\<close> on it, which runs the same \<open>poll_with_strategy\<close> with the \<open>Blocking\<close> strategy:
  where the asynchronous strategy returns \<open>Pending\<close>, because the listener has not been notified, the
  blocking one parks the thread inside \<open>strategy.poll\<close> until it is. So a blocking call is never
  suspended, and the future is never dropped before it is completed.

  A caller has a flag, which says how it waits, and an operation of the primitive; \<open>stp\<close> is the step
  of the primitive. \<open>asleep\<close>: the operation has returned \<open>Pending\<close>. \<open>inside\<close>: a future of it exists
  and has not completed; only outside of that the caller can choose how it waits next.
  \<open>abandons i t\<close>: the action drops the unfinished future. Blocking and asynchronous callers can use
  one primitive.

  Locale \<open>blocking_system\<close>: with blocking callers the primitive goes through no state that it does
  not go through with asynchronous ones, so that its properties carry over, and no blocking caller
  is ever suspended.
\<close>

record 't caller =
  blocks :: bool
  call :: 't

datatype 'i caller_in = Go 'i | Wait_By bool

definition caller_step ::
    "('i \<Rightarrow> 's \<Rightarrow> 't \<Rightarrow> ('s \<times> 't) outcome) \<Rightarrow> ('t \<Rightarrow> bool) \<Rightarrow> ('t \<Rightarrow> bool) \<Rightarrow> ('i \<Rightarrow> 't \<Rightarrow> bool) \<Rightarrow>
     'i caller_in \<Rightarrow> 's \<Rightarrow> 't caller \<Rightarrow> ('s \<times> 't caller) outcome" where
  "caller_step stp asleep inside abandons i s c = (case i of
     Go j \<Rightarrow>
       (if blocks c \<and> abandons j (call c) then Disabled
        else case stp j s (call c) of
          Next (s', t') \<Rightarrow> if blocks c \<and> asleep t' then Disabled else Next (s', c\<lparr>call := t'\<rparr>)
        | Abort \<Rightarrow> Abort | Panic \<Rightarrow> Panic | Disabled \<Rightarrow> Disabled)
   | Wait_By b \<Rightarrow> (if inside (call c) then Disabled else Next (s, c\<lparr>blocks := b\<rparr>)))"

definition caller_fresh :: "('t \<Rightarrow> bool) \<Rightarrow> 't caller \<Rightarrow> bool" where
  "caller_fresh fresh c \<longleftrightarrow> fresh (call c)"

text \<open>A caller that has made a future and drives it with the blocking strategy.\<close>

definition blocking :: "'t \<Rightarrow> 't caller" where
  "blocking t = \<lparr>blocks = True, call = t\<rparr>"

lemma blocking_simps [simp]: "blocks (blocking t)" "call (blocking t) = t"
  by (simp_all add: blocking_def)

lemma caller_step_Go:
  "caller_step stp asleep inside abandons (Go j) s c = Next (s', c') \<longleftrightarrow>
     \<not> (blocks c \<and> abandons j (call c)) \<and>
     (\<exists>t'. stp j s (call c) = Next (s', t') \<and> \<not> (blocks c \<and> asleep t') \<and> c' = c\<lparr>call := t'\<rparr>)"
  by (auto simp: caller_step_def split: outcome.splits)

lemma caller_step_Wait_By:
  "caller_step stp asleep inside abandons (Wait_By b) s c = Next (s', c') \<longleftrightarrow>
     \<not> inside (call c) \<and> s' = s \<and> c' = c\<lparr>blocks := b\<rparr>"
  by (auto simp: caller_step_def)

locale blocking_system =
  fixes stp :: "'i \<Rightarrow> 's \<Rightarrow> 't \<Rightarrow> ('s \<times> 't) outcome"
    and fresh :: "'t \<Rightarrow> bool"
    and start :: "'s \<Rightarrow> bool"
    and asleep :: "'t \<Rightarrow> bool"
    and inside :: "'t \<Rightarrow> bool"
    and abandons :: "'i \<Rightarrow> 't \<Rightarrow> bool"
  assumes fresh_awake: "fresh t \<Longrightarrow> \<not> asleep t"
    and asleep_inside: "asleep t \<Longrightarrow> inside t"

sublocale blocking_system \<subseteq> async: component_system "caller_step stp asleep inside abandons"
    "caller_fresh fresh" start stp fresh start "\<lambda>s. s" call
proof
  show "caller_fresh fresh c \<Longrightarrow> fresh (call c)" for c :: "'t caller"
    by (simp add: caller_fresh_def)
  fix i and s s' :: 's and c c' :: "'t caller"
  assume "caller_step stp asleep inside abandons i s c = Next (s', c')"
  then show "s' = s \<and> call c' = call c \<or> (\<exists>j. stp j s (call c) = Next (s', call c'))"
    by (cases i) (auto simp: caller_step_Go caller_step_Wait_By)
qed

sublocale blocking_system \<subseteq> awake: inv_system "caller_step stp asleep inside abandons"
    "caller_fresh fresh" start "\<lambda>S. \<forall>c \<in> set (tasks S). blocks c \<longrightarrow> \<not> asleep (call c)"
proof
  fix S :: "('s, 't caller) sys" and k i s' c'
  assume inv: "\<forall>c \<in> set (tasks S). blocks c \<longrightarrow> \<not> asleep (call c)" and k: "k < length (tasks S)"
    and step: "caller_step stp asleep inside abandons i (shared S) (tasks S ! k) = Next (s', c')"
  from step asleep_inside [of "call (tasks S ! k)"] have "blocks c' \<longrightarrow> \<not> asleep (call c')"
    by (cases i) (auto simp: caller_step_Go caller_step_Wait_By)
  with inv show "\<forall>c \<in> set (tasks \<lparr>shared = s', tasks = (tasks S)[k := c']\<rparr>). blocks c \<longrightarrow> \<not> asleep (call c)"
    by (auto dest!: set_update_subset_insert [THEN subsetD])
qed (auto simp: caller_fresh_def fresh_awake)

context blocking_system
begin

lemma blocking_awake:
  "reachable (caller_step stp asleep inside abandons) (caller_fresh fresh) start S \<Longrightarrow>
   k < length (tasks S) \<Longrightarrow> blocks (tasks S ! k) \<Longrightarrow> \<not> asleep (call (tasks S ! k))"
  by (drule awake.reachable_inv) simp

lemma blocking_sound:
  "reachable (caller_step stp asleep inside abandons) (caller_fresh fresh) start S \<Longrightarrow>
   reachable stp fresh start \<lparr>shared = shared S, tasks = map call (tasks S)\<rparr>"
  by (drule async.reachable_inv) (simp add: part_def)

end

end
