(* ===== verification/Mutex_Blocking.thy ===== *)
theory Mutex_Blocking
  imports Mutex_Solo Blocking
begin

text \<open>
  \<open>lock_blocking\<close>: the lock future driven by a thread that parks in \<open>strategy.poll\<close>. The main property
  is that threads do not deadlock on the mutex itself: while nobody holds it, some caller can go on.
\<close>

definition lock_asleep :: "'l lock \<Rightarrow> bool" where
  "lock_asleep l = (case l of LSlow s \<Rightarrow> True | _ \<Rightarrow> False)"

lemma lock_asleep_simps [simp]:
  "lock_asleep (LSlow s)" "\<not> lock_asleep LNew" "\<not> lock_asleep LTryLock" "\<not> lock_asleep LTry"
  "\<not> lock_asleep (LHot hpc s)" "\<not> lock_asleep (LFair fpc s)" "\<not> lock_asleep (LHeld lo)"
  "\<not> lock_asleep (LUnlock lo)" "\<not> lock_asleep (LDone lo)"
  by (simp_all add: lock_asleep_def)

text \<open>A lock future or call exists and has not completed.\<close>

definition lock_inside :: "'l lock \<Rightarrow> bool" where
  "lock_inside l = (case l of LHeld lo \<Rightarrow> False | LUnlock lo \<Rightarrow> False | LDone lo \<Rightarrow> False | _ \<Rightarrow> True)"

definition lock_abandons :: "'a lock_in \<Rightarrow> 'l lock \<Rightarrow> bool" where
  "lock_abandons i l \<longleftrightarrow> i = Cancel \<and> lock_inside l"

definition mutex_lock_blocking :: "'l lock caller" where
  "mutex_lock_blocking = blocking LNew"

abbreviation lock_caller_step ::
    "('e, 'l) event_ops \<Rightarrow> 'a lock_in caller_in \<Rightarrow> ('e, 'a) mutex \<Rightarrow> 'l lock caller \<Rightarrow>
     (('e, 'a) mutex \<times> 'l lock caller) outcome" where
  "lock_caller_step ev \<equiv> caller_step (lock_step ev) lock_asleep lock_inside lock_abandons"

abbreviation lock_callers_reachable ::
    "('e, 'l) event_ops \<Rightarrow> ('e \<Rightarrow> bool) \<Rightarrow> (('e, 'a) mutex, 'l lock caller) sys \<Rightarrow> bool" where
  "lock_callers_reachable ev new_event \<equiv>
     reachable (lock_caller_step ev) (caller_fresh lock_fresh) (mutex_start new_event)"

interpretation mtx_blocking: blocking_system "lock_step ev" lock_fresh "mutex_start new_event"
    lock_asleep lock_inside lock_abandons
  for ev :: "('e, 'l) event_ops" and new_event
  by unfold_locales (auto simp: lock_fresh_def lock_asleep_def lock_inside_def split: lock.splits)

subsection \<open>Who can go on\<close>

text \<open>
  The caller can go on by itself: its running call has an action that does not park the thread, or a
  completed future of it is about to be dropped; or a notification is there for its suspended future.
\<close>

definition can_go_on ::
    "('e, 'l) event_ops \<Rightarrow> ('e, 'l) event_view \<Rightarrow> ('e, 'a) mutex \<Rightarrow> 'l lock caller \<Rightarrow> bool" where
  "can_go_on ev vw m c \<longleftrightarrow>
     (\<exists>now m' c'. lock_caller_step ev (Go (Run now)) m c = Next (m', c')) \<or>
     (\<exists>m' c'. lock_caller_step ev (Go DropFut) m c = Next (m', c')) \<or>
     (\<exists>s x. call c = LSlow s \<and> sl_listener s = Some x \<and> x \<in> notified vw (lock_ops m))"

text \<open>A running call parks only to wait for its listener.\<close>

lemma hot_awake: "hot_step ev now pc m s = Next (m', l') \<Longrightarrow> pc \<noteq> HotWait \<Longrightarrow> \<not> lock_asleep l'"
  by (cases pc) (auto simp: mutex_op_defs Let_def split: if_splits prod.splits option.splits)

lemma fair_awake: "fair_step ev pc m s = Next (m', l') \<Longrightarrow> pc \<noteq> FairWait \<Longrightarrow> \<not> lock_asleep l'"
  by (cases pc) (auto simp: mutex_op_defs Let_def split: if_splits prod.splits option.splits)

definition lock_parks :: "'l lock \<Rightarrow> bool" where
  "lock_parks l = (case l of LHot pc s \<Rightarrow> pc = HotWait | LFair pc s \<Rightarrow> pc = FairWait | _ \<Rightarrow> False)"

lemma run_awake:
  assumes "lock_step ev (Run now) m l = Next (m', l')" and "\<not> lock_parks l"
  shows "\<not> lock_asleep l'"
  using assms
  by (cases l)
     (auto simp: lock_step_def lock_parks_def mutex_op_defs Let_def dest: hot_awake fair_awake
       split: if_splits)

lemma told_awake:
  assumes laws: "event_laws ev vw" and x: "lock_listener l = Some x" and reg: "x \<in> active vw (lock_ops m)"
    and told: "x \<in> notified vw (lock_ops m)" and parks: "lock_parks l"
  shows "\<exists>m' l'. lock_step ev (Run now) m l = Next (m', l') \<and> \<not> lock_asleep l'"
proof -
  obtain r e where p: "ev_poll ev x (lock_ops m) = (r, e)" by fastforce
  from pollD(1) [OF laws reg p] told have "r" by simp
  with p x parks show ?thesis
    by (cases l) (auto simp: lock_parks_def lock_step_def lock_listener_def)
qed

lemma run_goes_on:
  assumes "lock_step ev (Run now) m (call c) = Next (m', l')" and "\<not> lock_asleep l'"
  shows "can_go_on ev vw m c"
  unfolding can_go_on_def caller_step_Go using assms by (auto simp: lock_abandons_def)

subsection \<open>No deadlock\<close>

lemma busy_goes_on:
  assumes laws: "event_laws ev vw" and inv: "wake_inv vw \<lparr>shared = m, tasks = ls\<rparr>"
    and few: "length ls \<le> 2 ^ 62" and k: "k < length ls" "call c = ls ! k" "lock_busy (ls ! k)"
    and park: "lock_parks (ls ! k) \<Longrightarrow> \<exists>x. lock_listener (ls ! k) = Some x \<and> x \<in> notified vw (lock_ops m)"
  shows "can_go_on ev vw m c"
proof -
  let ?S = "\<lparr>shared = m, tasks = ls\<rparr>"
  from inv k(1) have wf: "lock_wf (tasks ?S ! k)" and good: "mutex_good (shared ?S) (totals lock_wt (tasks ?S))"
    and own: "own_inv vw lock_listener (lock_ops m) ls"
    by (simp_all add: wake_inv_def counting_inv_def)
  show ?thesis
  proof (cases "lock_parks (ls ! k)")
    case True
    with park obtain x where x: "lock_listener (ls ! k) = Some x" "x \<in> notified vw (lock_ops m)" by blast
    from told_awake [OF laws x(1) own_inv_active [OF own k(1) x(1)] x(2) True, of 0]
    show ?thesis using k(2) by (auto intro: run_goes_on)
  next
    case False
    have "lock_step ev (Run 0) m (ls ! k) \<noteq> Abort"
      using lock_step_no_abort [OF good wf _ , of ev "Run 0"] k(1) few by simp
    from lock_progress [OF laws _ k(3) _ this] wf own_inv_active [OF own k(1)]
    obtain m' l' where step: "lock_step ev (Run 0) m (ls ! k) = Next (m', l')" by (auto elim: goes_onE)
    from run_goes_on [of ev 0 m c m' l'] step run_awake [OF step False] k(2) show ?thesis by simp
  qed
qed

lemma carries_busy: "carries l \<Longrightarrow> lock_wf l \<Longrightarrow> lock_busy l \<and> \<not> lock_parks l"
  by (auto simp: carries_def lock_busy_def lock_parks_def split: lock.splits)

text \<open>The task whose listener has been notified can go on, or its future can be dropped.\<close>

lemma heard_goes_on:
  assumes laws: "event_laws ev vw" and inv: "wake_inv vw \<lparr>shared = m, tasks = map call cs\<rparr>"
    and few: "length cs \<le> 2 ^ 62" and free: "\<forall>c \<in> set cs. lock_owner (call c) = 0"
    and y: "y \<in> notified vw (lock_ops m)"
  shows "\<exists>c \<in> set cs. can_go_on ev vw m c"
proof -
  from inv have "own_inv vw lock_listener (lock_ops m) (map call cs)" by (simp add: wake_inv_def)
  with notified_active [OF laws y] have "y \<in> owned lock_listener (map call cs)"
    by (simp add: own_inv_def)
  then obtain j where j: "j < length cs" "lock_listener (call (cs ! j)) = Some y"
    unfolding owned_def by auto
  have "can_go_on ev vw m (cs ! j)"
  proof (cases "lock_busy (call (cs ! j))")
    case True
    with busy_goes_on [OF laws inv, of j "cs ! j"] few j y show ?thesis by simp
  next
    case False
    have "lock_owner (call (cs ! j)) = 0" using free j(1) by simp
    with False j(2) consider s where "call (cs ! j) = LSlow s" "sl_listener s = Some y"
      | "call (cs ! j) = LDone (Some y)"
      by (auto simp: lock_busy_def lock_listener_def lock_owner_def split: lock.splits)
    then show ?thesis
    proof cases
      case 1
      with y show ?thesis by (auto simp: can_go_on_def)
    next
      case 2
      then show ?thesis
        by (auto simp: can_go_on_def caller_step_Go lock_step_def drop_listener_def lock_abandons_def)
    qed
  qed
  with j(1) show ?thesis by auto
qed

lemma wake_goes_on:
  assumes laws: "event_laws ev vw" and inv: "wake_inv vw \<lparr>shared = m, tasks = map call cs\<rparr>"
    and few: "length cs \<le> 2 ^ 62" and free: "\<forall>c \<in> set cs. lock_owner (call c) = 0"
    and k: "k < length cs" "lock_busy (call (cs ! k))"
  shows "\<exists>c \<in> set cs. can_go_on ev vw m c"
proof (cases "lock_parks (call (cs ! k)) \<and> \<not> (\<exists>x. lock_listener (call (cs ! k)) = Some x \<and> x \<in> notified vw (lock_ops m))")
  case False
  with busy_goes_on [OF laws inv _ _ _ , of k "cs ! k"] few k have "can_go_on ev vw m (cs ! k)" by simp
  with k(1) show ?thesis by (meson nth_mem)
next
  case True
  let ?ls = "map call cs"
  from inv have own: "own_inv vw lock_listener (lock_ops m) ?ls" and wfs: "\<forall>l \<in> set ?ls. lock_wf l"
    and good: "mutex_good m (totals lock_wt ?ls)"
    and duty: "even (unat (mstate m)) \<Longrightarrow> duty_done vw lock_listener waits carries (lock_ops m) ?ls"
    by (simp_all add: wake_inv_def counting_inv_def)
  have "mutex_owners ?ls = {}" using free by (auto simp: mutex_owners_def indices_empty_iff)
  with good have "even (unat (mstate m))"
    by (simp add: mutex_good_def mutex_ok_def owner_total)
  note duty = duty [OF this]
  have "waits (?ls ! k)" "\<not> (\<exists>x. lock_listener (?ls ! k) = Some x \<and> x \<in> notified vw (lock_ops m))"
    using True k(1) by (auto simp: lock_parks_def waits_def split: lock.splits)
  moreover from this(1) have "lock_listener (?ls ! k) \<noteq> None"
    using mtx_duty.waits_listener [of "?ls ! k"] wfs k(1) by auto
  ultimately have "needy vw lock_listener waits (lock_ops m) (?ls ! k)" by (auto simp: needy_def)
  with duty k(1) consider y where "y \<in> notified vw (lock_ops m)"
    | j where "j < length ?ls" "carries (?ls ! j)"
    by (auto simp: duty_done_def)
  then show ?thesis
  proof cases
      case 1
    from heard_goes_on [OF laws inv few free this] show ?thesis .
  next
    case (2 j)
    then have "lock_busy (?ls ! j) \<and> \<not> lock_parks (?ls ! j)" using carries_busy [OF 2(2)] wfs by simp
    with busy_goes_on [OF laws inv _ _ _ , of j "cs ! j"] few 2 have "can_go_on ev vw m (cs ! j)" by simp
    with 2(1) show ?thesis by (metis length_map nth_mem)
  qed
qed

text \<open>
  C6: threads do not deadlock on the mutex. Callers that block and callers that poll use it together.
  In any reachable state in which nobody has the guard, if some call is under way (a thread may be
  parked in it), then some caller can go on by itself, or a suspended future has been notified.
\<close>

theorem mutex_blocking_no_deadlock:
  assumes laws: "event_laws ev vw" and reach: "lock_callers_reachable ev (fresh_event vw) S"
    and few: "length (tasks S) \<le> 2 ^ 62" and free: "\<forall>c \<in> set (tasks S). lock_owner (call c) = 0"
    and k: "k < length (tasks S)" "lock_busy (call (tasks S ! k))"
  shows "\<exists>c \<in> set (tasks S). can_go_on ev vw (shared S) c"
proof -
  have "wake_inv vw \<lparr>shared = shared S, tasks = map call (tasks S)\<rparr>"
    using mtx_wake.reachable_inv [OF mtx_blocking.blocking_sound [OF reach]] laws by blast
  from wake_goes_on [OF laws this few free k] show ?thesis .
qed

text \<open>
  Task 0 has locked the mutex, a thread has parked in \<open>lock_blocking\<close>, and task 0 has cleared the
  lock bit but not notified yet.
\<close>

definition demo_parked :: "((qevent, nat) mutex, nat lock caller) sys" where
  "demo_parked =
     \<lparr>shared = \<lparr>mstate = 0, lock_ops = [Some False], mdata = 7\<rparr>,
      tasks = [\<lparr>blocks = False, call = LUnlock None\<rparr>,
        blocking (LHot HotWait \<lparr>sl_mutex = True, sl_listener = Some 0, sl_start = Some 5, sl_starved = False\<rparr>)]\<rparr>"

lemma demo_parked_run:
  "exec (lock_caller_step queue_events) (caller_fresh lock_fresh)
     [Spawn \<lparr>blocks = False, call = LNew\<rparr>, Act 0 (Go (Poll 0)), Act 0 (Go (Run 0)),
      Spawn mutex_lock_blocking, Act 1 (Go (Poll 5)), Act 1 (Go (Run 5)), Act 1 (Go (Run 5)),
      Act 1 (Go (Run 5)), Act 0 (Go Unlock)]
     \<lparr>shared = mutex_new [] 7, tasks = []\<rparr> = Next demo_parked"
  by (simp add: mutex_run_simps caller_step_def caller_fresh_def mutex_lock_blocking_def blocking_def
      lock_abandons_def demo_parked_def)

lemma demo_parked_reachable:
  "lock_callers_reachable queue_events (fresh_event queue_view) demo_parked"
  by (rule exec_reachable_init [where start = "mutex_start (fresh_event queue_view)", OF _ demo_parked_run])
     (simp add: mutex_start_def mutex_new_def fresh_event_def queue_view_def)

theorem mutex_blocking_no_deadlock_witness:
  "\<exists>c \<in> set (tasks demo_parked). can_go_on queue_events queue_view (shared demo_parked) c"
  by (rule mutex_blocking_no_deadlock [OF queue_events_laws demo_parked_reachable, of 1])
     (simp_all add: demo_parked_def lock_owner_def lock_busy_def)

end
