(* ===== verification/RawRwLock_Blocking.thy ===== *)
theory RawRwLock_Blocking
  imports RawRwLock_Solo Mutex_Blocking
begin

text \<open>
  Threads do not deadlock on the reader-writer lock, as long as no client calls
  \<open>downgrade_to_upgradable\<close>. The argument puts the three events together: if no caller can go on by
  itself, then every running call is parked, and what it waits for is free, because nobody holds
  a guard; then the duties of \<open>no_readers\<close>, \<open>no_writer\<close> and of the mutex say that somebody has been notified.
\<close>

definition rw_asleep :: "'l rw \<Rightarrow> bool" where
  "rw_asleep r = (case r of
     RRead pc x \<Rightarrow> pc = RdSleep | RUpLock l \<Rightarrow> lock_asleep l | RWriteLock l \<Rightarrow> lock_asleep l
   | RWrite pc nr \<Rightarrow> pc = DrSleep | RUpgrade pc nr lo \<Rightarrow> pc = DrSleep | _ \<Rightarrow> False)"

definition rw_inside :: "'l rw \<Rightarrow> bool" where
  "rw_inside r = (case r of
     RReader lo \<Rightarrow> False | RUpgradable lo \<Rightarrow> False | RWriter lo \<Rightarrow> False | RDone lo \<Rightarrow> False | _ \<Rightarrow> True)"

definition rw_abandons :: "rw_in \<Rightarrow> 'l rw \<Rightarrow> bool" where
  "rw_abandons i r \<longleftrightarrow> i = RwCancel \<and> rw_inside r"

lemma rw_asleep_simps [simp]:
  "rw_asleep (RRead pc r) \<longleftrightarrow> pc = RdSleep" "rw_asleep (RUpLock l) \<longleftrightarrow> lock_asleep l"
  "rw_asleep (RWriteLock l) \<longleftrightarrow> lock_asleep l" "rw_asleep (RWrite dpc nr) \<longleftrightarrow> dpc = DrSleep"
  "rw_asleep (RUpgrade dpc nr lo) \<longleftrightarrow> dpc = DrSleep"
  by (simp_all add: rw_asleep_def)

lemma rw_asleep_inside: "rw_asleep r \<Longrightarrow> rw_inside r"
  by (simp add: rw_asleep_def rw_inside_def split: rw.splits)

lemma rw_fresh_awake: "rw_fresh r \<Longrightarrow> \<not> rw_asleep r"
  by (auto simp: rw_fresh_def rw_asleep_def)

abbreviation rw_caller_step ::
    "('e, 'l) event_ops \<Rightarrow> rw_in caller_in \<Rightarrow> 'e raw_rwlock \<Rightarrow> 'l rw caller \<Rightarrow>
     ('e raw_rwlock \<times> 'l rw caller) outcome" where
  "rw_caller_step ev \<equiv> caller_step (rw_step_simple ev) rw_asleep rw_inside rw_abandons"

abbreviation rw_callers_reachable ::
    "('e, 'l) event_ops \<Rightarrow> ('e \<Rightarrow> bool) \<Rightarrow> ('e raw_rwlock, 'l rw caller) sys \<Rightarrow> bool" where
  "rw_callers_reachable ev new_event \<equiv>
     reachable (rw_caller_step ev) (caller_fresh rw_fresh) (rw_start new_event)"

interpretation rw_blocking: blocking_system "rw_step_simple ev" rw_fresh "rw_start new_event"
    rw_asleep rw_inside rw_abandons
  for ev :: "('e, 'l) event_ops" and new_event
  by unfold_locales (simp_all add: rw_fresh_awake rw_asleep_inside)

subsection \<open>Who can go on\<close>

text \<open>The listener that the operation waits with has been notified.\<close>

definition rw_told :: "('e, 'l) event_view \<Rightarrow> 'e raw_rwlock \<Rightarrow> 'l rw \<Rightarrow> bool" where
  "rw_told vw s t = (case t of
     RRead pc r \<Rightarrow> heard vw (no_writer s) (rd_listener r)
   | RWrite pc nr \<Rightarrow> heard vw (no_readers s) nr
   | RUpgrade pc nr lo \<Rightarrow> heard vw (no_readers s) nr
   | RUpLock l \<Rightarrow> heard vw (lock_ops (rmutex s)) (lock_listener l)
   | RWriteLock l \<Rightarrow> heard vw (lock_ops (rmutex s)) (lock_listener l)
   | _ \<Rightarrow> False)"

text \<open>
  The caller can go on by itself: its running call has an action that does not park the thread, or a
  completed future of it can be dropped; or its suspended future has been notified.
\<close>

definition rw_can_go_on ::
    "('e, 'l) event_ops \<Rightarrow> ('e, 'l) event_view \<Rightarrow> 'e raw_rwlock \<Rightarrow> 'l rw caller \<Rightarrow> bool" where
  "rw_can_go_on ev vw s c \<longleftrightarrow>
     (\<exists>now s' c'. rw_caller_step ev (Go (RwRun now)) s c = Next (s', c')) \<or>
     (\<exists>j s' c'. rw_caller_step ev (Go (RwDropFut j)) s c = Next (s', c')) \<or>
     (rw_asleep (call c) \<and> rw_told vw s (call c))"

text \<open>The calls that park when they run on, if their listener has not been notified.\<close>

definition rw_parks :: "'l rw \<Rightarrow> bool" where
  "rw_parks t = (case t of
     RRead pc r \<Rightarrow> pc = RdWait | RWrite pc nr \<Rightarrow> pc = DrWait | RUpgrade pc nr lo \<Rightarrow> pc = DrWait
   | RUpLock l \<Rightarrow> lock_parks l | RWriteLock l \<Rightarrow> lock_parks l | _ \<Rightarrow> False)"

lemma rw_head_awake:
  "read_head r = Next t \<Longrightarrow> \<not> rw_asleep t" "try_read_head st = Next t \<Longrightarrow> \<not> rw_asleep t"
  by (auto simp: read_head_def try_read_head_def rw_asleep_def split: if_splits)

lemma read_step_awake: "read_step ev pc s r = Next (s', t') \<Longrightarrow> pc \<noteq> RdWait \<Longrightarrow> \<not> rw_asleep t'"
  by (cases pc)
     (auto simp: stay_Next Let_def rw_asleep_def dest: rw_head_awake split: prod.splits sum.splits if_splits)

lemma drain_step_awake:
  "write_step ev pc s nr = Next (s', t') \<Longrightarrow> pc \<noteq> DrWait \<Longrightarrow> \<not> rw_asleep t'"
  "upgrade_step ev pc s nr lo = Next (s', t') \<Longrightarrow> pc \<noteq> DrWait \<Longrightarrow> \<not> rw_asleep t'"
  by (cases pc; auto simp: rw_asleep_def split: prod.splits if_splits)+

lemma lock_into_asleep:
  "rw_asleep (case l of LHeld lo \<Rightarrow> RUpLoad lo | _ \<Rightarrow> RUpLock l) = lock_asleep l"
  "rw_asleep (case l of LHeld lo \<Rightarrow> RWriteOr lo | _ \<Rightarrow> RWriteLock l) = lock_asleep l"
  by (cases l; simp add: rw_asleep_def)+

lemma lock_into_awake:
  "up_lock_step ev (Run now) s l = Next (s', t') \<Longrightarrow> \<not> lock_parks l \<Longrightarrow> \<not> rw_asleep t'"
  "write_lock_step ev (Run now) s l = Next (s', t') \<Longrightarrow> \<not> lock_parks l \<Longrightarrow> \<not> rw_asleep t'"
  using run_awake [of ev now "rmutex s" l]
  by (auto simp: up_lock_step_def write_lock_step_def map_outcome_Next_iff lock_into_asleep)

lemma rw_run_awake:
  assumes "rw_step ev (RwRun now) s t = Next (s', t')" and "\<not> rw_parks t"
  shows "\<not> rw_asleep t'"
proof (cases t)
  case (RUpLock l)
  with assms lock_into_awake(1) [of ev now s l] show ?thesis
    by (simp add: rw_step_def lock_input_def rw_parks_def)
next
  case (RWriteLock l)
  with assms lock_into_awake(2) [of ev now s l] show ?thesis
    by (simp add: rw_step_def lock_input_def rw_parks_def)
qed (use assms in \<open>auto simp: rw_step_def run_only_def rw_parks_def rw_asleep_def stay_Next Let_def
      reader_step_def upgradable_step_def writer_step_def rw_op_defs
      dest: rw_head_awake read_step_awake drain_step_awake
      split: if_splits prod.splits sum.splits option.splits write_state.splits\<close>)

text \<open>A call that would park, with a notified listener, takes the notification.\<close>

lemma rw_told_awake:
  assumes laws: "event_laws ev vw" and wf: "rw_wf t" and parks: "rw_parks t" and told: "rw_told vw s t"
    and on_lock: "\<And>x. lock_listener (rw_lock t) = Some x \<Longrightarrow> x \<in> active vw (lock_ops (rmutex s))"
    and on_readers: "\<And>x. x \<in># shr t \<Longrightarrow> x \<in> active vw (no_readers s)"
    and on_writer: "\<And>x. x \<in># wshr t \<Longrightarrow> x \<in> active vw (no_writer s)"
  shows "\<exists>s' t'. rw_step ev (RwRun now) s t = Next (s', t') \<and> \<not> rw_asleep t'"
proof (cases t)
  case (RRead pc r)
  with wf parks obtain x where x: "rd_listener r = Some x" "pc = RdWait" by (auto simp: rw_parks_def)
  obtain b e where p: "ev_poll ev x (no_writer s) = (b, e)" by fastforce
  have "b" using pollD(1) [OF laws on_writer p] told x RRead by (simp add: rw_told_def)
  with RRead x p show ?thesis by (simp add: rw_step_def run_only_def)
next
  case (RWrite pc nr)
  with wf parks obtain x where x: "nr = Some x" "pc = DrWait" by (auto simp: rw_parks_def drain_wf_def)
  obtain b e where p: "ev_poll ev x (no_readers s) = (b, e)" by fastforce
  have "b" using pollD(1) [OF laws on_readers p] told x RWrite by (simp add: rw_told_def)
  with RWrite x p show ?thesis by (simp add: rw_step_def run_only_def)
next
  case (RUpgrade pc nr lo)
  with wf parks obtain x where x: "nr = Some x" "pc = DrWait" by (auto simp: rw_parks_def drain_wf_def)
  obtain b e where p: "ev_poll ev x (no_readers s) = (b, e)" by fastforce
  have "b" using pollD(1) [OF laws on_readers p] told x RUpgrade by (simp add: rw_told_def)
  with RUpgrade x p show ?thesis by (simp add: rw_step_def run_only_def)
next
  case (RUpLock l)
  with told obtain x where x: "lock_listener l = Some x" "x \<in> notified vw (lock_ops (rmutex s))"
    by (auto simp: rw_told_def heard_def)
  with told_awake [OF laws x(1) _ x(2), of now] on_lock parks RUpLock obtain m' l' where
    "lock_step ev (Run now) (rmutex s) l = Next (m', l')" "\<not> lock_asleep l'" by (auto simp: rw_parks_def)
  with RUpLock show ?thesis
    by (simp add: rw_step_def lock_input_def up_lock_step_def lock_into_asleep)
next
  case (RWriteLock l)
  with told obtain x where x: "lock_listener l = Some x" "x \<in> notified vw (lock_ops (rmutex s))"
    by (auto simp: rw_told_def heard_def)
  with told_awake [OF laws x(1) _ x(2), of now] on_lock parks RWriteLock obtain m' l' where
    "lock_step ev (Run now) (rmutex s) l = Next (m', l')" "\<not> lock_asleep l'" by (auto simp: rw_parks_def)
  with RWriteLock show ?thesis
    by (simp add: rw_step_def lock_input_def write_lock_step_def lock_into_asleep)
qed (use parks in \<open>simp_all add: rw_parks_def\<close>)

lemma rw_run_goes_on:
  "rw_step ev (RwRun now) s (call c) = Next (s', t') \<Longrightarrow> \<not> rw_asleep t' \<Longrightarrow> rw_can_go_on ev vw s c"
  unfolding rw_can_go_on_def caller_step_Go rw_step_simple_Next by (auto simp: rw_abandons_def)

lemma rw_drop_goes_on:
  "rw_step ev (RwDropFut j) s (call c) = Next (s', t') \<Longrightarrow> blocks c \<longrightarrow> \<not> rw_asleep t' \<Longrightarrow> rw_can_go_on ev vw s c"
  unfolding rw_can_go_on_def caller_step_Go rw_step_simple_Next by (auto simp: rw_abandons_def)

text \<open>The operations of a state of the callers.\<close>

definition calls :: "('s, 't caller) sys \<Rightarrow> ('s, 't) sys" where
  "calls S = \<lparr>shared = shared S, tasks = map call (tasks S)\<rparr>"

lemma calls_simps [simp]: "shared (calls S) = shared S" "tasks (calls S) = map call (tasks S)"
  by (simp_all add: calls_def)

lemma rw_busy_goes_on:
  assumes ok: "rw_solo_ok ev vw (calls S)" and k: "k < length (tasks S)" and busy: "rw_busy (call (tasks S ! k))"
    and park: "rw_parks (call (tasks S ! k)) \<Longrightarrow> rw_told vw (shared S) (call (tasks S ! k))"
  shows "rw_can_go_on ev vw (shared S) (tasks S ! k)"
proof (cases "rw_parks (call (tasks S ! k))")
  case False
  from rw_solo_progress [OF ok, of k 0] k busy obtain s' t' where
    "rw_step ev (RwRun 0) (shared S) (call (tasks S ! k)) = Next (s', t')" by (auto elim: goes_onE)
  from rw_run_goes_on [OF this rw_run_awake [OF this False]] show ?thesis .
next
  case True
  let ?T = "calls S"
  from ok have laws: "event_laws ev vw" and wf: "rw_wf (tasks ?T ! k)"
    and readers: "shares_inv vw shr (no_readers (shared ?T)) (tasks ?T)"
    and writer: "shares_inv vw wshr (no_writer (shared ?T)) (tasks ?T)"
    and own: "own_inv vw lock_listener (lock_ops (rmutex (shared ?T))) (map rw_lock (tasks ?T))"
    using k by (auto simp: rw_solo_ok_def listeners_ok_def drain_inv_def counting_inv_def client_wake_def wake_inv_def)
  have "\<exists>s' t'. rw_step ev (RwRun 0) (shared S) (call (tasks S ! k)) = Next (s', t') \<and> \<not> rw_asleep t'"
  proof (rule rw_told_awake [OF laws _ True park [OF True]])
    show "rw_wf (call (tasks S ! k))" using wf k by simp
    show "x \<in> active vw (lock_ops (rmutex (shared S)))"
      if "lock_listener (rw_lock (call (tasks S ! k))) = Some x" for x
      using own_inv_active [OF own, of k x] that k by simp
    show "x \<in> active vw (no_readers (shared S))" if "x \<in># shr (call (tasks S ! k))" for x
      using shares_inv_active [OF laws readers, of k x] that k by simp
    show "x \<in> active vw (no_writer (shared S))" if "x \<in># wshr (call (tasks S ! k))" for x
      using shares_inv_active [OF laws writer, of k x] that k by simp
  qed
  then show ?thesis by (auto intro: rw_run_goes_on)
qed

subsection \<open>When nobody can go on\<close>

text \<open>The client has a guard, or the future of an upgrade that it has not polled yet.\<close>

definition rw_holds :: "'l rw \<Rightarrow> bool" where
  "rw_holds t = (case t of
     RReader lo \<Rightarrow> True | RUpgradable lo \<Rightarrow> True | RWriter lo \<Rightarrow> True | RUpgrade pc nr lo \<Rightarrow> pc = DrIdle
   | _ \<Rightarrow> False)"

text \<open>Parked, suspended, not polled yet, or done.\<close>

definition rw_blocked :: "'l rw \<Rightarrow> bool" where
  "rw_blocked t = (case t of
     RRead pc r \<Rightarrow> pc = RdIdle \<or> pc = RdWait \<or> pc = RdSleep
   | RUpLock l \<Rightarrow> \<not> lock_busy l \<or> lock_parks l | RWriteLock l \<Rightarrow> \<not> lock_busy l \<or> lock_parks l
   | RWrite pc nr \<Rightarrow> pc = DrWait \<or> pc = DrSleep
   | RUpgrade pc nr lo \<Rightarrow> pc = DrWait \<or> pc = DrSleep
   | RDone lo \<Rightarrow> lo = []
   | _ \<Rightarrow> False)"

lemma not_busy_blocked:
  assumes "\<not> rw_busy t" and "\<not> rw_holds t" and "\<And>lo. t = RDone lo \<Longrightarrow> lo = []"
  shows "rw_blocked t"
  using assms by (cases t) (auto simp: rw_busy_def rw_holds_def rw_blocked_def)

lemma parks_blocked: "rw_parks t \<Longrightarrow> rw_blocked t"
  by (cases t) (auto simp: rw_parks_def rw_blocked_def)

lemma stuck_blocked:
  assumes ok: "rw_solo_ok ev vw (calls S)" and k: "k < length (tasks S)"
    and stuck: "\<not> rw_can_go_on ev vw (shared S) (tasks S ! k)" and free: "\<not> rw_holds (call (tasks S ! k))"
  shows "rw_blocked (call (tasks S ! k))" and "rw_parks (call (tasks S ! k)) \<or> rw_asleep (call (tasks S ! k)) \<Longrightarrow>
    \<not> rw_told vw (shared S) (call (tasks S ! k))"
proof -
  let ?t = "call (tasks S ! k)"
  have park: "rw_busy ?t \<Longrightarrow> rw_parks ?t \<and> \<not> rw_told vw (shared S) ?t"
    using rw_busy_goes_on [OF ok k] stuck by blast
  have "lo = []" if "?t = RDone lo" for lo
  proof (rule ccontr)
    assume "lo \<noteq> []"
    with that rw_drop_goes_on [of ev 0 "shared S" "tasks S ! k" _ _ vw] stuck show False
      by (auto simp: rw_step_def drop_left_def rw_asleep_def)
  qed
  with not_busy_blocked [OF _ free] park show "rw_blocked ?t" by (auto intro: parks_blocked)
  have "rw_parks ?t \<Longrightarrow> rw_busy ?t"
    by (auto simp: rw_parks_def rw_busy_def lock_parks_def lock_busy_def split: rw.splits lock.splits)
  with park stuck show "rw_parks ?t \<or> rw_asleep ?t \<Longrightarrow> \<not> rw_told vw (shared S) ?t"
    by (auto simp: rw_can_go_on_def)
qed

lemma embedded_owner: "embedded l \<Longrightarrow> \<not> lock_busy l \<or> lock_parks l \<Longrightarrow> lock_owner l = 0"
  by (cases l) (auto simp: embedded_def lock_owner_def lock_busy_def lock_parks_def)

lemma blocked_facts:
  assumes "rw_blocked t" and "rw_wf t"
  shows "role t = (if drain_waits t then Wt else Idle)" and "\<not> drain_carries t" and "\<not> read_carries t"
    and "role t = Idle \<Longrightarrow> lock_owner (rw_lock t) = 0"
  using assms
  by (cases t; auto simp: rw_blocked_def lock_role_def embedded_owner lock_owner_def [of "LDone _"])+

lemma waits_parked: "drain_waits t \<or> read_waits t \<Longrightarrow> rw_parks t \<or> rw_asleep t"
  by (cases t) (auto simp: rw_parks_def)

text \<open>
  An upgrader has no listener of \<open>no_readers\<close> left over from an earlier wait: the writer that it was then
  has not been downgraded to an upgradable reader.
\<close>

definition no_old :: "'l rw \<Rightarrow> bool" where
  "no_old t = (case t of RUpgradable lo \<Rightarrow> on_readers lo = {#} | RUpgrade pc nr lo \<Rightarrow> on_readers lo = {#} | _ \<Rightarrow> True)"

lemma left_on_empty_remove:
  "left_on w lo = {#} \<Longrightarrow> j < length lo \<Longrightarrow> left_on w (take j lo @ drop (Suc j) lo) = {#}"
  using left_on_remove(1) [of j lo w] by (simp del: left_on_simps(2))

lemma lock_into_no_old:
  "no_old (case l of LHeld lo \<Rightarrow> RUpLoad lo | _ \<Rightarrow> RUpLock l)"
  "no_old (case l of LHeld lo \<Rightarrow> RWriteOr lo | _ \<Rightarrow> RWriteLock l)"
  by (cases l; simp add: no_old_def)+

lemma rw_step_no_old:
  assumes step: "rw_step ev i s t = Next (s', t')" and "i \<noteq> RwDowngradeUp" and old: "no_old t"
  shows "no_old t'"
proof (cases t)
  case (RUpgradable lo)
  with assms show ?thesis
    by (auto simp: rw_step_def upgradable_step_def rw_op_defs no_old_def drop_left_def Let_def
        left_on_empty_remove split: rw_in.splits if_splits prod.splits simp del: left_on_simps(2))
next
  case (RUpgrade pc nr lo)
  with assms show ?thesis
    by (cases pc) (auto simp: rw_step_def run_only_Next rw_op_defs no_old_def drop_left_def Let_def
        left_on_empty_remove split: rw_in.splits if_splits prod.splits option.splits simp del: left_on_simps(2))
next
  case (RRead pc r)
  with step show ?thesis
    by (cases pc) (auto simp: rw_step_def run_only_Next stay_Next read_head_def no_old_def Let_def
        split: rw_in.splits if_splits prod.splits option.splits sum.splits)
next
  case (RUpLock l)
  with step show ?thesis
    by (auto simp: rw_step_def up_lock_step_def map_outcome_Next_iff lock_into_no_old split: option.splits)
next
  case (RWriteLock l)
  with step show ?thesis
    by (auto simp: rw_step_def write_lock_step_def map_outcome_Next_iff lock_into_no_old split: option.splits)
next
  case (RWrite pc nr)
  with step show ?thesis
    by (cases pc) (auto simp: rw_step_def run_only_Next rw_op_defs no_old_def Let_def
        split: rw_in.splits if_splits prod.splits option.splits)
qed (use assms in \<open>auto simp: rw_step_def run_only_Next stay_Next Let_def reader_step_def writer_step_def
      rw_op_defs drop_left_def no_old_def
      split: rw_in.splits if_splits prod.splits sum.splits option.splits write_state.splits\<close>)

interpretation rw_no_old: inv_system "rw_step_simple ev" rw_fresh "rw_start new_event"
    "\<lambda>S. \<forall>t \<in> set (tasks S). no_old t"
  for ev :: "('e, 'l) event_ops" and new_event
proof
  fix S :: "('e raw_rwlock, 'l rw) sys" and k i s' t'
  assume "\<forall>t \<in> set (tasks S). no_old t" and "k < length (tasks S)"
    and "rw_step_simple ev i (shared S) (tasks S ! k) = Next (s', t')"
  then show "\<forall>t \<in> set (tasks \<lparr>shared = s', tasks = (tasks S)[k := t']\<rparr>). no_old t"
    by (auto simp: rw_step_simple_Next dest!: set_update_subset_insert [THEN subsetD] intro: rw_step_no_old)
qed (auto simp: rw_fresh_def no_old_def)

text \<open>A notified listener belongs to an operation that waits with it.\<close>

lemma blocked_told:
  assumes "rw_blocked t" and "no_old t" and "x \<in># shr t" and "x \<in> notified vw (no_readers s)"
  shows "drain_waits t \<and> rw_told vw s t"
  using assms
  by (cases t) (auto simp: rw_blocked_def no_old_def rw_told_def opt_mset_def split: option.splits)

lemma blocked_told_reader:
  assumes "rw_blocked t" and "rw_wf t" and "role t = Idle" and "x \<in># wshr t" and "x \<in> notified vw (no_writer s)"
  shows "read_waits t \<and> rw_told vw s t"
  using assms
  by (cases t) (auto simp: rw_blocked_def rw_told_def opt_mset_def lock_role_def split: option.splits)

text \<open>An operation that is blocked on the mutex can go on if its lock future can.\<close>

lemma lock_goes_on:
  assumes on: "can_go_on ev vw (rmutex s) \<lparr>blocks = blocks c, call = rw_lock (call c)\<rparr>"
    and blocked: "rw_blocked (call c)" and role: "role (call c) = Idle"
  shows "rw_can_go_on ev vw s c"
proof -
  have dead: False if "rw_lock (call c) = LDone None"
    using on that by (auto simp: can_go_on_def caller_step_Go lock_step_def drop_listener_def)
  from on consider
      (step) i m' l' where "lock_step ev i (rmutex s) (rw_lock (call c)) = Next (m', l')"
        "\<not> (blocks c \<and> lock_asleep l')" "(\<exists>now. i = Run now) \<or> i = DropFut"
    | (told) "lock_asleep (rw_lock (call c))" "heard vw (lock_ops (rmutex s)) (lock_listener (rw_lock (call c)))"
    by (auto simp: can_go_on_def caller_step_Go lock_listener_def)
  then show ?thesis
  proof cases
    case step
    from step(3) have "(\<exists>now. lock_input (RwRun now) = Some i) \<or> lock_input (RwDropFut 0) = Some i"
      by (auto simp: lock_input_def)
    then obtain j where j: "lock_input j = Some i" "(\<exists>now. j = RwRun now) \<or> (\<exists>n. j = RwDropFut n)" by blast
    have "\<exists>s' t'. rw_step ev j s (call c) = Next (s', t') \<and> \<not> (blocks c \<and> rw_asleep t')"
      using blocked role dead j(1) step(1,2)
      by (cases "call c") (auto simp: rw_blocked_def rw_step_def up_lock_step_def write_lock_step_def lock_into_asleep)
    with j(2) show ?thesis
      unfolding rw_can_go_on_def caller_step_Go rw_step_simple_Next by (auto simp: rw_abandons_def)
  next
    case told
    with dead blocked role show ?thesis
      by (cases "call c") (auto simp: rw_can_go_on_def rw_told_def rw_blocked_def)
  qed
qed

definition rw_ok_calls :: "('e, 'l) event_ops \<Rightarrow> ('e, 'l) event_view \<Rightarrow> ('e raw_rwlock, 'l rw caller) sys \<Rightarrow> bool" where
  "rw_ok_calls ev vw S \<longleftrightarrow> rw_solo_ok ev vw (calls S) \<and> read_inv vw (calls S) \<and> (\<forall>c \<in> set (tasks S). no_old (call c))"

lemma somebody_told:
  assumes ok: "rw_ok_calls ev vw S" and blocked: "\<forall>c \<in> set (tasks S). rw_blocked (call c)"
    and k: "k < length (tasks S)" "rw_parks (call (tasks S ! k))"
  shows "\<exists>c \<in> set (tasks S). rw_told vw (shared S) (call c) \<and> (rw_parks (call c) \<or> rw_asleep (call c)) \<or>
    rw_can_go_on ev vw (shared S) c"
proof -
  let ?ts = "tasks (calls S)" and ?s = "shared S"
  from ok have laws: "event_laws ev vw" and wfs: "\<forall>t \<in> set ?ts. rw_wf t" and old: "\<forall>t \<in> set ?ts. no_old t"
    and good: "rw_good ?s (totals rw_wt ?ts)"
    and readers: "shares_inv vw shr (no_readers ?s) ?ts" and drain: "drain_done vw ?s ?ts"
    and writer: "shares_inv vw wshr (no_writer ?s) ?ts" and reads: "read_done vw ?s ?ts"
    and wake: "wake_inv vw \<lparr>shared = rmutex ?s, tasks = map rw_lock ?ts\<rparr>" and few: "length ?ts < 2 ^ 62"
    by (auto simp: rw_ok_calls_def rw_solo_ok_def listeners_ok_def drain_inv_def counting_inv_def
        client_wake_def read_inv_def lock_part_def)
  have facts: "rw_blocked t" "rw_wf t" "no_old t" if "t \<in> set ?ts" for t
    using that blocked wfs old by auto
  have told: "\<exists>c \<in> set (tasks S). rw_told vw ?s (call c) \<and> (rw_parks (call c) \<or> rw_asleep (call c))"
    if "j < length ?ts" "rw_told vw ?s (?ts ! j)" "drain_waits (?ts ! j) \<or> read_waits (?ts ! j)" for j
    using that waits_parked [of "?ts ! j"] by (auto intro!: bexI [of _ "tasks S ! j"])
  show ?thesis
  proof (cases "\<exists>t \<in> set ?ts. drain_waits t")
    case True
    have roles: "in_role r ?ts = {}" if "r \<noteq> Idle" "r \<noteq> Wt" for r
      using that blocked_facts(1) [OF facts(1,2)] by (auto simp: in_role_def indices_empty_iff)
    from True obtain w where w: "w < length ?ts" "drain_waits (?ts ! w)" by (metis in_set_conv_nth)
    then have "1 \<le> totals rw_wt ?ts (KRole Wt)"
      using totals_member_le [OF w(1), of rw_wt "KRole Wt"] drain_waits_role [OF w(2)] by (simp add: rw_wt_def)
    with good roles have "unat (rstate ?s) = 1"
      by (auto simp: rw_good_def rw_ok_def mutex_ok_def card_in_role)
    then have "rstate ?s = 1" by (metis unat_1 word_unat_eq_iff)
    with drain have "share_done vw drain_waits drain_carries (no_readers ?s) ?ts" by (simp add: drain_done_def)
    from rw_duty.done_rest [OF laws readers this _ w] blocked_facts(2) [OF facts(1,2)]
    obtain j x where j: "j < length ?ts" "x \<in># shr (?ts ! j)" and x: "x \<in> notified vw (no_readers ?s)" by blast
    from blocked_told [OF facts(1,3) j(2) x] j(1) told [OF j(1)] show ?thesis by auto
  next
    case False
    have idle: "role t = Idle" if "t \<in> set ?ts" for t
      using that False blocked_facts(1) [OF facts(1,2) [OF that]] by auto
    then have "in_role Wt ?ts = {}" "in_role Exc ?ts = {}" by (auto simp: in_role_def indices_empty_iff)
    with state_parity [OF good] have "even (rstate ?s)" by (simp add: card_in_role)
    with reads have duty: "share_done vw read_waits read_carries (no_writer ?s) ?ts" by (simp add: read_done_def)
    show ?thesis
    proof (cases "read_waits (?ts ! k)")
      case True
      from rw_read_duty.done_rest [OF laws writer duty _ _ True] k(1) blocked_facts(3) [OF facts(1,2)]
      obtain j x where j: "j < length ?ts" "x \<in># wshr (?ts ! j)" and x: "x \<in> notified vw (no_writer ?s)" by auto
      from blocked_told_reader [OF facts(1,2) idle j(2) x] j(1) told [OF j(1)] show ?thesis by auto
    next
      case False
      let ?c = "\<lambda>c. \<lparr>blocks = blocks c, call = rw_lock (call c)\<rparr>"
      have "lock_busy (rw_lock (?ts ! k))"
        using False k idle [of "?ts ! k"]
        by (cases "?ts ! k") (auto simp: rw_parks_def lock_parks_def lock_busy_def split: lock.splits)
      moreover have "\<forall>c \<in> set (map ?c (tasks S)). lock_owner (call c) = 0"
        using blocked_facts(4) [OF facts(1,2) idle] by auto
      ultimately have "\<exists>c \<in> set (map ?c (tasks S)). can_go_on ev vw (rmutex ?s) c"
        using wake_goes_on [OF laws, of "rmutex ?s" "map ?c (tasks S)" k] wake few k(1) by (simp add: comp_def)
      then obtain c where "c \<in> set (tasks S)" "can_go_on ev vw (rmutex ?s) (?c c)" by auto
      with lock_goes_on [OF this(2)] facts(1) idle show ?thesis by auto
    qed
  qed
qed

subsection \<open>No deadlock\<close>

lemma callers_ok:
  assumes "event_laws ev vw" and reach: "rw_callers_reachable ev (fresh_event vw) S" and "length (tasks S) < 2 ^ 62"
  shows "rw_ok_calls ev vw S"
proof -
  have simple: "rw_simple_reachable ev (fresh_event vw) (calls S)"
    using rw_blocking.blocking_sound [OF reach] by (simp add: calls_def)
  from rw_readers.reachable_inv [OF simple] rw_no_old.reachable_inv [OF simple]
    rw_client.client_wake.reachable_inv [OF rw_simple_reachable [OF simple]] assms(1,3)
  show ?thesis by (simp add: rw_ok_calls_def rw_solo_ok_def read_inv_def)
qed

lemma blocked_busy_parks: "rw_blocked t \<Longrightarrow> rw_busy t \<Longrightarrow> rw_parks t"
  by (cases t) (auto simp: rw_blocked_def rw_busy_def rw_parks_def)

text \<open>
  C15: callers do not deadlock on the reader-writer lock. Threads that block and tasks that poll use it
  together, and none of them calls \<open>downgrade_to_upgradable\<close>. In any reachable state in which nobody has
  a guard (or an upgrade that has not been polled), if some call is under way, perhaps with
  a thread parked in it, then some caller can go on by itself, or a suspended future has been notified.
\<close>

theorem rwlock_blocking_no_deadlock:
  assumes laws: "event_laws ev vw" and reach: "rw_callers_reachable ev (fresh_event vw) S"
    and few: "length (tasks S) < 2 ^ 62" and free: "\<forall>c \<in> set (tasks S). \<not> rw_holds (call c)"
    and k: "k < length (tasks S)" "rw_busy (call (tasks S ! k))"
  shows "\<exists>c \<in> set (tasks S). rw_can_go_on ev vw (shared S) c"
proof (rule ccontr)
  assume stuck: "\<not> (\<exists>c \<in> set (tasks S). rw_can_go_on ev vw (shared S) c)"
  note ok = callers_ok [OF laws reach few]
  have one: "rw_blocked (call c)"
    "rw_parks (call c) \<or> rw_asleep (call c) \<Longrightarrow> \<not> rw_told vw (shared S) (call c)" if c: "c \<in> set (tasks S)" for c
  proof -
    from c obtain j where j: "j < length (tasks S)" "c = tasks S ! j" by (metis in_set_conv_nth)
    from stuck free c ok stuck_blocked [of ev vw S j, OF _ j(1)]
    show "rw_blocked (call c)"
      "rw_parks (call c) \<or> rw_asleep (call c) \<Longrightarrow> \<not> rw_told vw (shared S) (call c)"
      by (auto simp: j(2) rw_ok_calls_def)
  qed
  with somebody_told [OF ok _ k(1) blocked_busy_parks [OF _ k(2)]] k(1) stuck show False by auto
qed

text \<open>
  A thread has parked in \<open>read_blocking\<close> while task 0 had the write guard; task 0 has cleared the writer
  bit but not notified yet.
\<close>

definition demo_parked_reader :: "(qevent raw_rwlock, nat rw caller) sys" where
  "demo_parked_reader =
     \<lparr>shared = \<lparr>rmutex = \<lparr>mstate = 1, lock_ops = [], mdata = ()\<rparr>,
        no_readers = [], no_writer = [Some False], rstate = 0\<rparr>,
      tasks = [\<lparr>blocks = False, call = RWriteUnlockNotify []\<rparr>,
        blocking (RRead RdWait \<lparr>rd_state = 1, rd_listener = Some 0\<rparr>)]\<rparr>"

lemma demo_parked_reader_reachable:
  "rw_callers_reachable queue_events (fresh_event queue_view) demo_parked_reader"
proof (rule exec_reachable_init [where start = "rw_start (fresh_event queue_view)", OF demo_rw_start])
  show "exec (rw_caller_step queue_events) (caller_fresh rw_fresh)
     [Spawn \<lparr>blocks = False, call = RTryWrite\<rparr>, Act 0 (Go (RwRun 0)), Act 0 (Go (RwRun 0)),
      Spawn (blocking RReadCall), Act 1 (Go (RwRun 0)), Act 1 (Go (RwPoll 0)), Act 1 (Go (RwRun 0)),
      Act 1 (Go (RwRun 0)), Act 0 (Go RwUnlock)] \<lparr>shared = demo_rw, tasks = []\<rparr> = Next demo_parked_reader"
    by (simp add: simple_run_simps demo_rw_def caller_step_def caller_fresh_def blocking_def
        rw_abandons_def rw_asleep_def demo_parked_reader_def)
qed

theorem rwlock_blocking_no_deadlock_witness:
  "\<exists>c \<in> set (tasks demo_parked_reader). rw_can_go_on queue_events queue_view (shared demo_parked_reader) c"
  by (rule rwlock_blocking_no_deadlock [OF queue_events_laws demo_parked_reader_reachable, of 1])
     (simp_all add: demo_parked_reader_def rw_holds_def rw_busy_def)

end
