(* ===== verification/Arc_Clients.thy ===== *)
theory Arc_Clients
  imports Interleaving
begin

text \<open>
  A primitive in an \<open>Arc\<close>, used by clients: shared by the mutex, the semaphore and the
  reader-writer lock.

  \<open>strong\<close> is the reference count, \<open>root\<close> says whether the handle that created the \<open>Arc\<close> is still
  there. A client has its own handle (a clone of the \<open>Arc\<close>), from which its futures and borrowed
  guards borrow, and one operation. The operation itself may own clones, \<open>refs\<close> of them; the
  functions of the primitive say when it makes and drops them. The handle can be dropped only when
  nothing borrows from it.

  Locale \<open>arc_clients\<close>: from the accounting of one step of an operation, the reference count is
  exact, and the primitive is freed only when no operation uses it. Locale \<open>arc_component\<close>: the
  primitive without the \<open>Arc\<close> is a component, so its properties carry over.
\<close>

subsection \<open>The heap block and its clients\<close>

record 's arc =
  inner :: 's
  strong :: nat
  root :: bool

definition arc_clone :: "'s arc \<Rightarrow> 's arc" where
  "arc_clone s = s\<lparr>strong := strong s + 1\<rparr>"

definition arc_drop :: "'s arc \<Rightarrow> 's arc" where
  "arc_drop s = s\<lparr>strong := strong s - 1\<rparr>"

lemma arc_simps [simp]:
  "inner (arc_clone s) = inner s" "strong (arc_clone s) = strong s + 1" "root (arc_clone s) = root s"
  "inner (arc_drop s) = inner s" "strong (arc_drop s) = strong s - 1" "root (arc_drop s) = root s"
  by (simp_all add: arc_clone_def arc_drop_def)

record 't client =
  handle :: bool
  oper :: 't

definition client_new :: "'t \<Rightarrow> 't client" where
  "client_new t = \<lparr>handle = False, oper = t\<rparr>"

text \<open>
  The operation goes on; the client gets a handle for an operation it has not begun; it drops its
  handle; the handle that created the \<open>Arc\<close> is dropped.
\<close>

datatype 'i arc_in = Do 'i | GetHandle | DropHandle | DropRoot

definition arc_step ::
    "('i \<Rightarrow> 's arc \<Rightarrow> 't \<Rightarrow> ('s arc \<times> 't) outcome) \<Rightarrow> ('t \<Rightarrow> nat) \<Rightarrow> ('t \<Rightarrow> bool) \<Rightarrow> ('t \<Rightarrow> bool) \<Rightarrow>
     'i arc_in \<Rightarrow> 's arc \<Rightarrow> 't client \<Rightarrow> ('s arc \<times> 't client) outcome" where
  "arc_step stp refs over entry i s c = (case i of
     Do j \<Rightarrow>
       (if handle c \<or> 0 < refs (oper c) \<or> over (oper c)
        then map_outcome (\<lambda>(s', t'). (s', c\<lparr>oper := t'\<rparr>)) (stp j s (oper c)) else Disabled)
   | GetHandle \<Rightarrow>
       (if \<not> handle c \<and> entry (oper c) \<and> 0 < strong s
        then Next (arc_clone s, c\<lparr>handle := True\<rparr>) else Disabled)
   | DropHandle \<Rightarrow>
       (if handle c \<and> (0 < refs (oper c) \<or> over (oper c) \<or> entry (oper c))
        then Next (arc_drop s, c\<lparr>handle := False\<rparr>) else Disabled)
   | DropRoot \<Rightarrow>
       (if root s then Next ((arc_drop s)\<lparr>root := False\<rparr>, c) else Disabled))"

definition arc_start :: "('s \<Rightarrow> bool) \<Rightarrow> 's arc \<Rightarrow> bool" where
  "arc_start start s \<longleftrightarrow> start (inner s) \<and> strong s = 1 \<and> root s"

definition client_fresh :: "('t \<Rightarrow> bool) \<Rightarrow> 't client \<Rightarrow> bool" where
  "client_fresh entry c \<longleftrightarrow> \<not> handle c \<and> entry (oper c)"

lemma arc_step_Do:
  "arc_step stp refs over entry (Do j) s c = Next (s', c') \<longleftrightarrow>
     (handle c \<or> 0 < refs (oper c) \<or> over (oper c)) \<and>
     (\<exists>t'. stp j s (oper c) = Next (s', t') \<and> c' = c\<lparr>oper := t'\<rparr>)"
  by (auto simp: arc_step_def map_outcome_Next_iff)

lemma arc_step_no_panic:
  "(\<And>j. stp j s (oper c) \<noteq> Panic) \<Longrightarrow> arc_step stp refs over entry i s c \<noteq> Panic"
  by (cases i) (simp_all add: arc_step_def)

lemma arc_step_cases:
  assumes "arc_step stp refs over entry i s c = Next (s', c')"
  obtains j t' where "i = Do j" "handle c \<or> 0 < refs (oper c) \<or> over (oper c)"
      "stp j s (oper c) = Next (s', t')" "c' = c\<lparr>oper := t'\<rparr>"
  | "i = GetHandle" "\<not> handle c" "entry (oper c)" "0 < strong s" "s' = arc_clone s"
      "c' = c\<lparr>handle := True\<rparr>"
  | "i = DropHandle" "handle c" "0 < refs (oper c) \<or> over (oper c) \<or> entry (oper c)"
      "s' = arc_drop s" "c' = c\<lparr>handle := False\<rparr>"
  | "i = DropRoot" "root s" "s' = (arc_drop s)\<lparr>root := False\<rparr>" "c' = c"
  using assms by (cases i) (auto simp: arc_step_def map_outcome_Next_iff split: if_splits)

subsection \<open>The reference count\<close>

definition arc_wt :: "('t \<Rightarrow> nat) \<Rightarrow> unit \<Rightarrow> 't client \<Rightarrow> nat" where
  "arc_wt refs u c = of_bool (handle c) + refs (oper c)"

definition client_wf :: "('t \<Rightarrow> nat) \<Rightarrow> ('t \<Rightarrow> bool) \<Rightarrow> ('t \<Rightarrow> bool) \<Rightarrow> 't client \<Rightarrow> bool" where
  "client_wf refs over entry c \<longleftrightarrow>
     handle c \<or> 0 < refs (oper c) \<or> over (oper c) \<or> entry (oper c)"

definition arc_good :: "'s arc \<Rightarrow> (unit \<Rightarrow> nat) \<Rightarrow> bool" where
  "arc_good s n \<longleftrightarrow> strong s = of_bool (root s) + n ()"

locale arc_clients =
  fixes stp :: "'i \<Rightarrow> 's arc \<Rightarrow> 't \<Rightarrow> ('s arc \<times> 't) outcome"
    and refs :: "'t \<Rightarrow> nat"
    and over :: "'t \<Rightarrow> bool"
    and entry :: "'t \<Rightarrow> bool"
    and start :: "'s \<Rightarrow> bool"
  assumes entry_refs: "entry t \<Longrightarrow> refs t = 0"
    and step_refs: "stp i s t = Next (s', t') \<Longrightarrow> refs t \<le> strong s \<Longrightarrow>
      strong s' + refs t = strong s + refs t'"
    and step_root: "stp i s t = Next (s', t') \<Longrightarrow> root s' = root s"
    and step_over: "stp i s t = Next (s', t') \<Longrightarrow> over t \<or> 0 < refs t \<and> refs t' = 0 \<Longrightarrow> over t'"

sublocale arc_clients \<subseteq> arc: counting_system "arc_step stp refs over entry" "client_fresh entry"
    "arc_start start" "arc_wt refs" "client_wf refs over entry" arc_good
proof
  show "arc_start start s \<Longrightarrow> arc_good s (\<lambda>_. 0)" for s
    by (simp add: arc_start_def arc_good_def)
  show "client_fresh entry c \<Longrightarrow> client_wf refs over entry c" for c
    by (simp add: client_fresh_def client_wf_def)
  show "client_fresh entry c \<Longrightarrow> arc_wt refs u c = 0" for c u
    by (simp add: client_fresh_def arc_wt_def entry_refs)
next
  fix i s c s' c'
  assume step: "arc_step stp refs over entry i s c = Next (s', c')" and wf: "client_wf refs over entry c"
  from step show "client_wf refs over entry c'"
  proof (cases rule: arc_step_cases)
    case (1 j t')
    with step_over [OF 1(3)] show ?thesis by (auto simp: client_wf_def)
  qed (use wf in \<open>auto simp: client_wf_def\<close>)
next
  fix i s c s' c' n
  assume step: "arc_step stp refs over entry i s c = Next (s', c')" and good: "arc_good s n"
    and le: "\<And>u. arc_wt refs u c \<le> n u"
  from step show "arc_good s' (\<lambda>u. n u - arc_wt refs u c + arc_wt refs u c')"
  proof (cases rule: arc_step_cases)
    case (1 j t')
    from le [of "()"] good have "refs (oper c) \<le> strong s" by (simp add: arc_good_def arc_wt_def)
    with step_refs [OF 1(3)] step_root [OF 1(3)] 1(4) good le [of "()"] show ?thesis
      by (simp add: arc_good_def arc_wt_def)
  qed (use good le [of "()"] in \<open>auto simp: arc_good_def arc_wt_def\<close>)
qed

context arc_clients
begin

lemma strong_exact:
  assumes "reachable (arc_step stp refs over entry) (client_fresh entry) (arc_start start) S"
  shows "strong (shared S) =
    of_bool (root (shared S)) + card (indices handle (tasks S)) + wsum (\<lambda>c. refs (oper c)) (tasks S)"
proof -
  have "totals (arc_wt refs) (tasks S) () =
      card (indices handle (tasks S)) + wsum (\<lambda>c. refs (oper c)) (tasks S)"
    unfolding totals_def card_indices wsum_add [symmetric] by (rule wsum_cong) (simp add: arc_wt_def)
  with arc.reachable_good [OF assms] show ?thesis by (simp add: arc_good_def)
qed

text \<open>When the block is freed, no client uses it.\<close>

lemma freed:
  assumes reach: "reachable (arc_step stp refs over entry) (client_fresh entry) (arc_start start) S"
    and freed: "strong (shared S) = 0" and c: "c \<in> set (tasks S)"
  shows "\<not> root (shared S)" and "\<not> handle c" and "refs (oper c) = 0"
    and "over (oper c) \<or> entry (oper c)"
proof -
  from arc.reachable_good [OF reach] freed
  have zero: "totals (arc_wt refs) (tasks S) () = 0" and root: "\<not> root (shared S)"
    by (simp_all add: arc_good_def)
  show "\<not> root (shared S)" by (rule root)
  from c zero have "arc_wt refs () c = 0"
    using totals_pos_iff [of "arc_wt refs" "tasks S" "()"] by auto
  then show "\<not> handle c" and "refs (oper c) = 0" by (simp_all add: arc_wt_def)
  with arc.reachable_wf_all [OF reach c] show "over (oper c) \<or> entry (oper c)"
    by (simp add: client_wf_def)
qed

end

subsection \<open>The primitive inside\<close>

locale arc_component = arc_clients stp refs over entry start
  for stp :: "'i \<Rightarrow> 's arc \<Rightarrow> 't \<Rightarrow> ('s arc \<times> 't) outcome"
    and refs :: "'t \<Rightarrow> nat"
    and over :: "'t \<Rightarrow> bool"
    and entry :: "'t \<Rightarrow> bool"
    and start :: "'s \<Rightarrow> bool" +
  fixes stp0 :: "'j \<Rightarrow> 's0 \<Rightarrow> 't0 \<Rightarrow> ('s0 \<times> 't0) outcome"
    and fresh0 :: "'t0 \<Rightarrow> bool"
    and start0 :: "'s0 \<Rightarrow> bool"
    and sp :: "'s \<Rightarrow> 's0"
    and tp :: "'t \<Rightarrow> 't0"
  assumes start_start0: "start x \<Longrightarrow> start0 (sp x)"
    and entry_fresh0: "entry t \<Longrightarrow> fresh0 (tp t)"
    and step_step0: "stp i s t = Next (s', t') \<Longrightarrow>
      sp (inner s') = sp (inner s) \<and> tp t' = tp t \<or>
      (\<exists>j. stp0 j (sp (inner s)) (tp t) = Next (sp (inner s'), tp t'))"

sublocale arc_component \<subseteq> comp: component_system "arc_step stp refs over entry" "client_fresh entry"
    "arc_start start" stp0 fresh0 start0 "\<lambda>s. sp (inner s)" "\<lambda>c. tp (oper c)"
proof
  show "arc_start start s \<Longrightarrow> start0 (sp (inner s))" for s
    by (simp add: arc_start_def start_start0)
  show "client_fresh entry c \<Longrightarrow> fresh0 (tp (oper c))" for c
    by (simp add: client_fresh_def entry_fresh0)
next
  fix i s c s' c'
  assume "arc_step stp refs over entry i s c = Next (s', c')"
  then show "sp (inner s') = sp (inner s) \<and> tp (oper c') = tp (oper c) \<or>
      (\<exists>j. stp0 j (sp (inner s)) (tp (oper c)) = Next (sp (inner s'), tp (oper c')))"
    by (cases rule: arc_step_cases) (auto dest: step_step0)
qed

text \<open>For evaluating a schedule.\<close>

lemmas arc_run_simps = arc_step_def client_fresh_def client_new_def

end
