(* ===== verification/Mutex_Arc.thy ===== *)
theory Mutex_Arc
  imports Mutex Arc_Clients
begin

text \<open>
  \<^verbatim>\<open>src/mutex.rs\<close>, the reference-counted variants: \<open>lock_arc\<close>, \<open>try_lock_arc\<close>, the future
  \<open>LockArc\<close> and the guard \<open>MutexGuardArc\<close>, beside the borrowed operations, on one mutex in an
  \<open>Arc\<close>.

  A \<open>LockArc\<close> future owns an \<open>Arc\<close> from the call of \<open>lock_arc\<close> on. On the fast path the guard gets
  a clone of it, and then the future's own is dropped; on the slow path it moves into the guard.
  The lock itself moves by \<open>lock_step\<close>: \<open>AcquireSlow\<close> is generic in how it borrows the mutex.
\<close>

subsection \<open>Futures, calls and guards\<close>

text \<open>
  \<open>LockOp\<close>: a borrowed operation, with its guard. \<open>LockArcCall\<close>: \<open>lock_arc\<close> is about to clone.
  \<open>Unpolled\<close>, \<open>AcquireSlowArc\<close>: the two variants of \<open>LockArcInnards\<close>. \<open>LockArcPoll\<close>: the \<open>Arc\<close> has
  been taken out of \<open>Unpolled\<close> and \<open>try_lock_arc\<close> is about to run; \<open>LockArcWon\<close>: it has the lock and
  is about to clone; \<open>LockArcReturn\<close>: it has returned the guard, the local \<open>Arc\<close> is about to be
  dropped. \<open>TryLockArc\<close>, \<open>TryLockArcWon\<close>: a direct call. \<open>ReleaseMutex\<close>: the lock has been
  released, or the future cancelled, and the \<open>Arc\<close> is about to be dropped.
\<close>

datatype 'l mutex_task =
    LockOp "'l lock"
  | LockArcCall
  | Unpolled
  | LockArcPoll
  | LockArcWon
  | LockArcReturn
  | AcquireSlowArc "'l lock"
  | TryLockArc
  | TryLockArcWon
  | MutexGuardArc "'l lock"
  | ReleaseMutex "'l option"

definition mutex_lock :: "'l mutex_task" where
  "mutex_lock = LockOp LNew"

definition mutex_try_lock :: "'l mutex_task" where
  "mutex_try_lock = LockOp LTryLock"

definition mutex_lock_arc :: "'l mutex_task" where
  "mutex_lock_arc = LockArcCall"

definition mutex_try_lock_arc :: "'l mutex_task" where
  "mutex_try_lock_arc = TryLockArc"

subsection \<open>What an action on the lock leads to\<close>

text \<open>\<open>LockArcInnards::poll_with_strategy\<close>: the entry, the fast path, the slow path.\<close>

definition unpolled_next :: "'l lock \<Rightarrow> 'l mutex_task" where
  "unpolled_next l = (case l of LTry \<Rightarrow> LockArcPoll | LDone lo \<Rightarrow> ReleaseMutex lo | _ \<Rightarrow> AcquireSlowArc l)"

definition lock_arc_fast :: "'l lock \<Rightarrow> 'l mutex_task" where
  "lock_arc_fast l = (case l of LHeld lo \<Rightarrow> LockArcWon | _ \<Rightarrow> AcquireSlowArc l)"

definition lock_arc_slow :: "'l lock \<Rightarrow> 'l mutex_task" where
  "lock_arc_slow l = (case l of
     LHeld lo \<Rightarrow> MutexGuardArc l | LDone lo \<Rightarrow> ReleaseMutex lo | _ \<Rightarrow> AcquireSlowArc l)"

definition try_lock_arc :: "'l lock \<Rightarrow> 'l mutex_task" where
  "try_lock_arc l = (case l of LHeld lo \<Rightarrow> TryLockArcWon | _ \<Rightarrow> LockOp l)"

definition mutex_guard_arc_drop :: "'l lock \<Rightarrow> 'l mutex_task" where
  "mutex_guard_arc_drop l = (case l of LDone lo \<Rightarrow> ReleaseMutex lo | _ \<Rightarrow> MutexGuardArc l)"

definition release_rest :: "'l lock \<Rightarrow> 'l mutex_task" where
  "release_rest l = (case l of LDone lo \<Rightarrow> ReleaseMutex lo | _ \<Rightarrow> AcquireSlowArc l)"

subsection \<open>The step of an operation\<close>

datatype 'a mutex_in = OnLock "'a lock_in" | MutexArcRun

definition on_lock ::
    "('e, 'l) event_ops \<Rightarrow> 'a lock_in \<Rightarrow> ('e, 'a) mutex arc \<Rightarrow> 'l lock \<Rightarrow> ('l lock \<Rightarrow> 'l mutex_task) \<Rightarrow>
     (('e, 'a) mutex arc \<times> 'l mutex_task) outcome" where
  "on_lock ev j s l f =
     map_outcome (\<lambda>(m, l'). (s\<lparr>inner := m\<rparr>, f l')) (lock_step ev j (inner s) l)"

definition lock_action ::
    "('e, 'l) event_ops \<Rightarrow> 'a lock_in \<Rightarrow> ('e, 'a) mutex arc \<Rightarrow> 'l mutex_task \<Rightarrow>
     (('e, 'a) mutex arc \<times> 'l mutex_task) outcome" where
  "lock_action ev j s t = (case t of
     LockOp l \<Rightarrow> on_lock ev j s l LockOp
   | Unpolled \<Rightarrow> on_lock ev j s LNew unpolled_next
   | LockArcPoll \<Rightarrow> on_lock ev j s LTry lock_arc_fast
   | AcquireSlowArc l \<Rightarrow> on_lock ev j s l lock_arc_slow
   | TryLockArc \<Rightarrow> on_lock ev j s LTryLock try_lock_arc
   | MutexGuardArc l \<Rightarrow> on_lock ev j s l mutex_guard_arc_drop
   | ReleaseMutex lo \<Rightarrow> on_lock ev j s (LDone lo) release_rest
   | _ \<Rightarrow> Disabled)"

text \<open>The clones and drops of the \<open>Arc\<close>.\<close>

definition mutex_arc_run ::
    "('e, 'a) mutex arc \<Rightarrow> 'l mutex_task \<Rightarrow> (('e, 'a) mutex arc \<times> 'l mutex_task) outcome" where
  "mutex_arc_run s t = (case t of
     LockArcCall \<Rightarrow> Next (arc_clone s, Unpolled)
   | LockArcWon \<Rightarrow> Next (arc_clone s, LockArcReturn)
   | LockArcReturn \<Rightarrow> Next (arc_drop s, MutexGuardArc (LHeld None))
   | TryLockArcWon \<Rightarrow> Next (arc_clone s, MutexGuardArc (LHeld None))
   | ReleaseMutex lo \<Rightarrow> Next (arc_drop s, LockOp (LDone lo))
   | _ \<Rightarrow> Disabled)"

definition mutex_task_step ::
    "('e, 'l) event_ops \<Rightarrow> 'a mutex_in \<Rightarrow> ('e, 'a) mutex arc \<Rightarrow> 'l mutex_task \<Rightarrow>
     (('e, 'a) mutex arc \<times> 'l mutex_task) outcome" where
  "mutex_task_step ev i s t = (case i of
     OnLock j \<Rightarrow> lock_action ev j s t
   | MutexArcRun \<Rightarrow> mutex_arc_run s t)"

text \<open>\<open>Deref\<close> and \<open>DerefMut\<close> of the owned guard go through the \<open>Arc\<close>.\<close>

definition mutex_guard_arc_deref :: "('e, 'a) mutex arc \<Rightarrow> 'a" where
  [simp]: "mutex_guard_arc_deref s = mdata (inner s)"

definition mutex_guard_arc_deref_mut :: "'a \<Rightarrow> ('e, 'a) mutex arc \<Rightarrow> ('e, 'a) mutex arc" where
  [simp]: "mutex_guard_arc_deref_mut v s = s\<lparr>inner := (inner s)\<lparr>mdata := v\<rparr>\<rparr>"

text \<open>How many clones of the \<open>Arc\<close> an operation owns.\<close>

definition mutex_refs :: "'l mutex_task \<Rightarrow> nat" where
  "mutex_refs t = (case t of
     LockOp l \<Rightarrow> 0 | LockArcCall \<Rightarrow> 0 | TryLockArc \<Rightarrow> 0 | TryLockArcWon \<Rightarrow> 0
   | LockArcReturn \<Rightarrow> 2 | _ \<Rightarrow> 1)"

definition mutex_over :: "'l mutex_task \<Rightarrow> bool" where
  "mutex_over t = (case t of LockOp l \<Rightarrow> (case l of LDone lo \<Rightarrow> True | _ \<Rightarrow> False) | _ \<Rightarrow> False)"

definition mutex_entry :: "'l mutex_task \<Rightarrow> bool" where
  "mutex_entry t \<longleftrightarrow> t = mutex_lock \<or> t = mutex_try_lock \<or> t = mutex_lock_arc \<or> t = mutex_try_lock_arc"

definition mutex_made :: "('e \<Rightarrow> bool) \<Rightarrow> ('e, 'a) mutex \<Rightarrow> bool" where
  "mutex_made new_event m \<longleftrightarrow> (\<exists>e v. new_event e \<and> m = mutex_new e v)"

abbreviation mutex_step ::
    "('e, 'l) event_ops \<Rightarrow> 'a mutex_in arc_in \<Rightarrow> ('e, 'a) mutex arc \<Rightarrow> 'l mutex_task client \<Rightarrow>
     (('e, 'a) mutex arc \<times> 'l mutex_task client) outcome" where
  "mutex_step ev \<equiv> arc_step (mutex_task_step ev) mutex_refs mutex_over mutex_entry"

end
