(* ===== verification/Mutex_Arc_Props.thy ===== *)
theory Mutex_Arc_Props
  imports Mutex_Arc Mutex_Safety
begin

text \<open>
  The mutex with all its guards, borrowed and reference-counted: the value is protected by the
  guard, and the mutex is freed only when it is unlocked.
\<close>

subsection \<open>The lock inside\<close>

definition lock_of :: "'l mutex_task \<Rightarrow> 'l lock" where
  "lock_of t = (case t of
     LockOp l \<Rightarrow> l | LockArcCall \<Rightarrow> LNew | Unpolled \<Rightarrow> LNew | LockArcPoll \<Rightarrow> LTry
   | LockArcWon \<Rightarrow> LHeld None | LockArcReturn \<Rightarrow> LHeld None | AcquireSlowArc l \<Rightarrow> l
   | TryLockArc \<Rightarrow> LTryLock | TryLockArcWon \<Rightarrow> LHeld None | MutexGuardArc l \<Rightarrow> l
   | ReleaseMutex lo \<Rightarrow> LDone lo)"

lemma lock_of_simps [simp]:
  "lock_of (LockOp l) = l" "lock_of LockArcCall = LNew" "lock_of Unpolled = LNew"
  "lock_of LockArcPoll = LTry" "lock_of LockArcWon = LHeld None" "lock_of LockArcReturn = LHeld None"
  "lock_of (AcquireSlowArc l) = l" "lock_of TryLockArc = LTryLock" "lock_of TryLockArcWon = LHeld None"
  "lock_of (MutexGuardArc l) = l" "lock_of (ReleaseMutex lo) = LDone lo"
  by (simp_all add: lock_of_def)

lemma mutex_refs_simps [simp]:
  "mutex_refs (LockOp l) = 0" "mutex_refs LockArcCall = 0" "mutex_refs Unpolled = 1"
  "mutex_refs LockArcPoll = 1" "mutex_refs LockArcWon = 1" "mutex_refs LockArcReturn = 2"
  "mutex_refs (AcquireSlowArc l) = 1" "mutex_refs TryLockArc = 0" "mutex_refs TryLockArcWon = 0"
  "mutex_refs (MutexGuardArc l) = 1" "mutex_refs (ReleaseMutex lo) = 1"
  by (simp_all add: mutex_refs_def)

lemmas lock_next_defs = unpolled_next_def lock_arc_fast_def lock_arc_slow_def try_lock_arc_def
  mutex_guard_arc_drop_def release_rest_def

lemma lock_of_next [simp]:
  "lock_of (unpolled_next l) = l" "lock_of (lock_arc_slow l) = l" "lock_of (mutex_guard_arc_drop l) = l"
  "lock_of (release_rest l) = l"
  by (simp_all add: lock_next_defs split: lock.split)

lemma on_lock_Next:
  "on_lock ev j s l f = Next (s', t') \<longleftrightarrow>
     (\<exists>m l'. lock_step ev j (inner s) l = Next (m, l') \<and> s' = s\<lparr>inner := m\<rparr> \<and> t' = f l')"
  by (auto simp: on_lock_def map_outcome_Next_iff)

text \<open>The fast paths have no listener, so the lock operation is known from the struct.\<close>

lemma try_steps:
  "lock_step ev j m LTry = Next (m', l') \<Longrightarrow> lock_of (lock_arc_fast l') = l'"
  "lock_step ev j m LTryLock = Next (m', l') \<Longrightarrow> lock_of (try_lock_arc l') = l'"
  by (auto simp: lock_step_def try_lock_eq lock_next_defs slow_enter_def hot_top_def
      fair_top_def Let_def split: lock_in.splits if_splits)

lemma lock_action_step:
  assumes "lock_action ev j s t = Next (s', t')"
  shows "lock_step ev j (inner s) (lock_of t) = Next (inner s', lock_of t')"
    and "strong s' = strong s" "root s' = root s"
  using assms by (auto simp: lock_action_def on_lock_Next try_steps split: mutex_task.splits)

lemma mutex_arc_run_step:
  assumes "mutex_arc_run s t = Next (s', t')"
  shows "inner s' = inner s" "lock_of t' = lock_of t" "root s' = root s"
  using assms by (auto simp: mutex_arc_run_def split: mutex_task.splits)

lemma mutex_task_lock:
  assumes "mutex_task_step ev i s t = Next (s', t')"
  shows "inner s' = inner s \<and> lock_of t' = lock_of t \<or>
    (\<exists>j. lock_step ev j (inner s) (lock_of t) = Next (inner s', lock_of t'))"
  using assms
  by (auto simp: mutex_task_step_def dest: lock_action_step(1) mutex_arc_run_step split: mutex_in.splits)

subsection \<open>The reference count\<close>

lemma done_lock_step: "lock_step ev j m (LDone lo) = Next (m', l') \<Longrightarrow> \<exists>lo'. l' = LDone lo'"
  by (auto simp: lock_step_def drop_listener_def split: lock_in.splits option.splits)

lemma new_lock_step: "lock_step ev j m LNew = Next (m', l') \<Longrightarrow> l' = LTry \<or> l' = LDone None"
  by (auto simp: lock_step_def split: lock_in.splits)

lemma lock_action_refs:
  assumes "lock_action ev j s t = Next (s', t')"
  shows "mutex_refs t' = mutex_refs t"
  using assms
  by (cases t)
     (auto simp: lock_action_def on_lock_Next lock_next_defs split: lock.split)

lemma mutex_over_iff: "mutex_over t \<longleftrightarrow> (\<exists>lo. t = LockOp (LDone lo))"
  by (auto simp: mutex_over_def split: mutex_task.splits lock.splits)

lemma lock_action_over:
  "lock_action ev j s t = Next (s', t') \<Longrightarrow> mutex_over t \<Longrightarrow> mutex_over t'"
  by (auto simp: lock_action_def on_lock_Next mutex_over_iff dest!: done_lock_step)

interpretation mta: arc_component "mutex_task_step ev" mutex_refs mutex_over mutex_entry
    "mutex_made new_event" "lock_step ev" lock_fresh "mutex_start new_event" "\<lambda>m. m" lock_of
  for ev :: "('e, 'l) event_ops" and new_event
proof
  show "mutex_entry t \<Longrightarrow> mutex_refs t = 0" for t :: "'l mutex_task"
    by (auto simp: mutex_entry_def mutex_lock_def mutex_try_lock_def mutex_lock_arc_def
        mutex_try_lock_arc_def)
  show "mutex_entry t \<Longrightarrow> lock_fresh (lock_of t)" for t :: "'l mutex_task"
    by (auto simp: mutex_entry_def mutex_lock_def mutex_try_lock_def mutex_lock_arc_def
        mutex_try_lock_arc_def lock_fresh_def)
  show "mutex_made new_event m \<Longrightarrow> mutex_start new_event m" for m :: "('e, 'a) mutex"
    by (auto simp: mutex_made_def mutex_start_def mutex_new_def)
next
  fix i and s s' :: "('e, 'a) mutex arc" and t t'
  assume step: "mutex_task_step ev i s t = Next (s', t')"
  from step show "root s' = root s"
    by (auto simp: mutex_task_step_def dest: lock_action_step(3) mutex_arc_run_step(3)
        split: mutex_in.splits)
  from step show "inner s' = inner s \<and> lock_of t' = lock_of t \<or>
      (\<exists>j. lock_step ev j (inner s) (lock_of t) = Next (inner s', lock_of t'))"
    by (rule mutex_task_lock)
  from step show "mutex_refs t \<le> strong s \<Longrightarrow> strong s' + mutex_refs t = strong s + mutex_refs t'"
    by (auto simp: mutex_task_step_def mutex_arc_run_def lock_action_refs lock_action_step(2)
        split: mutex_in.splits mutex_task.splits)
  from step show "mutex_over t \<or> 0 < mutex_refs t \<and> mutex_refs t' = 0 \<Longrightarrow> mutex_over t'"
    by (auto simp: mutex_task_step_def mutex_arc_run_def mutex_over_iff
        dest: lock_action_refs lock_action_over split: mutex_in.splits mutex_task.splits)
qed

abbreviation mta_reachable ::
    "('e, 'l) event_ops \<Rightarrow> ('e \<Rightarrow> bool) \<Rightarrow> (('e, 'a) mutex arc, 'l mutex_task client) sys \<Rightarrow> bool" where
  "mta_reachable ev new_event \<equiv>
     reachable (mutex_step ev) (client_fresh mutex_entry) (arc_start (mutex_made new_event))"

subsection \<open>Concrete runs\<close>

lemmas mta_run_simps = arc_run_simps mutex_run_simps mutex_task_step_def lock_action_def on_lock_def
  mutex_arc_run_def arc_clone_def arc_drop_def mutex_over_iff mutex_entry_def mutex_lock_def
  mutex_try_lock_def mutex_lock_arc_def mutex_try_lock_arc_def lock_next_defs

definition demo_mutex_arc :: "(qevent, nat) mutex arc" where
  "demo_mutex_arc = \<lparr>inner = mutex_new [] 7, strong = 1, root = True\<rparr>"

lemma demo_mutex_arc_start: "arc_start (mutex_made (fresh_event queue_view)) demo_mutex_arc"
  by (auto simp: arc_start_def mutex_made_def demo_mutex_arc_def fresh_event_def queue_view_def
      intro: exI [of _ "[]"])

abbreviation run_mutex :: "nat \<Rightarrow> (nat mutex_in arc_in, nat mutex_task client) sched" where
  "run_mutex k \<equiv> Act k (Do (OnLock (Run 0)))"

text \<open>
  Client 0 has a \<open>MutexGuardArc\<close> from the fast path, client 1 a \<open>LockArc\<close> that waits on the slow
  path. All handles are dropped; the guard and the future keep the mutex alive.
\<close>

definition demo_arc_wait :: "((qevent, nat) mutex arc, nat mutex_task client) sys" where
  "demo_arc_wait =
     \<lparr>shared = \<lparr>inner = \<lparr>mstate = 1, lock_ops = [Some False], mdata = 7\<rparr>, strong = 2, root = False\<rparr>,
      tasks = [\<lparr>handle = False, oper = MutexGuardArc (LHeld None)\<rparr>,
        \<lparr>handle = False, oper = AcquireSlowArc (LSlow
           \<lparr>sl_mutex = True, sl_listener = Some 0, sl_start = Some 0, sl_starved = False\<rparr>)\<rparr>]\<rparr>"

lemma demo_arc_wait_run:
  "exec (mutex_step queue_events) (client_fresh mutex_entry)
     [Spawn (client_new mutex_lock_arc), Act 0 GetHandle, Act 0 (Do MutexArcRun), Act 0 DropHandle,
      Act 0 (Do (OnLock (Poll 0))), run_mutex 0, Act 0 (Do MutexArcRun), Act 0 (Do MutexArcRun),
      Spawn (client_new mutex_lock_arc), Act 1 GetHandle, Act 1 (Do MutexArcRun), Act 1 DropHandle,
      Act 1 (Do (OnLock (Poll 0))), run_mutex 1, run_mutex 1, run_mutex 1, run_mutex 1, Act 1 DropRoot]
     \<lparr>shared = demo_mutex_arc, tasks = []\<rparr> = Next demo_arc_wait"
  by (simp add: mta_run_simps demo_mutex_arc_def demo_arc_wait_def)

lemma demo_arc_wait_reachable: "mta_reachable queue_events (fresh_event queue_view) demo_arc_wait"
  by (rule exec_reachable_init [where start = "arc_start (mutex_made (fresh_event queue_view))",
      OF demo_mutex_arc_start demo_arc_wait_run])

text \<open>The guard is dropped, the future gets the lock, and its guard is dropped: the mutex is freed.\<close>

definition demo_arc_gone :: "((qevent, nat) mutex arc, nat mutex_task client) sys" where
  "demo_arc_gone =
     \<lparr>shared = \<lparr>inner = \<lparr>mstate = 0, lock_ops = [None], mdata = 7\<rparr>, strong = 0, root = False\<rparr>,
      tasks = [\<lparr>handle = False, oper = LockOp (LDone None)\<rparr>, \<lparr>handle = False, oper = LockOp (LDone None)\<rparr>]\<rparr>"

lemma demo_arc_gone_run:
  "exec (mutex_step queue_events) (client_fresh mutex_entry)
     [Act 0 (Do (OnLock Unlock)), run_mutex 0, Act 0 (Do MutexArcRun),
      Act 1 (Do (OnLock (Poll 0))), run_mutex 1, run_mutex 1,
      Act 1 (Do (OnLock Unlock)), run_mutex 1, Act 1 (Do MutexArcRun)]
     demo_arc_wait = Next demo_arc_gone"
  by (simp add: mta_run_simps demo_arc_wait_def demo_arc_gone_def)

lemma demo_arc_gone_reachable: "mta_reachable queue_events (fresh_event queue_view) demo_arc_gone"
  by (rule exec_reachable [OF demo_arc_gone_run demo_arc_wait_reachable])

subsection \<open>Properties\<close>

definition has_guard :: "'l mutex_task client \<Rightarrow> bool" where
  "has_guard c \<longleftrightarrow> (\<exists>lo. lock_of (oper c) = LHeld lo)"

lemma guard_unique:
  assumes reach: "mta_reachable ev new_event S" and jk: "j < length (tasks S)" "k < length (tasks S)"
    and guards: "has_guard (tasks S ! j)" "has_guard (tasks S ! k)"
  shows "j = k"
proof -
  let ?ts = "map (\<lambda>c. lock_of (oper c)) (tasks S)"
  have "totals lock_wt ?ts KOwner \<le> 1"
    using mutex_owners_counts [OF mta.comp.reachable_inv [OF reach]] by simp
  from totals_unique [OF this, of j k] jk guards show ?thesis
    by (auto simp: has_guard_def lock_wt_def lock_owner_def)
qed

lemma mutex_step_data:
  assumes "mutex_step ev i s c = Next (s', c')" and "mdata (inner s') \<noteq> mdata (inner s)"
  shows "has_guard c"
  using assms
  by (cases rule: arc_step_cases)
     (auto simp: has_guard_def dest!: mutex_task_lock lock_step_data)

text \<open>
  C1: a guard, \<open>MutexGuard\<close> or \<open>MutexGuardArc\<close>, protects the value. In every reachable state, while
  client \<open>k\<close> has a guard, no action of another client changes the value or gets a guard of either
  kind, by \<open>lock\<close>, \<open>try_lock\<close>, \<open>lock_arc\<close> or \<open>try_lock_arc\<close>.
\<close>

theorem mutex_guard_protects:
  assumes "mta_reachable ev new_event S" and "k < length (tasks S)" and "has_guard (tasks S ! k)"
    and "j < length (tasks S)" and "j \<noteq> k"
    and "mutex_step ev i (shared S) (tasks S ! j) = Next (s', c')"
  shows "mdata (inner s') = mdata (inner (shared S)) \<and> \<not> has_guard c'"
proof
  show "mdata (inner s') = mdata (inner (shared S))"
    using mutex_step_data [OF assms(6)] guard_unique [OF assms(1,4,2) _ assms(3)] assms(5) by blast
  have "mta_reachable ev new_event \<lparr>shared = s', tasks = (tasks S)[j := c']\<rparr>"
    by (rule reachable.step [OF assms(1) sys_step.act [where stp = "mutex_step ev", OF assms(4,6)]])
  from guard_unique [OF this, of j k] assms(2-5) show "\<not> has_guard c'" by auto
qed

theorem mutex_guard_protects_witness:
  "\<exists>s' c'. mutex_step queue_events (Do (OnLock (Poll 3))) (shared demo_arc_wait) (tasks demo_arc_wait ! 1) =
     Next (s', c') \<and> mdata (inner s') = 7 \<and> \<not> has_guard c'"
proof -
  have step: "mutex_step queue_events (Do (OnLock (Poll 3))) (shared demo_arc_wait) (tasks demo_arc_wait ! 1) =
      Next (shared demo_arc_wait, \<lparr>handle = False, oper = AcquireSlowArc (LHot HotWait
           \<lparr>sl_mutex = True, sl_listener = Some 0, sl_start = Some 0, sl_starved = False\<rparr>)\<rparr>)"
    by (simp add: mta_run_simps demo_arc_wait_def)
  have "has_guard (tasks demo_arc_wait ! 0)" by (simp add: has_guard_def demo_arc_wait_def)
  from mutex_guard_protects [OF demo_arc_wait_reachable _ this _ _ step] step show ?thesis
    by (simp add: demo_arc_wait_def)
qed

text \<open>
  C2: the mutex is freed only when it is unlocked. When the reference count is zero, no client has a
  guard or a running operation on it and the state word is zero: nobody owns it, nobody is starved.
  The count itself is exact: handles plus the clones that \<open>LockArc\<close> futures and owned guards have,
  through the fast path (where the guard has its own clone) and the slow path (where it moves).
\<close>

theorem mutex_arc_freed_unlocked:
  assumes "mta_reachable ev new_event S"
  shows "strong (shared S) = of_bool (root (shared S)) + card (indices handle (tasks S)) +
      wsum (\<lambda>c. mutex_refs (oper c)) (tasks S) \<and>
    (strong (shared S) = 0 \<longrightarrow> mstate (inner (shared S)) = 0 \<and> indices has_guard (tasks S) = {})"
proof (intro conjI [OF mta.strong_exact [OF assms]] impI)
  let ?ts = "map (\<lambda>c. lock_of (oper c)) (tasks S)"
  assume freed: "strong (shared S) = 0"
  have idle: "lock_wt key (lock_of (oper c)) = 0 \<and> \<not> has_guard c" if "c \<in> set (tasks S)" for c key
    using mta.freed(4) [OF assms freed that]
    by (cases key)
       (auto simp: mutex_over_iff mutex_entry_def mutex_lock_def mutex_try_lock_def mutex_lock_arc_def
         mutex_try_lock_arc_def lock_wt_def lock_owner_def lock_starved_def has_guard_def)
  then have "totals lock_wt ?ts key = 0" for key
    using totals_pos_iff [of lock_wt ?ts key] by auto
  with mtx.reachable_good [OF mta.comp.reachable_inv [OF assms]]
  have "mstate (inner (shared S)) = 0" by (simp add: mutex_good_def mutex_ok_def usize_eq_iff)
  with idle show "mstate (inner (shared S)) = 0 \<and> indices has_guard (tasks S) = {}"
    by (simp add: indices_empty_iff)
qed

theorem mutex_arc_freed_unlocked_witness:
  "mstate (inner (shared demo_arc_gone)) = 0 \<and> strong (shared demo_arc_wait) = 2"
proof -
  have "indices handle (tasks demo_arc_wait) = {}" by (simp add: indices_empty_iff demo_arc_wait_def)
  with mutex_arc_freed_unlocked [OF demo_arc_wait_reachable]
  have "strong (shared demo_arc_wait) = 2" by (simp add: demo_arc_wait_def)
  with mutex_arc_freed_unlocked [OF demo_arc_gone_reachable] show ?thesis
    by (simp add: demo_arc_gone_def)
qed

subsection \<open>Errors\<close>

text \<open>
  No action of a client panics: neither those of \<open>Lock\<close> and its guard, nor those of \<open>LockArc\<close>, whose
  first poll finds the \<open>Arc\<close> it takes out of \<open>Unpolled\<close>.
\<close>

lemma mutex_step_no_panic:
  assumes "mta_reachable ev new_event S" and "k < length (tasks S)"
  shows "mutex_step ev i (shared S) (tasks S ! k) \<noteq> Panic"
proof (rule arc_step_no_panic)
  from mtx.reachable_wf [OF mta.comp.reachable_inv [OF assms(1)], of k] assms(2)
  have "lock_wf (lock_of (oper (tasks S ! k)))" by simp
  from lock_step_no_panic [OF this, of ev _ "inner (shared S)"]
  show "mutex_task_step ev j (shared S) (oper (tasks S ! k)) \<noteq> Panic" for j
    by (cases "oper (tasks S ! k)")
       (auto simp: mutex_task_step_def lock_action_def mutex_arc_run_def on_lock_def split: mutex_in.split)
qed

end
