(* ===== verification/Semaphore.thy ===== *)
theory Semaphore
  imports Interleaving Event_Queue
begin

text \<open>
  \<^verbatim>\<open>src/semaphore.rs\<close>: the semaphore.

  \<open>try_load\<close> and \<open>try_cas\<close> are the accesses of the loop of \<open>try_acquire\<close>; a task is a direct call
  of \<open>try_acquire\<close>, an \<open>Acquire\<close> future with its guard, or a call of \<open>add_permits\<close>, and
  \<open>sem_step\<close> performs its next access. \<open>try_acquire_alone\<close> is the loop run without interference.

  The weak compare-exchange may fail spuriously; whether it does is an input of the step.
\<close>

subsection \<open>The semaphore and its non-blocking operations\<close>

record 'e semaphore =
  scount :: usize
  sevent :: 'e

definition semaphore_new :: "usize \<Rightarrow> 'e \<Rightarrow> 'e semaphore" where
  "semaphore_new n e = \<lparr>scount = n, sevent = e\<rparr>"

definition available_permits :: "'e semaphore \<Rightarrow> usize" where
  "available_permits s = scount s"

text \<open>
  Where the loop of \<open>try_acquire\<close> is after an access: it has returned a guard, it has returned
  \<open>None\<close>, or it is about to compare-exchange with its local \<open>count\<close>.
\<close>

datatype try_acq = Acquired | Refused | Retry usize

definition loop_head :: "usize \<Rightarrow> try_acq" where
  "loop_head c = (if c = 0 then Refused else Retry c)"

definition try_load :: "'e semaphore \<Rightarrow> try_acq" where
  "try_load s = loop_head (scount s)"

definition try_cas :: "bool \<Rightarrow> usize \<Rightarrow> 'e semaphore \<Rightarrow> try_acq \<times> 'e semaphore" where
  "try_cas spurious c s =
     (let (r, x) = compare_exchange_weak spurious (scount s) c (c - 1) in
      (case r of Inr _ \<Rightarrow> Acquired | Inl c' \<Rightarrow> loop_head c', s\<lparr>scount := x\<rparr>))"

text \<open>
  The whole loop when nobody else touches the semaphore. The list says which compare-exchanges
  fail spuriously; after its end none does.
\<close>

fun try_acquire_loop :: "bool list \<Rightarrow> try_acq \<Rightarrow> 'e semaphore \<Rightarrow> bool \<times> 'e semaphore" where
  "try_acquire_loop fs Acquired s = (True, s)"
| "try_acquire_loop fs Refused s = (False, s)"
| "try_acquire_loop [] (Retry c) s =
     (case try_cas False c s of (p, s') \<Rightarrow> (p = Acquired, s'))"
| "try_acquire_loop (f # fs) (Retry c) s =
     (case try_cas f c s of (p, s') \<Rightarrow> try_acquire_loop fs p s')"

definition try_acquire_alone :: "bool list \<Rightarrow> 'e semaphore \<Rightarrow> bool \<times> 'e semaphore" where
  "try_acquire_alone fs s = try_acquire_loop fs (try_load s) s"

text \<open>Dropping a guard, and \<open>add_permits\<close>: first the counter, then the event.\<close>

definition release_add :: "'e semaphore \<Rightarrow> 'e semaphore" where
  "release_add s = s\<lparr>scount := snd (fetch_add (scount s) 1)\<rparr>"

definition release_notify :: "('e, 'l) event_ops \<Rightarrow> 'e semaphore \<Rightarrow> 'e semaphore" where
  "release_notify ev s = s\<lparr>sevent := ev_notify ev 1 (sevent s)\<rparr>"

definition permits_add :: "usize \<Rightarrow> 'e semaphore \<Rightarrow> 'e semaphore" where
  "permits_add n s = s\<lparr>scount := snd (fetch_add (scount s) n)\<rparr>"

definition permits_notify :: "('e, 'l) event_ops \<Rightarrow> usize \<Rightarrow> 'e semaphore \<Rightarrow> 'e semaphore" where
  "permits_notify ev n s = s\<lparr>sevent := ev_notify ev n (sevent s)\<rparr>"

subsection \<open>Tasks\<close>

text \<open>
  A direct call of \<open>try_acquire\<close> (\<open>STry\<close>, \<open>STryCas\<close>). An \<open>Acquire\<close> future: not yet polled; in
  \<open>try_acquire\<close> before the load, or before the compare-exchange, with the listener it owns; about
  to listen; about to poll its listener; suspended. A guard, the second action of dropping it, a
  forgotten guard. A call of \<open>add_permits\<close>, before each of its actions and afterwards. A finished
  task. The options are the listener that the future still owns.
\<close>

datatype 'l acquire =
    SNew
  | STry
  | STryCas usize
  | SLoad "'l option"
  | SCas usize "'l option"
  | SListen
  | SWait 'l
  | SSleep 'l
  | SHeld "'l option"
  | SRelease "'l option"
  | SForgot "'l option"
  | SAdd usize
  | SAddNotify usize
  | SAdded usize
  | SDone "'l option"

text \<open>
  What happens next with a task: its future is polled; its running call goes on (and a weak
  compare-exchange fails spuriously or not); the suspended future is dropped; the guard is
  dropped; the guard is forgotten; the completed future is dropped.
\<close>

datatype sem_in = SPoll | SRun bool | SCancel | SDrop | SForget | SDropFut

text \<open>\<open>acquire()\<close> makes a future without a listener; \<open>forget()\<close> drops the guard and nothing else.\<close>

definition acquire_future :: "'l acquire" where
  "acquire_future = SNew"

definition guard_forget :: "'e semaphore \<Rightarrow> 'l option \<Rightarrow> 'e semaphore \<times> 'l acquire" where
  "guard_forget s lo = (s, SForgot lo)"

text \<open>\<open>AcquireInner::poll_with_strategy\<close>, after \<open>try_acquire\<close> has got to \<open>p\<close>.\<close>

definition acquire_next :: "try_acq \<Rightarrow> 'l option \<Rightarrow> 'l acquire" where
  "acquire_next p lo = (case p of
     Acquired \<Rightarrow> SHeld lo
   | Retry c \<Rightarrow> SCas c lo
   | Refused \<Rightarrow> (case lo of None \<Rightarrow> SListen | Some l \<Rightarrow> SWait l))"

definition try_next :: "try_acq \<Rightarrow> 'l acquire" where
  "try_next p = (case p of Acquired \<Rightarrow> SHeld None | Retry c \<Rightarrow> STryCas c | Refused \<Rightarrow> SDone None)"

definition sem_drop_listener ::
    "('e, 'l) event_ops \<Rightarrow> 'e semaphore \<Rightarrow> 'l option \<Rightarrow> ('l option \<Rightarrow> 'l acquire) \<Rightarrow>
     ('e semaphore \<times> 'l acquire) outcome" where
  "sem_drop_listener ev s lo C = (case lo of
     None \<Rightarrow> Disabled
   | Some l \<Rightarrow> Next (s\<lparr>sevent := ev_drop ev l (sevent s)\<rparr>, C None))"

definition sem_step ::
    "('e, 'l) event_ops \<Rightarrow> sem_in \<Rightarrow> 'e semaphore \<Rightarrow> 'l acquire \<Rightarrow>
     ('e semaphore \<times> 'l acquire) outcome" where
  "sem_step ev i s t = (case t of
     SNew \<Rightarrow> (case i of
         SPoll \<Rightarrow> Next (s, SLoad None)
       | SCancel \<Rightarrow> Next (s, SDone None)
       | _ \<Rightarrow> Disabled)
   | STry \<Rightarrow> (case i of SRun b \<Rightarrow> Next (s, try_next (try_load s)) | _ \<Rightarrow> Disabled)
   | STryCas c \<Rightarrow> (case i of
         SRun b \<Rightarrow> (case try_cas b c s of (p, s') \<Rightarrow> Next (s', try_next p))
       | _ \<Rightarrow> Disabled)
   | SLoad lo \<Rightarrow> (case i of SRun b \<Rightarrow> Next (s, acquire_next (try_load s) lo) | _ \<Rightarrow> Disabled)
   | SCas c lo \<Rightarrow> (case i of
         SRun b \<Rightarrow> (case try_cas b c s of (p, s') \<Rightarrow> Next (s', acquire_next p lo))
       | _ \<Rightarrow> Disabled)
   | SListen \<Rightarrow> (case i of
         SRun b \<Rightarrow>
           (let (l, e) = ev_listen ev (sevent s) in Next (s\<lparr>sevent := e\<rparr>, SLoad (Some l)))
       | _ \<Rightarrow> Disabled)
   | SWait l \<Rightarrow> (case i of
         SRun b \<Rightarrow>
           (let (ready, e) = ev_poll ev l (sevent s)
            in Next (s\<lparr>sevent := e\<rparr>, if ready then SLoad None else SSleep l))
       | _ \<Rightarrow> Disabled)
   | SSleep l \<Rightarrow> (case i of
         SPoll \<Rightarrow> Next (s, SLoad (Some l))
       | SCancel \<Rightarrow> Next (s, SDone (Some l))
       | _ \<Rightarrow> Disabled)
   | SHeld lo \<Rightarrow> (case i of
         SDrop \<Rightarrow> Next (release_add s, SRelease lo)
       | SForget \<Rightarrow> Next (guard_forget s lo)
       | SDropFut \<Rightarrow> sem_drop_listener ev s lo SHeld
       | _ \<Rightarrow> Disabled)
   | SRelease lo \<Rightarrow> (case i of
         SRun b \<Rightarrow> Next (release_notify ev s, SDone lo)
       | SDropFut \<Rightarrow> sem_drop_listener ev s lo SRelease
       | _ \<Rightarrow> Disabled)
   | SForgot lo \<Rightarrow> (case i of SDropFut \<Rightarrow> sem_drop_listener ev s lo SForgot | _ \<Rightarrow> Disabled)
   | SAdd n \<Rightarrow> (case i of SRun b \<Rightarrow> Next (permits_add n s, SAddNotify n) | _ \<Rightarrow> Disabled)
   | SAddNotify n \<Rightarrow> (case i of SRun b \<Rightarrow> Next (permits_notify ev n s, SAdded n) | _ \<Rightarrow> Disabled)
   | SAdded n \<Rightarrow> Disabled
   | SDone lo \<Rightarrow> (case i of SDropFut \<Rightarrow> sem_drop_listener ev s lo SDone | _ \<Rightarrow> Disabled))"

definition sem_fresh :: "'l acquire \<Rightarrow> bool" where
  "sem_fresh t = (t = acquire_future \<or> (case t of STry \<Rightarrow> True | SAdd n \<Rightarrow> True | _ \<Rightarrow> False))"

definition sem_start :: "('e \<Rightarrow> bool) \<Rightarrow> usize \<Rightarrow> 'e semaphore \<Rightarrow> bool" where
  "sem_start new_event n s \<longleftrightarrow> scount s = n \<and> new_event (sevent s)"

lemma try_cas_eq:
  "try_cas b c s =
     (if b \<or> scount s \<noteq> c then (loop_head (scount s), s) else (Acquired, s\<lparr>scount := c - 1\<rparr>))"
  by (simp add: try_cas_def atomic_defs)

lemmas sem_op_defs = acquire_future_def guard_forget_def try_cas_eq try_load_def loop_head_def acquire_next_def try_next_def
  sem_drop_listener_def release_add_def release_notify_def permits_add_def permits_notify_def
  fetch_add_def

subsection \<open>Counting permits\<close>

text \<open>
  \<open>sem_held\<close>: a permit is with this task. \<open>sem_forgot\<close>: its permit is lost. \<open>sem_added\<close>: the
  permits it has added.
\<close>

datatype sem_key = KHeld | KForgot | KAdded

definition sem_wt :: "sem_key \<Rightarrow> 'l acquire \<Rightarrow> nat" where
  "sem_wt k t = (case k of
     KHeld \<Rightarrow> (case t of SHeld lo \<Rightarrow> 1 | _ \<Rightarrow> 0)
   | KForgot \<Rightarrow> (case t of SForgot lo \<Rightarrow> 1 | _ \<Rightarrow> 0)
   | KAdded \<Rightarrow> (case t of SAddNotify n \<Rightarrow> unat n | SAdded n \<Rightarrow> unat n | _ \<Rightarrow> 0))"

text \<open>In the local variable of a running \<open>try_acquire\<close> there is never a zero.\<close>

definition sem_wf :: "'l acquire \<Rightarrow> bool" where
  "sem_wf t = (case t of STryCas c \<Rightarrow> c \<noteq> 0 | SCas c lo \<Rightarrow> c \<noteq> 0 | _ \<Rightarrow> True)"

definition sem_good :: "usize \<Rightarrow> 'e semaphore \<Rightarrow> (sem_key \<Rightarrow> nat) \<Rightarrow> bool" where
  "sem_good n s c \<longleftrightarrow>
     scount s + of_nat (c KHeld + c KForgot) = n + of_nat (c KAdded) \<and>
     (unat n + c KAdded < 2 ^ 64 \<longrightarrow>
        unat (scount s) + c KHeld + c KForgot = unat n + c KAdded)"

lemma sem_step_wf: "sem_step ev i s t = Next (s', t') \<Longrightarrow> sem_wf t \<Longrightarrow> sem_wf t'"
  by (auto simp: sem_step_def sem_op_defs sem_wf_def Let_def
      split: acquire.splits sem_in.splits option.splits if_splits prod.splits)

text \<open>The effect of a step on the counter and on the contributions of its task.\<close>

lemma sem_step_counts:
  assumes "sem_step ev i s t = Next (s', t')" and "sem_wf t"
  shows "(scount s' = scount s \<and>
      sem_wt KHeld t' + sem_wt KForgot t' = sem_wt KHeld t + sem_wt KForgot t \<and>
      sem_wt KAdded t' = sem_wt KAdded t) \<or>
    (scount s \<noteq> 0 \<and> scount s' = scount s - 1 \<and> sem_wt KHeld t = 0 \<and> sem_wt KHeld t' = 1 \<and>
      sem_wt KForgot t' = sem_wt KForgot t \<and> sem_wt KAdded t' = sem_wt KAdded t) \<or>
    (scount s' = scount s + 1 \<and> sem_wt KHeld t = 1 \<and> sem_wt KHeld t' = 0 \<and>
      sem_wt KForgot t' = sem_wt KForgot t \<and> sem_wt KAdded t' = sem_wt KAdded t) \<or>
    (\<exists>n. scount s' = scount s + n \<and> sem_wt KHeld t' = sem_wt KHeld t \<and>
      sem_wt KForgot t' = sem_wt KForgot t \<and> sem_wt KAdded t = 0 \<and> sem_wt KAdded t' = unat n)"
  using assms
  by (auto simp: sem_step_def sem_op_defs sem_wf_def sem_wt_def Let_def
      split: acquire.splits sem_in.splits option.splits if_splits prod.splits)

lemma sem_step_good:
  assumes step: "sem_step ev i s t = Next (s', t')" and wf: "sem_wf t"
    and good: "sem_good n s c" and le: "\<And>k. sem_wt k t \<le> c k"
  shows "sem_good n s' (\<lambda>k. c k - sem_wt k t + sem_wt k t')"
proof -
  have le': "sem_wt KHeld t \<le> c KHeld" "sem_wt KForgot t \<le> c KForgot" "sem_wt KAdded t \<le> c KAdded"
    by (rule le)+
  from sem_step_counts [OF step wf] show ?thesis
  proof (elim disjE exE conjE)
    assume "scount s' = scount s"
      and "sem_wt KHeld t' + sem_wt KForgot t' = sem_wt KHeld t + sem_wt KForgot t"
      and "sem_wt KAdded t' = sem_wt KAdded t"
    moreover from this have "c KHeld - sem_wt KHeld t + sem_wt KHeld t' +
        (c KForgot - sem_wt KForgot t + sem_wt KForgot t') = c KHeld + c KForgot"
      using le' by simp
    ultimately show ?thesis using good le' unfolding sem_good_def add.assoc by simp
  next
    assume eqs: "scount s \<noteq> 0" "scount s' = scount s - 1" "sem_wt KHeld t = 0" "sem_wt KHeld t' = 1"
      "sem_wt KForgot t' = sem_wt KForgot t" "sem_wt KAdded t' = sem_wt KAdded t"
    have "unat (scount s') + 1 = unat (scount s)"
      using eqs(1,2) by (simp add: unat_minus_one unat_gt_0)
    with eqs good le' show ?thesis by (auto simp: sem_good_def)
  next
    assume eqs: "scount s' = scount s + 1" "sem_wt KHeld t = 1" "sem_wt KHeld t' = 0"
      "sem_wt KForgot t' = sem_wt KForgot t" "sem_wt KAdded t' = sem_wt KAdded t"
    have pos: "1 \<le> c KHeld" using le' eqs(2) by simp
    have word: "scount s' + of_nat (c KHeld - 1 + c KForgot) = n + of_nat (c KAdded)"
      using good pos eqs(1) by (simp add: sem_good_def of_nat_diff)
    have "unat (scount s') = unat (scount s) + 1" if "unat n + c KAdded < 2 ^ 64"
    proof -
      have "unat (scount s) + 1 < 2 ^ 64" using that good pos by (simp add: sem_good_def)
      then show ?thesis by (simp add: eqs(1) unat_add_no_wrap)
    qed
    with word eqs good le' pos show ?thesis by (simp add: sem_good_def)
  next
    fix m assume eqs: "scount s' = scount s + m" "sem_wt KHeld t' = sem_wt KHeld t"
      "sem_wt KForgot t' = sem_wt KForgot t" "sem_wt KAdded t = 0" "sem_wt KAdded t' = unat m"
    have word: "scount s' + of_nat (c KHeld + c KForgot) = n + of_nat (c KAdded + unat m)"
      using good eqs(1) by (simp add: sem_good_def algebra_simps)
    have "unat (scount s') = unat (scount s) + unat m" if "unat n + (c KAdded + unat m) < 2 ^ 64"
    proof -
      have "unat (scount s) + unat m < 2 ^ 64" using that good by (simp add: sem_good_def)
      then show ?thesis by (simp add: eqs(1) unat_add_no_wrap)
    qed
    with word eqs good le' show ?thesis by (auto simp: sem_good_def)
  qed
qed

interpretation sem: counting_system "sem_step ev" sem_fresh "sem_start new_event n" sem_wt sem_wf
    "sem_good n"
  for ev :: "('e, 'l) event_ops" and new_event and n :: usize
proof
  show "sem_start new_event n s \<Longrightarrow> sem_good n s (\<lambda>_. 0)" for s :: "'e semaphore"
    by (simp add: sem_start_def sem_good_def)
  show "sem_fresh t \<Longrightarrow> sem_wf t" for t :: "'l acquire"
    by (auto simp: sem_fresh_def acquire_future_def sem_wf_def split: acquire.splits)
  show "sem_fresh t \<Longrightarrow> sem_wt k t = 0" for t :: "'l acquire" and k
    by (auto simp: sem_fresh_def acquire_future_def sem_wt_def split: acquire.splits sem_key.splits)
qed (rule sem_step_wf sem_step_good; assumption)+

end
