(* ===== verification/Semaphore_Arc.thy ===== *)
theory Semaphore_Arc
  imports Semaphore Arc_Clients
begin

text \<open>
  \<^verbatim>\<open>src/semaphore.rs\<close>, the reference-counted variants: \<open>try_acquire_arc\<close>, \<open>acquire_arc\<close>, the
  future \<open>AcquireArc\<close> and the guard \<open>SemaphoreGuardArc\<close>, beside the borrowed operations, on one
  semaphore in an \<open>Arc\<close>.

  An \<open>AcquireArc\<close> future owns an \<open>Arc\<close> until it is dropped, also after it has returned its guard,
  which has a clone of its own. The count moves by \<open>sem_step\<close>: the loops of the two variants are
  the same.
\<close>

subsection \<open>Futures, calls and guards\<close>

text \<open>
  \<open>SemOp\<close>: a borrowed operation or \<open>add_permits\<close>, with its guard. \<open>TryAcquireArc\<close>: a call of
  \<open>try_acquire_arc\<close>, in its loop. \<open>AcquireArcCall\<close>: \<open>acquire_arc\<close> is about to clone the \<open>Arc\<close>.
  \<open>AcquireArc\<close>: the future. \<open>ArcPermit\<close>: \<open>try_acquire_arc\<close> has a permit and is about to clone.
  \<open>SemGuardArc\<close>: the guard, while it is alive or being dropped. \<open>DropSemArc\<close>: the guard's \<open>Arc\<close> is
  about to be dropped. \<open>GuardGone\<close>: it has been dropped. The first flag in the last four says that
  the completed future is still there, with its own \<open>Arc\<close>; the second, that the guard was forgotten.
\<close>

datatype 'l sem_task =
    SemOp "'l acquire"
  | TryAcquireArc "'l acquire"
  | AcquireArcCall
  | AcquireArc "'l acquire"
  | ArcPermit bool "'l option"
  | SemGuardArc bool "'l acquire"
  | DropSemArc bool bool "'l option"
  | GuardGone bool bool "'l option"

definition sem_acquire :: "'l sem_task" where
  "sem_acquire = SemOp acquire_future"

definition sem_try_acquire :: "'l sem_task" where
  "sem_try_acquire = SemOp STry"

definition sem_add_permits :: "usize \<Rightarrow> 'l sem_task" where
  "sem_add_permits n = SemOp (SAdd n)"

definition sem_acquire_arc :: "'l sem_task" where
  "sem_acquire_arc = AcquireArcCall"

definition sem_try_acquire_arc :: "'l sem_task" where
  "sem_try_acquire_arc = TryAcquireArc STry"

subsection \<open>What an action on the semaphore leads to\<close>

definition acquire_end :: "bool \<Rightarrow> 'l option \<Rightarrow> 'l acquire" where
  "acquire_end forgot lo = (if forgot then SForgot lo else SDone lo)"

text \<open>The loop of \<open>try_acquire_arc\<close>, and \<open>AcquireArcInner::poll_with_strategy\<close>, which calls it.\<close>

definition try_acquire_arc :: "'l acquire \<Rightarrow> 'l sem_task" where
  "try_acquire_arc t = (case t of
     SHeld lo \<Rightarrow> ArcPermit False lo | SDone lo \<Rightarrow> GuardGone False False lo | _ \<Rightarrow> TryAcquireArc t)"

definition acquire_arc_poll :: "'l acquire \<Rightarrow> 'l sem_task" where
  "acquire_arc_poll t = (case t of
     SHeld lo \<Rightarrow> ArcPermit True lo | SDone lo \<Rightarrow> GuardGone True False lo | _ \<Rightarrow> AcquireArc t)"

text \<open>\<open>SemaphoreGuardArc::drop\<close> and \<open>SemaphoreGuardArc::forget\<close>.\<close>

definition sem_guard_arc_drop :: "bool \<Rightarrow> 'l acquire \<Rightarrow> 'l sem_task" where
  "sem_guard_arc_drop fut t = (case t of SDone lo \<Rightarrow> DropSemArc fut False lo | _ \<Rightarrow> SemGuardArc fut t)"

definition sem_guard_arc_forget :: "bool \<Rightarrow> 'l acquire \<Rightarrow> 'l sem_task" where
  "sem_guard_arc_forget fut t = (case t of SForgot lo \<Rightarrow> DropSemArc fut True lo | _ \<Rightarrow> SemGuardArc fut t)"

text \<open>Afterwards only the listener of the future can still be dropped.\<close>

definition drop_sem_rest :: "bool \<Rightarrow> bool \<Rightarrow> 'l acquire \<Rightarrow> 'l sem_task" where
  "drop_sem_rest fut forgot t = (case t of
     SForgot lo \<Rightarrow> DropSemArc fut forgot lo | SDone lo \<Rightarrow> DropSemArc fut forgot lo | _ \<Rightarrow> SemGuardArc fut t)"

definition gone_rest :: "bool \<Rightarrow> bool \<Rightarrow> 'l acquire \<Rightarrow> 'l sem_task" where
  "gone_rest fut forgot t = (case t of
     SForgot lo \<Rightarrow> GuardGone fut forgot lo | SDone lo \<Rightarrow> GuardGone fut forgot lo | _ \<Rightarrow> SemGuardArc fut t)"

subsection \<open>The step of an operation\<close>

text \<open>
  An action on the semaphore; the clone or drop of the \<open>Arc\<close> that the running operation makes; the
  drop of the completed \<open>AcquireArc\<close> future, with its \<open>Arc\<close>.
\<close>

datatype sem_arc_in = OnSem sem_in | SemArcRun | DropAcquireArc

definition on_sem ::
    "('e, 'l) event_ops \<Rightarrow> sem_in \<Rightarrow> 'e semaphore arc \<Rightarrow> 'l acquire \<Rightarrow> ('l acquire \<Rightarrow> 'l sem_task) \<Rightarrow>
     ('e semaphore arc \<times> 'l sem_task) outcome" where
  "on_sem ev j s t f = map_outcome (\<lambda>(x, t'). (s\<lparr>inner := x\<rparr>, f t')) (sem_step ev j (inner s) t)"

definition sem_action ::
    "('e, 'l) event_ops \<Rightarrow> sem_in \<Rightarrow> 'e semaphore arc \<Rightarrow> 'l sem_task \<Rightarrow>
     ('e semaphore arc \<times> 'l sem_task) outcome" where
  "sem_action ev j s t = (case t of
     SemOp a \<Rightarrow> on_sem ev j s a SemOp
   | TryAcquireArc a \<Rightarrow> on_sem ev j s a try_acquire_arc
   | AcquireArc a \<Rightarrow> on_sem ev j s a acquire_arc_poll
   | SemGuardArc fut a \<Rightarrow>
       on_sem ev j s a (if j = SForget then sem_guard_arc_forget fut else sem_guard_arc_drop fut)
   | DropSemArc fut forgot lo \<Rightarrow> on_sem ev j s (acquire_end forgot lo) (drop_sem_rest fut forgot)
   | GuardGone fut forgot lo \<Rightarrow> on_sem ev j s (acquire_end forgot lo) (gone_rest fut forgot)
   | _ \<Rightarrow> Disabled)"

definition sem_arc_run ::
    "'e semaphore arc \<Rightarrow> 'l sem_task \<Rightarrow> ('e semaphore arc \<times> 'l sem_task) outcome" where
  "sem_arc_run s t = (case t of
     AcquireArcCall \<Rightarrow> Next (arc_clone s, AcquireArc SNew)
   | ArcPermit fut lo \<Rightarrow> Next (arc_clone s, SemGuardArc fut (SHeld lo))
   | DropSemArc fut forgot lo \<Rightarrow> Next (arc_drop s, GuardGone fut forgot lo)
   | _ \<Rightarrow> Disabled)"

definition drop_acquire_arc ::
    "'e semaphore arc \<Rightarrow> 'l sem_task \<Rightarrow> ('e semaphore arc \<times> 'l sem_task) outcome" where
  "drop_acquire_arc s t = (case t of
     SemGuardArc fut a \<Rightarrow> if fut then Next (arc_drop s, SemGuardArc False a) else Disabled
   | DropSemArc fut forgot lo \<Rightarrow> if fut then Next (arc_drop s, DropSemArc False forgot lo) else Disabled
   | GuardGone fut forgot lo \<Rightarrow> if fut then Next (arc_drop s, GuardGone False forgot lo) else Disabled
   | _ \<Rightarrow> Disabled)"

definition sem_task_step ::
    "('e, 'l) event_ops \<Rightarrow> sem_arc_in \<Rightarrow> 'e semaphore arc \<Rightarrow> 'l sem_task \<Rightarrow>
     ('e semaphore arc \<times> 'l sem_task) outcome" where
  "sem_task_step ev i s t = (case i of
     OnSem j \<Rightarrow> sem_action ev j s t
   | SemArcRun \<Rightarrow> sem_arc_run s t
   | DropAcquireArc \<Rightarrow> drop_acquire_arc s t)"

text \<open>How many clones of the \<open>Arc\<close> an operation owns.\<close>

definition sem_refs :: "'l sem_task \<Rightarrow> nat" where
  "sem_refs t = (case t of
     AcquireArc a \<Rightarrow> 1
   | ArcPermit fut lo \<Rightarrow> of_bool fut
   | SemGuardArc fut a \<Rightarrow> 1 + of_bool fut
   | DropSemArc fut forgot lo \<Rightarrow> 1 + of_bool fut
   | GuardGone fut forgot lo \<Rightarrow> of_bool fut
   | _ \<Rightarrow> 0)"

text \<open>The borrowed operation is over, or the owned guard and the future are gone.\<close>

definition acquire_over :: "'l acquire \<Rightarrow> bool" where
  "acquire_over a = (case a of SForgot lo \<Rightarrow> True | SAdded n \<Rightarrow> True | SDone lo \<Rightarrow> True | _ \<Rightarrow> False)"

definition sem_over :: "'l sem_task \<Rightarrow> bool" where
  "sem_over t = (case t of
     SemOp a \<Rightarrow> acquire_over a | GuardGone fut forgot lo \<Rightarrow> \<not> fut | _ \<Rightarrow> False)"

definition sem_entry :: "'l sem_task \<Rightarrow> bool" where
  "sem_entry t = (case t of
     SemOp a \<Rightarrow> sem_fresh a | AcquireArcCall \<Rightarrow> True | TryAcquireArc a \<Rightarrow> a = STry | _ \<Rightarrow> False)"

definition sem_made :: "('e \<Rightarrow> bool) \<Rightarrow> usize \<Rightarrow> 'e semaphore \<Rightarrow> bool" where
  "sem_made new_event n s \<longleftrightarrow> (\<exists>e. new_event e \<and> s = semaphore_new n e)"

abbreviation semaphore_step ::
    "('e, 'l) event_ops \<Rightarrow> sem_arc_in arc_in \<Rightarrow> 'e semaphore arc \<Rightarrow> 'l sem_task client \<Rightarrow>
     ('e semaphore arc \<times> 'l sem_task client) outcome" where
  "semaphore_step ev \<equiv> arc_step (sem_task_step ev) sem_refs sem_over sem_entry"

end
