(* ===== verification/Semaphore_Props.thy ===== *)
theory Semaphore_Props
  imports Semaphore Wakeup_Duty
begin

text \<open>
  Properties of the semaphore. Permits are conserved in every interleaving, the semaphore
  implements an abstract counting semaphore, and the loop of \<open>try_acquire\<close> is its sequential
  specification. Under the event laws a suspended \<open>acquire\<close> is notified when a permit is available
  and no guard is left; with a guard outstanding this fails, and \<open>absorbed_wakeup\<close> is the run that
  shows it.
\<close>

abbreviation sem_reachable ::
    "('e, 'l) event_ops \<Rightarrow> ('e \<Rightarrow> bool) \<Rightarrow> usize \<Rightarrow> ('e semaphore, 'l acquire) sys \<Rightarrow> bool" where
  "sem_reachable ev new_event n \<equiv> reachable (sem_step ev) sem_fresh (sem_start new_event n)"

definition is_held :: "'l acquire \<Rightarrow> bool" where
  "is_held t = (case t of SHeld lo \<Rightarrow> True | _ \<Rightarrow> False)"

definition is_forgot :: "'l acquire \<Rightarrow> bool" where
  "is_forgot t = (case t of SForgot lo \<Rightarrow> True | _ \<Rightarrow> False)"

definition permits_added :: "'l acquire list \<Rightarrow> nat" where
  "permits_added ts = (\<Sum>t\<leftarrow>ts. case t of SAddNotify n \<Rightarrow> unat n | SAdded n \<Rightarrow> unat n | _ \<Rightarrow> 0)"

lemma sem_totals:
  fixes ts :: "'a acquire list"
  shows "totals sem_wt ts KHeld = card (indices is_held ts)"
  "totals sem_wt ts KForgot = card (indices is_forgot ts)"
  "totals sem_wt ts KAdded = permits_added ts"
proof -
  show "totals sem_wt ts KHeld = card (indices is_held ts)"
    unfolding card_indices totals_def
    by (rule wsum_cong) (simp add: sem_wt_def is_held_def split: acquire.splits)
  show "totals sem_wt ts KForgot = card (indices is_forgot ts)"
    unfolding card_indices totals_def
    by (rule wsum_cong) (simp add: sem_wt_def is_forgot_def split: acquire.splits)
  have "sem_wt KAdded = (\<lambda>t :: 'a acquire. case t of SAddNotify n \<Rightarrow> unat n | SAdded n \<Rightarrow> unat n | _ \<Rightarrow> 0)"
    by (rule ext) (simp add: sem_wt_def)
  then show "totals sem_wt ts KAdded = permits_added ts"
    by (simp only: totals_def wsum_def permits_added_def)
qed

subsection \<open>Concrete runs\<close>

lemmas sem_run_simps = exec1.simps exec.simps sem_step_def sem_op_defs sem_fresh_def
  semaphore_new_def queue_event_simps

lemma semaphore_new_start:
  "sem_start (fresh_event queue_view) n (semaphore_new n [])"
  by (simp add: sem_start_def semaphore_new_def fresh_event_def queue_view_def)

text \<open>Limit 2: two guards are held, one task has added no permit yet, a third task sleeps.\<close>

definition demo_full :: "(qevent semaphore, nat acquire) sys" where
  "demo_full = \<lparr>shared = \<lparr>scount = 0, sevent = [Some False]\<rparr>,
     tasks = [SHeld None, SHeld None, SSleep 0]\<rparr>"

lemma demo_full_run:
  "exec (sem_step queue_events) sem_fresh
     [Spawn SNew, Act 0 SPoll, Act 0 (SRun False), Act 0 (SRun True), Act 0 (SRun False),
      Spawn STry, Act 1 (SRun False), Act 1 (SRun False),
      Spawn SNew, Act 2 SPoll, Act 2 (SRun False), Act 2 (SRun False), Act 2 (SRun False),
      Act 2 (SRun False)]
     \<lparr>shared = semaphore_new 2 [], tasks = []\<rparr> = Next demo_full"
  by (simp add: sem_run_simps demo_full_def)

lemma demo_full_reachable:
  "sem_reachable queue_events (fresh_event queue_view) 2 demo_full"
  by (rule exec_reachable_init [where start = "sem_start (fresh_event queue_view) 2",
      OF semaphore_new_start demo_full_run])

subsection \<open>Conservation of permits\<close>

text \<open>
  Never more guards than permits. In every interleaving of acquisitions, cancellations, drops,
  \<open>forget\<close> and \<open>add_permits\<close>, the number of guards alive is at most the initial limit plus the
  permits added, as long as that total does not overflow \<open>usize\<close>.
\<close>

theorem semaphore_limit:
  assumes "sem_reachable ev new_event n S" and "unat n + permits_added (tasks S) < 2 ^ 64"
  shows "card (indices is_held (tasks S)) \<le> unat n + permits_added (tasks S)"
  using sem.reachable_good [OF assms(1)] assms(2) by (auto simp: sem_good_def sem_totals)

theorem semaphore_limit_witness: "card (indices is_held (tasks demo_full)) \<le> 2"
  using semaphore_limit [OF demo_full_reachable] by (simp add: demo_full_def permits_added_def)

text \<open>
  C22: \<open>available_permits\<close> is exact. Together with the guards alive and the forgotten ones it makes
  up the initial limit plus the permits added: always modulo \<open>2 ^ 64\<close>, because \<open>fetch_add\<close> wraps
  around, and exactly as long as that total fits into a \<open>usize\<close>. No permit is lost or duplicated.
\<close>

theorem semaphore_permits_exact:
  assumes "sem_reachable ev new_event n S"
  shows "available_permits (shared S) +
      of_nat (card (indices is_held (tasks S)) + card (indices is_forgot (tasks S))) =
      n + of_nat (permits_added (tasks S)) \<and>
    (unat n + permits_added (tasks S) < 2 ^ 64 \<longrightarrow>
      unat (available_permits (shared S)) + card (indices is_held (tasks S)) +
        card (indices is_forgot (tasks S)) = unat n + permits_added (tasks S))"
  using sem.reachable_good [OF assms] by (simp add: sem_good_def sem_totals available_permits_def)

theorem semaphore_permits_exact_witness:
  "unat (available_permits (shared demo_full)) + card (indices is_held (tasks demo_full)) +
    card (indices is_forgot (tasks demo_full)) = 2"
  using semaphore_permits_exact [OF demo_full_reachable]
  by (simp add: demo_full_def permits_added_def)

subsection \<open>The loop of try-acquire\<close>

lemma try_acquire_loop_eq:
  "try_acquire_loop fs (loop_head (scount s)) s =
     (scount s \<noteq> 0, if scount s = 0 then s else s\<lparr>scount := scount s - 1\<rparr>)"
proof (induction fs)
  case Nil
  then show ?case by (simp add: loop_head_def try_cas_eq)
next
  case (Cons f fs)
  then show ?case
    by (cases f; cases "scount s = 0") (simp_all add: loop_head_def try_cas_eq)
qed

text \<open>
  C23: \<open>try_acquire\<close> without interference is its specification, however often the weak
  compare-exchange fails spuriously: it takes a permit if there is one and otherwise changes
  nothing.
\<close>

theorem try_acquire_alone_spec:
  "try_acquire_alone fs s =
     (if available_permits s = 0 then (False, s)
      else (True, s\<lparr>scount := available_permits s - 1\<rparr>))"
  by (simp add: try_acquire_alone_def try_load_def try_acquire_loop_eq available_permits_def)

lemma sem_step_no_panic: "sem_step ev i s t \<noteq> Panic"
  by (auto simp: sem_step_def sem_drop_listener_def Let_def
      split: acquire.split sem_in.split option.split prod.split)

subsection \<open>The abstract semaphore\<close>

text \<open>
  The specification: a number of permits and the set of those who hold one. Arithmetic is modulo
  \<open>2 ^ 64\<close> as in the code. Its steps carry labels: who takes a permit, is refused one, gives one
  back or forgets it, and how many permits are added.
\<close>

record abs_semaphore =
  permits :: nat
  takers :: "nat set"

datatype sem_label = Take | Refuse | Give | Lose | Add usize | Silent

inductive abs_sem_step :: "nat \<Rightarrow> sem_label \<Rightarrow> abs_semaphore \<Rightarrow> abs_semaphore \<Rightarrow> bool" where
  take: "0 < permits a \<Longrightarrow> k \<notin> takers a \<Longrightarrow>
    abs_sem_step k Take a \<lparr>permits = permits a - 1, takers = insert k (takers a)\<rparr>"
| refuse: "permits a = 0 \<Longrightarrow> abs_sem_step k Refuse a a"
| give: "k \<in> takers a \<Longrightarrow>
    abs_sem_step k Give a \<lparr>permits = (permits a + 1) mod 2 ^ 64, takers = takers a - {k}\<rparr>"
| lose: "k \<in> takers a \<Longrightarrow>
    abs_sem_step k Lose a \<lparr>permits = permits a, takers = takers a - {k}\<rparr>"
| add: "abs_sem_step k (Add n) a \<lparr>permits = (permits a + unat n) mod 2 ^ 64, takers = takers a\<rparr>"
| silent: "abs_sem_step k Silent a a"

text \<open>
  The label of an action, from what the client asks for and what the call returns: the drop of a guard
  gives the permit back, \<open>forget\<close> loses it, \<open>add_permits n\<close> adds \<open>n\<close>, a call that gets a guard takes
  a permit, and a \<open>try_acquire\<close> that returns \<open>None\<close> is refused. Everything else is silent.
\<close>

definition sem_label_of :: "sem_in \<Rightarrow> 'l acquire \<Rightarrow> 'l acquire \<Rightarrow> sem_label" where
  "sem_label_of i t t' = (case t of
     SHeld lo \<Rightarrow> (case i of SDrop \<Rightarrow> Give | SForget \<Rightarrow> Lose | _ \<Rightarrow> Silent)
   | SAdd n \<Rightarrow> Add n
   | STry \<Rightarrow> (case t' of SHeld lo \<Rightarrow> Take | SDone lo \<Rightarrow> Refuse | _ \<Rightarrow> Silent)
   | STryCas c \<Rightarrow> (case t' of SHeld lo \<Rightarrow> Take | SDone lo \<Rightarrow> Refuse | _ \<Rightarrow> Silent)
   | _ \<Rightarrow> if is_held t' then Take else Silent)"

definition abs_sem_start :: "usize \<Rightarrow> abs_semaphore \<Rightarrow> bool" where
  "abs_sem_start n a \<longleftrightarrow> permits a = unat n \<and> takers a = {}"

definition abs_sem :: "('e semaphore, 'l acquire) sys \<Rightarrow> abs_semaphore" where
  "abs_sem S = \<lparr>permits = unat (scount (shared S)), takers = indices is_held (tasks S)\<rparr>"

text \<open>What the action with a label does to the counter and to the task.\<close>

definition label_effect :: "sem_label \<Rightarrow> usize \<Rightarrow> bool \<Rightarrow> usize \<Rightarrow> bool \<Rightarrow> bool" where
  "label_effect lab c h c' h' = (case lab of
     Take \<Rightarrow> c \<noteq> 0 \<and> c' = c - 1 \<and> \<not> h \<and> h'
   | Refuse \<Rightarrow> c = 0 \<and> c' = c \<and> \<not> h \<and> \<not> h'
   | Give \<Rightarrow> c' = c + 1 \<and> h \<and> \<not> h'
   | Lose \<Rightarrow> c' = c \<and> h \<and> \<not> h'
   | Add n \<Rightarrow> c' = c + n \<and> \<not> h \<and> \<not> h'
   | Silent \<Rightarrow> c' = c \<and> h' = h)"

lemma sem_step_labelled:
  assumes "sem_step ev i s t = Next (s', t')" and "sem_wf t"
  shows "label_effect (sem_label_of i t t') (scount s) (is_held t) (scount s') (is_held t')"
  using assms
  by (cases t)
     (auto simp: label_effect_def sem_label_of_def sem_step_def sem_op_defs sem_wf_def is_held_def Let_def
      split: sem_in.splits option.splits if_splits prod.splits)

lemma abs_sem_act:
  assumes wf: "sem_wf (tasks S ! k)" and k: "k < length (tasks S)"
    and step: "sem_step ev i (shared S) (tasks S ! k) = Next (s', t')"
  defines "S' \<equiv> \<lparr>shared = s', tasks = (tasks S)[k := t']\<rparr>"
  shows "abs_sem_step k (sem_label_of i (tasks S ! k) t') (abs_sem S) (abs_sem S')"
proof -
  let ?a = "abs_sem S"
  have mem: "k \<in> takers ?a \<longleftrightarrow> is_held (tasks S ! k)"
    using k by (simp add: abs_sem_def indices_def)
  have abs': "abs_sem S' = \<lparr>permits = unat (scount s'),
      takers = (if is_held t' then insert k (takers ?a) else takers ?a - {k})\<rparr>"
    using k by (simp add: S'_def abs_sem_def indices_update)
  have permits: "permits ?a = unat (scount (shared S))" by (simp add: abs_sem_def)
  have same: "abs_sem S' = ?a"
    if "scount s' = scount (shared S)" "is_held t' = is_held (tasks S ! k)"
    using that mem permits by (auto simp: abs' insert_absorb)
  from sem_step_labelled [OF step wf] show ?thesis
  proof (cases "sem_label_of i (tasks S ! k) t'")
    case Take
    moreover from this sem_step_labelled [OF step wf]
    have "unat (scount s') = unat (scount (shared S)) - 1"
      by (simp add: label_effect_def unat_minus_one)
    ultimately show ?thesis using sem_step_labelled [OF step wf] abs_sem_step.take [of ?a k] mem permits
      by (simp add: abs' label_effect_def unat_gt_0)
  next
    case Refuse
    with sem_step_labelled [OF step wf] same abs_sem_step.refuse [of ?a k] permits show ?thesis
      by (simp add: label_effect_def)
  next
    case Give
    with sem_step_labelled [OF step wf] abs_sem_step.give [of k ?a] mem permits show ?thesis
      by (simp add: abs' label_effect_def unat_word_ariths)
  next
    case Lose
    with sem_step_labelled [OF step wf] abs_sem_step.lose [of k ?a] mem permits show ?thesis
      by (simp add: abs' label_effect_def)
  next
    case (Add n)
    with sem_step_labelled [OF step wf] abs_sem_step.add [of k n ?a] mem permits show ?thesis
      by (simp add: abs' label_effect_def unat_word_ariths)
  next
    case Silent
    with sem_step_labelled [OF step wf] same abs_sem_step.silent [of k ?a] show ?thesis
      by (simp add: label_effect_def)
  qed
qed

interpretation sem_abs: refinement_system "sem_step ev" sem_fresh "sem_start new_event n"
    "counting_inv sem_wt sem_wf (sem_good n)" abs_sem "abs_sem_start n" "\<lambda>a a'. \<exists>k lab. abs_sem_step k lab a a'"
  for ev :: "('e, 'l) event_ops" and new_event and n :: usize
proof
  show "sem_start new_event n s \<Longrightarrow> abs_sem_start n (abs_sem \<lparr>shared = s, tasks = []\<rparr>)"
    for s :: "'e semaphore"
    by (simp add: abs_sem_start_def abs_sem_def sem_start_def)
next
  fix S :: "('e semaphore, 'l acquire) sys" and t :: "'l acquire"
  assume "sem_fresh t"
  then show "abs_sem (S\<lparr>tasks := tasks S @ [t]\<rparr>) = abs_sem S"
    by (auto simp: abs_sem_def sem_fresh_def acquire_future_def is_held_def intro!: indices_snoc split: acquire.splits)
next
  fix S :: "('e semaphore, 'l acquire) sys" and k i s' t'
  assume "counting_inv sem_wt sem_wf (sem_good n) S" and k: "k < length (tasks S)"
    and step: "sem_step ev i (shared S) (tasks S ! k) = Next (s', t')"
  then have "sem_wf (tasks S ! k)" by (simp add: counting_inv_def)
  from abs_sem_act [OF this k step]
  show "abs_sem \<lparr>shared = s', tasks = (tasks S)[k := t']\<rparr> = abs_sem S \<or>
      (\<exists>j lab. abs_sem_step j lab (abs_sem S) (abs_sem \<lparr>shared = s', tasks = (tasks S)[k := t']\<rparr>))"
    by blast
qed

text \<open>
  C21: the semaphore implements the abstract counting semaphore. Every action of any task is the step
  of it that the action stands for: the drop of a guard gives its one permit back, \<open>forget\<close> gives
  back none, \<open>add_permits n\<close> adds exactly \<open>n\<close>, a call gets a guard only by taking a permit that is
  there, \<open>try_acquire\<close> returns \<open>None\<close> only when there is none, and all other actions (polls,
  cancellations, listeners, notifications) leave permits and holders alone.
\<close>

theorem semaphore_refines_abstract:
  assumes "sem_reachable ev new_event n S" and "k < length (tasks S)"
    and "sem_step ev i (shared S) (tasks S ! k) = Next (s', t')"
  shows "abs_sem_step k (sem_label_of i (tasks S ! k) t') (abs_sem S)
    (abs_sem \<lparr>shared = s', tasks = (tasks S)[k := t']\<rparr>)"
  by (rule abs_sem_act [OF sem.reachable_wf [OF assms(1,2)] assms(2,3)])

theorem semaphore_refines_abstract_witness:
  "abs_sem_step 0 Give (abs_sem demo_full)
     (abs_sem \<lparr>shared = release_add (shared demo_full), tasks = (tasks demo_full)[0 := SRelease None]\<rparr>)"
  using semaphore_refines_abstract [OF demo_full_reachable, of 0 SDrop "release_add (shared demo_full)" "SRelease None"]
  by (simp add: demo_full_def sem_step_def sem_label_of_def)

end
