(* ===== verification/Semaphore_Arc_Props.thy ===== *)
theory Semaphore_Arc_Props
  imports Semaphore_Arc Semaphore_Props
begin

text \<open>
  The semaphore with all its guards, borrowed and reference-counted: permits are conserved over
  both kinds, the reference count is exact, and the semaphore is freed only when no guard is alive.
\<close>

subsection \<open>The semaphore inside\<close>

definition acquire_of :: "'l sem_task \<Rightarrow> 'l acquire" where
  "acquire_of t = (case t of
     SemOp a \<Rightarrow> a | TryAcquireArc a \<Rightarrow> a | AcquireArcCall \<Rightarrow> SNew | AcquireArc a \<Rightarrow> a
   | ArcPermit fut lo \<Rightarrow> SHeld lo | SemGuardArc fut a \<Rightarrow> a
   | DropSemArc fut forgot lo \<Rightarrow> acquire_end forgot lo
   | GuardGone fut forgot lo \<Rightarrow> acquire_end forgot lo)"

lemma acquire_of_simps [simp]:
  "acquire_of (SemOp a) = a" "acquire_of (TryAcquireArc a) = a" "acquire_of AcquireArcCall = SNew"
  "acquire_of (AcquireArc a) = a" "acquire_of (ArcPermit fut lo) = SHeld lo"
  "acquire_of (SemGuardArc fut a) = a" "acquire_of (DropSemArc fut forgot lo) = acquire_end forgot lo"
  "acquire_of (GuardGone fut forgot lo) = acquire_end forgot lo"
  by (simp_all add: acquire_of_def)

lemma sem_refs_simps [simp]:
  "sem_refs (SemOp a) = 0" "sem_refs (TryAcquireArc a) = 0" "sem_refs AcquireArcCall = 0"
  "sem_refs (AcquireArc a) = 1" "sem_refs (ArcPermit fut lo) = of_bool fut"
  "sem_refs (SemGuardArc fut a) = 1 + of_bool fut"
  "sem_refs (DropSemArc fut forgot lo) = 1 + of_bool fut"
  "sem_refs (GuardGone fut forgot lo) = of_bool fut"
  by (simp_all add: sem_refs_def)

lemma sem_over_simps [simp]:
  "sem_over (SemOp a) = acquire_over a" "\<not> sem_over (TryAcquireArc a)" "\<not> sem_over AcquireArcCall"
  "\<not> sem_over (AcquireArc a)" "\<not> sem_over (ArcPermit fut lo)" "\<not> sem_over (SemGuardArc fut a)"
  "\<not> sem_over (DropSemArc fut forgot lo)" "sem_over (GuardGone fut forgot lo) = (\<not> fut)"
  by (simp_all add: sem_over_def)

lemmas sem_next_defs = try_acquire_arc_def acquire_arc_poll_def sem_guard_arc_drop_def
  sem_guard_arc_forget_def drop_sem_rest_def gone_rest_def

lemma acquire_of_next [simp]:
  "acquire_of (try_acquire_arc a) = a" "acquire_of (acquire_arc_poll a) = a"
  "acquire_of (sem_guard_arc_drop fut a) = a" "acquire_of (sem_guard_arc_forget fut a) = a"
  by (simp_all add: sem_next_defs acquire_end_def split: acquire.split)

lemma on_sem_Next:
  "on_sem ev j s t f = Next (s', t') \<longleftrightarrow>
     (\<exists>x a. sem_step ev j (inner s) t = Next (x, a) \<and> s' = s\<lparr>inner := x\<rparr> \<and> t' = f a)"
  by (auto simp: on_sem_def map_outcome_Next_iff)

lemma end_step:
  "sem_step ev j m (acquire_end forgot lo) = Next (m', a) \<Longrightarrow> \<exists>lo'. a = acquire_end forgot lo'"
  by (auto simp: sem_step_def acquire_end_def sem_drop_listener_def
      split: sem_in.splits option.splits if_splits)

lemma rest_end [simp]:
  "drop_sem_rest fut forgot (acquire_end forgot lo) = DropSemArc fut forgot lo"
  "gone_rest fut forgot (acquire_end forgot lo) = GuardGone fut forgot lo"
  by (simp_all add: sem_next_defs acquire_end_def)

lemma end_rest:
  assumes "sem_step ev j m (acquire_end forgot lo) = Next (m', a)"
  shows "acquire_of (drop_sem_rest fut forgot a) = a" "acquire_of (gone_rest fut forgot a) = a"
    "sem_refs (drop_sem_rest fut forgot a) = 1 + of_bool fut"
    "sem_refs (gone_rest fut forgot a) = of_bool fut" "sem_over (gone_rest fut forgot a) = (\<not> fut)"
  using end_step [OF assms] by auto

lemma next_refs [simp]:
  "sem_refs (try_acquire_arc a) = 0" "sem_refs (acquire_arc_poll a) = 1"
  "sem_refs (sem_guard_arc_drop fut a) = 1 + of_bool fut"
  "sem_refs (sem_guard_arc_forget fut a) = 1 + of_bool fut"
  by (simp_all add: sem_next_defs split: acquire.split)

lemma sem_action_step:
  assumes "sem_action ev j s t = Next (s', t')"
  shows "sem_step ev j (inner s) (acquire_of t) = Next (inner s', acquire_of t')"
    and "strong s' = strong s" "root s' = root s" "sem_refs t' = sem_refs t"
  using assms
  by (auto simp: sem_action_def on_sem_Next end_rest split: sem_task.splits if_splits)

lemma sem_arc_run_step:
  assumes "sem_arc_run s t = Next (s', t')"
  shows "inner s' = inner s" "acquire_of t' = acquire_of t" "root s' = root s"
  using assms by (auto simp: sem_arc_run_def split: sem_task.splits)

lemma drop_acquire_arc_step:
  assumes "drop_acquire_arc s t = Next (s', t')"
  shows "inner s' = inner s" "acquire_of t' = acquire_of t" "root s' = root s"
  using assms by (auto simp: drop_acquire_arc_def split: sem_task.splits if_splits)

lemma over_step: "acquire_over a \<Longrightarrow> sem_step ev j m a = Next (m', a') \<Longrightarrow> acquire_over a'"
  by (auto simp: sem_step_def acquire_over_def sem_drop_listener_def
      split: acquire.splits sem_in.splits option.splits)

lemma sem_action_over: "sem_action ev j s t = Next (s', t') \<Longrightarrow> sem_over t \<Longrightarrow> sem_over t'"
  by (cases t) (auto simp: sem_action_def on_sem_Next end_rest dest: over_step)

interpretation sma: arc_component "sem_task_step ev" sem_refs sem_over sem_entry
    "sem_made new_event n" "sem_step ev" sem_fresh "sem_start new_event n" "\<lambda>s. s" acquire_of
  for ev :: "('e, 'l) event_ops" and new_event and n :: usize
proof
  show "sem_entry t \<Longrightarrow> sem_refs t = 0" for t :: "'l sem_task"
    by (cases t) (simp_all add: sem_entry_def)
  show "sem_entry t \<Longrightarrow> sem_fresh (acquire_of t)" for t :: "'l sem_task"
    by (cases t) (simp_all add: sem_entry_def sem_fresh_def acquire_future_def)
  show "sem_made new_event n s \<Longrightarrow> sem_start new_event n s" for s :: "'e semaphore"
    by (auto simp: sem_made_def sem_start_def semaphore_new_def)
next
  fix i and s s' :: "'e semaphore arc" and t t' :: "'l sem_task"
  assume step: "sem_task_step ev i s t = Next (s', t')"
  from step show "root s' = root s"
    by (auto simp: sem_task_step_def dest: sem_action_step(3) sem_arc_run_step(3)
        drop_acquire_arc_step(3) split: sem_arc_in.splits)
  from step show "inner s' = inner s \<and> acquire_of t' = acquire_of t \<or>
      (\<exists>j. sem_step ev j (inner s) (acquire_of t) = Next (inner s', acquire_of t'))"
    by (auto simp: sem_task_step_def dest: sem_action_step(1) sem_arc_run_step
        drop_acquire_arc_step split: sem_arc_in.splits)
  from step show "sem_refs t \<le> strong s \<Longrightarrow> strong s' + sem_refs t = strong s + sem_refs t'"
    by (auto simp: sem_task_step_def sem_arc_run_def drop_acquire_arc_def sem_action_step(2,4)
        split: sem_arc_in.splits sem_task.splits if_splits)
  from step show "sem_over t \<or> 0 < sem_refs t \<and> sem_refs t' = 0 \<Longrightarrow> sem_over t'"
  proof (cases i)
    case (OnSem j)
    with step sem_action_step(4) [of ev j s t s' t'] sem_action_over [of ev j s t s' t'] show
      "sem_over t \<or> 0 < sem_refs t \<and> sem_refs t' = 0 \<Longrightarrow> sem_over t'"
      by (auto simp: sem_task_step_def)
  qed (auto simp: sem_task_step_def sem_arc_run_def drop_acquire_arc_def
      split: sem_task.splits if_splits)
qed

abbreviation sma_reachable ::
    "('e, 'l) event_ops \<Rightarrow> ('e \<Rightarrow> bool) \<Rightarrow> usize \<Rightarrow> ('e semaphore arc, 'l sem_task client) sys \<Rightarrow> bool" where
  "sma_reachable ev new_event n \<equiv>
     reachable (semaphore_step ev) (client_fresh sem_entry) (arc_start (sem_made new_event n))"

subsection \<open>Concrete runs\<close>

lemmas sma_run_simps = arc_run_simps sem_run_simps sem_task_step_def sem_action_def on_sem_def
  sem_arc_run_def drop_acquire_arc_def arc_clone_def arc_drop_def sem_refs_def sem_over_def
  acquire_over_def sem_entry_def sem_acquire_arc_def sem_try_acquire_arc_def sem_next_defs
  acquire_end_def

definition demo_sem_arc :: "qevent semaphore arc" where
  "demo_sem_arc = \<lparr>inner = semaphore_new 2 [], strong = 1, root = True\<rparr>"

lemma demo_sem_arc_start: "arc_start (sem_made (fresh_event queue_view) 2) demo_sem_arc"
  by (auto simp: arc_start_def sem_made_def demo_sem_arc_def fresh_event_def queue_view_def
      intro: exI [of _ "[]"])

abbreviation run_sem :: "nat \<Rightarrow> (sem_arc_in arc_in, nat sem_task client) sched" where
  "run_sem k \<equiv> Act k (Do (OnSem (SRun False)))"

text \<open>
  Client 0 has a guard from \<open>acquire_arc\<close>, and its completed future is still there; client 1 has a
  guard from \<open>try_acquire_arc\<close>. All handles have been dropped.
\<close>

definition demo_sem_held :: "(qevent semaphore arc, nat sem_task client) sys" where
  "demo_sem_held =
     \<lparr>shared = \<lparr>inner = \<lparr>scount = 0, sevent = []\<rparr>, strong = 3, root = False\<rparr>,
      tasks = [\<lparr>handle = False, oper = SemGuardArc True (SHeld None)\<rparr>,
        \<lparr>handle = False, oper = SemGuardArc False (SHeld None)\<rparr>]\<rparr>"

lemma demo_sem_held_run:
  "exec (semaphore_step queue_events) (client_fresh sem_entry)
     [Spawn (client_new sem_acquire_arc), Act 0 GetHandle, Act 0 (Do SemArcRun), Act 0 DropHandle,
      Act 0 (Do (OnSem SPoll)), run_sem 0, run_sem 0, Act 0 (Do SemArcRun),
      Spawn (client_new sem_try_acquire_arc), Act 1 GetHandle, run_sem 1, run_sem 1,
      Act 1 (Do SemArcRun), Act 1 DropHandle, Act 1 DropRoot]
     \<lparr>shared = demo_sem_arc, tasks = []\<rparr> = Next demo_sem_held"
  by (simp add: sma_run_simps demo_sem_arc_def demo_sem_held_def)

lemma demo_sem_held_reachable: "sma_reachable queue_events (fresh_event queue_view) 2 demo_sem_held"
  by (rule exec_reachable_init [where start = "arc_start (sem_made (fresh_event queue_view) 2)",
      OF demo_sem_arc_start demo_sem_held_run])

text \<open>The first guard is dropped and then its future; the second guard is forgotten.\<close>

definition demo_sem_gone :: "(qevent semaphore arc, nat sem_task client) sys" where
  "demo_sem_gone =
     \<lparr>shared = \<lparr>inner = \<lparr>scount = 1, sevent = []\<rparr>, strong = 0, root = False\<rparr>,
      tasks = [\<lparr>handle = False, oper = GuardGone False False None\<rparr>,
        \<lparr>handle = False, oper = GuardGone False True None\<rparr>]\<rparr>"

lemma demo_sem_gone_run:
  "exec (semaphore_step queue_events) (client_fresh sem_entry)
     [Act 0 (Do (OnSem SDrop)), run_sem 0, Act 0 (Do SemArcRun), Act 0 (Do DropAcquireArc),
      Act 1 (Do (OnSem SForget)), Act 1 (Do SemArcRun)]
     demo_sem_held = Next demo_sem_gone"
  by (simp add: sma_run_simps demo_sem_held_def demo_sem_gone_def q_notify_def)

lemma demo_sem_gone_reachable: "sma_reachable queue_events (fresh_event queue_view) 2 demo_sem_gone"
  by (rule exec_reachable [OF demo_sem_gone_run demo_sem_held_reachable])

subsection \<open>Properties\<close>

abbreviation acquires :: "'l sem_task client list \<Rightarrow> 'l acquire list" where
  "acquires cs \<equiv> map (\<lambda>c. acquire_of (oper c)) cs"

lemma indices_none: "(\<And>x. x \<in> set xs \<Longrightarrow> \<not> P x) \<Longrightarrow> indices P xs = {}"
  by (simp add: indices_empty_iff)

text \<open>
  C5: the reference count of a semaphore is exact over its handles, \<open>AcquireArc\<close> futures (completed
  ones included) and owned guards. When it reaches zero, no guard of either kind is alive, and every
  permit is back but the forgotten ones: modulo \<open>2 ^ 64\<close>, and exactly if the permits never exceed
  a \<open>usize\<close>.
\<close>

theorem semaphore_arc_freed:
  assumes "sma_reachable ev new_event n S"
  shows "strong (shared S) = of_bool (root (shared S)) + card (indices handle (tasks S)) +
      wsum (\<lambda>c. sem_refs (oper c)) (tasks S) \<and>
    (strong (shared S) = 0 \<longrightarrow> indices is_held (acquires (tasks S)) = {} \<and>
      available_permits (inner (shared S)) + of_nat (card (indices is_forgot (acquires (tasks S)))) =
        n + of_nat (permits_added (acquires (tasks S))) \<and>
      (unat n + permits_added (acquires (tasks S)) < 2 ^ 64 \<longrightarrow>
        unat (available_permits (inner (shared S))) + card (indices is_forgot (acquires (tasks S))) =
          unat n + permits_added (acquires (tasks S))))"
proof (intro conjI [OF sma.strong_exact [OF assms]] impI)
  assume freed: "strong (shared S) = 0"
  have "\<not> is_held (acquire_of (oper c))" if "c \<in> set (tasks S)" for c
    using sma.freed(4) [OF assms freed that]
    by (cases "oper c")
       (auto simp: is_held_def acquire_over_def acquire_end_def sem_entry_def sem_fresh_def
         acquire_future_def split: acquire.splits)
  then have none: "indices is_held (acquires (tasks S)) = {}" by (auto intro!: indices_none)
  with sem.reachable_good [OF sma.comp.reachable_inv [OF assms]]
  show "indices is_held (acquires (tasks S)) = {} \<and>
      available_permits (inner (shared S)) + of_nat (card (indices is_forgot (acquires (tasks S)))) =
        n + of_nat (permits_added (acquires (tasks S))) \<and>
      (unat n + permits_added (acquires (tasks S)) < 2 ^ 64 \<longrightarrow>
        unat (available_permits (inner (shared S))) + card (indices is_forgot (acquires (tasks S))) =
          unat n + permits_added (acquires (tasks S)))"
    by (simp add: sem_good_def sem_totals available_permits_def)
qed

theorem semaphore_arc_freed_witness:
  "strong (shared demo_sem_held) = 3 \<and>
   1 + card (indices is_forgot (acquires (tasks demo_sem_gone))) = 2"
proof -
  have "indices handle (tasks demo_sem_held) = {}" by (simp add: indices_empty_iff demo_sem_held_def)
  with semaphore_arc_freed [OF demo_sem_held_reachable]
  have "strong (shared demo_sem_held) = 3" by (simp add: demo_sem_held_def permits_added_def)
  with semaphore_arc_freed [OF demo_sem_gone_reachable] show ?thesis
    by (simp add: demo_sem_gone_def permits_added_def available_permits_def acquire_end_def)
qed

end
