(* ===== verification/RwLock.thy ===== *)
theory RwLock
  imports RawRwLock Arc_Clients
begin

text \<open>
  \<^verbatim>\<open>src/rwlock.rs\<close> and \<^verbatim>\<open>src/rwlock/futures.rs\<close>: the reader-writer lock with its value, its
  futures and guards, borrowed and reference-counted.

  Each struct of the code is a constructor of the task: a future or call contains the raw operation,
  a guard what its completed future has left behind. Every operation moves the raw lock by
  \<open>rw_step\<close> and then builds the next struct. The lock is in an \<open>Arc\<close> (\<open>Arc_Clients\<close>), from which
  futures and borrowed guards borrow, and of which the reference-counted ones own a clone. The
  blocking variants drive the same futures.
\<close>

subsection \<open>The lock\<close>

record ('e, 'a) rwlock =
  raw :: "'e raw_rwlock"
  rvalue :: 'a

definition rwlock_new :: "'e \<Rightarrow> 'e \<Rightarrow> 'e \<Rightarrow> 'a \<Rightarrow> ('e, 'a) rwlock" where
  "rwlock_new e e1 e2 v = \<lparr>raw = raw_new e e1 e2, rvalue = v\<rparr>"

text \<open>\<open>From\<close> and \<open>Default\<close>; \<open>d\<close> is the default of the value.\<close>

definition rwlock_from :: "'e \<Rightarrow> 'e \<Rightarrow> 'e \<Rightarrow> 'a \<Rightarrow> ('e, 'a) rwlock" where
  [simp]: "rwlock_from e e1 e2 val = rwlock_new e e1 e2 val"

definition rwlock_default :: "'e \<Rightarrow> 'e \<Rightarrow> 'e \<Rightarrow> 'a \<Rightarrow> ('e, 'a) rwlock" where
  [simp]: "rwlock_default e e1 e2 d = rwlock_new e e1 e2 d"

definition rwlock_into_inner :: "('e, 'a) rwlock \<Rightarrow> 'a" where
  "rwlock_into_inner l = rvalue l"

definition rwlock_get_mut :: "('a \<Rightarrow> 'a) \<Rightarrow> ('e, 'a) rwlock \<Rightarrow> ('e, 'a) rwlock" where
  "rwlock_get_mut f l = l\<lparr>rvalue := f (rvalue l)\<rparr>"

subsection \<open>Futures, calls and guards\<close>

text \<open>
  \<open>ReadArcReady\<close> and the like: the raw lock has been acquired and the \<open>Arc\<close> is about to be cloned.
  \<open>Dropping\<close>, \<open>Downgrading\<close>: the guard's method is between its actions; the flag says that it owns
  an \<open>Arc\<close>. \<open>ReleaseArc\<close>: the lock has been released and the \<open>Arc\<close> is about to be dropped.
\<close>

datatype 'l rwlock_task =
    TryRead "'l rw" | TryReadArc "'l rw"
  | TryUpgradableRead "'l rw" | TryUpgradableReadArc "'l rw"
  | TryWrite "'l rw" | TryWriteArc "'l rw"
  | Read "'l rw" | ReadArc "'l rw"
  | UpgradableRead "'l rw" | UpgradableReadArc "'l rw"
  | WriteFut "'l rw" | WriteArc "'l rw"
  | Upgrade "'l rw" | UpgradeArc "'l rw"
  | ReadArcReady "'l leftovers" | UpgradableArcReady "'l leftovers" | WriteArcReady "'l leftovers"
  | ReadGuard "'l leftovers" | ReadGuardArc "'l leftovers"
  | UpgradableGuard "'l leftovers" | UpgradableGuardArc "'l leftovers"
  | WriteGuard "'l leftovers" | WriteGuardArc "'l leftovers"
  | Dropping bool "'l rw"
  | Downgrading bool "'l rw"
  | ReleaseArc "'l leftovers"
  | Finished "'l leftovers"

text \<open>The functions \<open>new\<close> of the futures: a future is made from the raw operation.\<close>

definition read_future :: "'l rw \<Rightarrow> 'l rwlock_task" where
  [simp]: "read_future r = Read r"

definition read_arc_future :: "'l rw \<Rightarrow> 'l rwlock_task" where
  [simp]: "read_arc_future r = ReadArc r"

definition upgradable_read_future :: "'l rw \<Rightarrow> 'l rwlock_task" where
  [simp]: "upgradable_read_future r = UpgradableRead r"

definition upgradable_read_arc_future :: "'l rw \<Rightarrow> 'l rwlock_task" where
  [simp]: "upgradable_read_arc_future r = UpgradableReadArc r"

definition write_future :: "'l rw \<Rightarrow> 'l rwlock_task" where
  [simp]: "write_future r = WriteFut r"

definition write_arc_future :: "'l rw \<Rightarrow> 'l rwlock_task" where
  [simp]: "write_arc_future r = WriteArc r"

definition upgrade_future :: "'l rw \<Rightarrow> 'l rwlock_task" where
  [simp]: "upgrade_future r = Upgrade r"

definition upgrade_arc_future :: "'l rw \<Rightarrow> 'l rwlock_task" where
  [simp]: "upgrade_arc_future r = UpgradeArc r"

text \<open>The methods that make a future or begin a call.\<close>

definition rwlock_try_read :: "'l rwlock_task" where
  "rwlock_try_read = TryRead RTryRead"

definition rwlock_try_read_arc :: "'l rwlock_task" where
  "rwlock_try_read_arc = TryReadArc RTryRead"

definition rwlock_read :: "'l rwlock_task" where
  "rwlock_read = read_future RReadCall"

definition rwlock_read_arc :: "'l rwlock_task" where
  "rwlock_read_arc = read_arc_future RReadCall"

definition rwlock_try_upgradable_read :: "'l rwlock_task" where
  "rwlock_try_upgradable_read = TryUpgradableRead RTryUp"

definition rwlock_try_upgradable_read_arc :: "'l rwlock_task" where
  "rwlock_try_upgradable_read_arc = TryUpgradableReadArc RTryUp"

definition rwlock_upgradable_read :: "'l rwlock_task" where
  "rwlock_upgradable_read = upgradable_read_future raw_upgradable_read"

definition rwlock_upgradable_read_arc :: "'l rwlock_task" where
  "rwlock_upgradable_read_arc = upgradable_read_arc_future raw_upgradable_read"

definition rwlock_try_write :: "'l rwlock_task" where
  "rwlock_try_write = TryWrite RTryWrite"

definition rwlock_try_write_arc :: "'l rwlock_task" where
  "rwlock_try_write_arc = TryWriteArc RTryWrite"

definition rwlock_write :: "'l rwlock_task" where
  "rwlock_write = write_future raw_write"

definition rwlock_write_arc :: "'l rwlock_task" where
  "rwlock_write_arc = write_arc_future raw_write"

subsection \<open>What a future or call becomes\<close>

text \<open>
  After an action of the raw operation: \<open>Some(guard)\<close> or \<open>Poll::Ready(guard)\<close> when the raw lock has
  been acquired; \<open>None\<close>, or the end of a cancelled future, when it is done; else it goes on.
\<close>

definition try_read_poll :: "'l rw \<Rightarrow> 'l rwlock_task" where
  "try_read_poll r = (case r of RReader lo \<Rightarrow> ReadGuard lo | RDone lo \<Rightarrow> Finished lo | _ \<Rightarrow> TryRead r)"

definition try_read_arc_poll :: "'l rw \<Rightarrow> 'l rwlock_task" where
  "try_read_arc_poll r = (case r of RReader lo \<Rightarrow> ReadArcReady lo | RDone lo \<Rightarrow> Finished lo | _ \<Rightarrow> TryReadArc r)"

definition try_upgradable_poll :: "'l rw \<Rightarrow> 'l rwlock_task" where
  "try_upgradable_poll r = (case r of RUpgradable lo \<Rightarrow> UpgradableGuard lo | RDone lo \<Rightarrow> Finished lo | _ \<Rightarrow> TryUpgradableRead r)"

definition try_upgradable_arc_poll :: "'l rw \<Rightarrow> 'l rwlock_task" where
  "try_upgradable_arc_poll r = (case r of RUpgradable lo \<Rightarrow> UpgradableArcReady lo | RDone lo \<Rightarrow> Finished lo | _ \<Rightarrow> TryUpgradableReadArc r)"

definition try_write_poll :: "'l rw \<Rightarrow> 'l rwlock_task" where
  "try_write_poll r = (case r of RWriter lo \<Rightarrow> WriteGuard lo | RDone lo \<Rightarrow> Finished lo | _ \<Rightarrow> TryWrite r)"

definition try_write_arc_poll :: "'l rw \<Rightarrow> 'l rwlock_task" where
  "try_write_arc_poll r = (case r of RWriter lo \<Rightarrow> WriteArcReady lo | RDone lo \<Rightarrow> Finished lo | _ \<Rightarrow> TryWriteArc r)"

definition read_poll :: "'l rw \<Rightarrow> 'l rwlock_task" where
  "read_poll r = (case r of RReader lo \<Rightarrow> ReadGuard lo | RDone lo \<Rightarrow> Finished lo | _ \<Rightarrow> Read r)"

definition read_arc_poll :: "'l rw \<Rightarrow> 'l rwlock_task" where
  "read_arc_poll r = (case r of RReader lo \<Rightarrow> ReadArcReady lo | RDone lo \<Rightarrow> Finished lo | _ \<Rightarrow> ReadArc r)"

definition upgradable_read_poll :: "'l rw \<Rightarrow> 'l rwlock_task" where
  "upgradable_read_poll r = (case r of RUpgradable lo \<Rightarrow> UpgradableGuard lo | RDone lo \<Rightarrow> Finished lo | _ \<Rightarrow> UpgradableRead r)"

definition upgradable_read_arc_poll :: "'l rw \<Rightarrow> 'l rwlock_task" where
  "upgradable_read_arc_poll r = (case r of RUpgradable lo \<Rightarrow> UpgradableArcReady lo | RDone lo \<Rightarrow> Finished lo | _ \<Rightarrow> UpgradableReadArc r)"

definition write_poll :: "'l rw \<Rightarrow> 'l rwlock_task" where
  "write_poll r = (case r of RWriter lo \<Rightarrow> WriteGuard lo | RDone lo \<Rightarrow> Finished lo | _ \<Rightarrow> WriteFut r)"

definition write_arc_poll :: "'l rw \<Rightarrow> 'l rwlock_task" where
  "write_arc_poll r = (case r of RWriter lo \<Rightarrow> WriteArcReady lo | RDone lo \<Rightarrow> Finished lo | _ \<Rightarrow> WriteArc r)"

definition upgrade_poll :: "'l rw \<Rightarrow> 'l rwlock_task" where
  "upgrade_poll r = (case r of RWriter lo \<Rightarrow> WriteGuard lo | RDone lo \<Rightarrow> Finished lo | _ \<Rightarrow> Upgrade r)"

text \<open>
  \<open>UpgradeArc\<close> owns the \<open>Arc\<close>: it moves into the guard when the raw upgrade is ready, and is
  dropped after the raw upgrade when the future is dropped before.
\<close>

definition upgrade_arc_poll :: "'l rw \<Rightarrow> 'l rwlock_task" where
  "upgrade_arc_poll r = (case r of RWriter lo \<Rightarrow> WriteGuardArc lo | _ \<Rightarrow> UpgradeArc r)"

definition upgrade_arc_drop :: "'l rw \<Rightarrow> 'l rwlock_task" where
  "upgrade_arc_drop r = (case r of RDone lo \<Rightarrow> ReleaseArc lo | _ \<Rightarrow> upgrade_arc_poll r)"

subsection \<open>What the methods of a guard lead to\<close>

text \<open>Dropping a guard; a reference-counted one drops its \<open>Arc\<close> when the lock is released.\<close>

definition read_guard_drop :: "'l rw \<Rightarrow> 'l rwlock_task" where
  "read_guard_drop r = (case r of RDone lo \<Rightarrow> Finished lo | _ \<Rightarrow> Dropping False r)"

definition read_guard_arc_drop :: "'l rw \<Rightarrow> 'l rwlock_task" where
  "read_guard_arc_drop r = (case r of RDone lo \<Rightarrow> ReleaseArc lo | _ \<Rightarrow> Dropping True r)"

definition upgradable_guard_drop :: "'l rw \<Rightarrow> 'l rwlock_task" where
  "upgradable_guard_drop r = (case r of RDone lo \<Rightarrow> Finished lo | _ \<Rightarrow> Dropping False r)"

definition upgradable_guard_arc_drop :: "'l rw \<Rightarrow> 'l rwlock_task" where
  "upgradable_guard_arc_drop r = (case r of RDone lo \<Rightarrow> ReleaseArc lo | _ \<Rightarrow> Dropping True r)"

definition write_guard_drop :: "'l rw \<Rightarrow> 'l rwlock_task" where
  "write_guard_drop r = (case r of RDone lo \<Rightarrow> Finished lo | _ \<Rightarrow> Dropping False r)"

definition write_guard_arc_drop :: "'l rw \<Rightarrow> 'l rwlock_task" where
  "write_guard_arc_drop r = (case r of RDone lo \<Rightarrow> ReleaseArc lo | _ \<Rightarrow> Dropping True r)"

text \<open>\<open>downgrade\<close> and \<open>downgrade_to_upgradable\<close>: the guard is built when the raw lock is downgraded.\<close>

definition upgradable_downgrade :: "'l rw \<Rightarrow> 'l rwlock_task" where
  "upgradable_downgrade r = (case r of RReader lo \<Rightarrow> ReadGuard lo | _ \<Rightarrow> Downgrading False r)"

definition upgradable_downgrade_arc :: "'l rw \<Rightarrow> 'l rwlock_task" where
  "upgradable_downgrade_arc r = (case r of RReader lo \<Rightarrow> ReadGuardArc lo | _ \<Rightarrow> Downgrading True r)"

definition write_downgrade :: "'l rw \<Rightarrow> 'l rwlock_task" where
  "write_downgrade r = (case r of RReader lo \<Rightarrow> ReadGuard lo | _ \<Rightarrow> Downgrading False r)"

definition write_downgrade_arc :: "'l rw \<Rightarrow> 'l rwlock_task" where
  "write_downgrade_arc r = (case r of RReader lo \<Rightarrow> ReadGuardArc lo | _ \<Rightarrow> Downgrading True r)"

definition write_downgrade_to_upgradable :: "'l rw \<Rightarrow> 'l rwlock_task" where
  "write_downgrade_to_upgradable r = (case r of RUpgradable lo \<Rightarrow> UpgradableGuard lo | _ \<Rightarrow> Downgrading False r)"

definition write_downgrade_to_upgradable_arc :: "'l rw \<Rightarrow> 'l rwlock_task" where
  "write_downgrade_to_upgradable_arc r = (case r of RUpgradable lo \<Rightarrow> UpgradableGuardArc lo | _ \<Rightarrow> Downgrading True r)"

text \<open>\<open>try_upgrade\<close>: \<open>Ok(writer)\<close> or \<open>Err(guard)\<close>; \<open>upgrade\<close>: a future.\<close>

definition upgradable_try_upgrade :: "'l rw \<Rightarrow> 'l rwlock_task" where
  "upgradable_try_upgrade r = (case r of RWriter lo \<Rightarrow> WriteGuard lo | RUpgradable lo \<Rightarrow> UpgradableGuard lo | _ \<Rightarrow> Dropping False r)"

definition upgradable_try_upgrade_arc :: "'l rw \<Rightarrow> 'l rwlock_task" where
  "upgradable_try_upgrade_arc r = (case r of RWriter lo \<Rightarrow> WriteGuardArc lo | RUpgradable lo \<Rightarrow> UpgradableGuardArc lo | _ \<Rightarrow> Dropping True r)"

definition upgradable_upgrade :: "'l rw \<Rightarrow> 'l rwlock_task" where
  "upgradable_upgrade r = upgrade_future r"

definition upgradable_upgrade_arc :: "'l rw \<Rightarrow> 'l rwlock_task" where
  "upgradable_upgrade_arc r = upgrade_arc_future r"

text \<open>The guard itself, for an action that leaves it as it is.\<close>

definition as_guard :: "bool \<Rightarrow> 'l rw \<Rightarrow> 'l rwlock_task" where
  "as_guard arc r = (case r of
     RReader lo \<Rightarrow> if arc then ReadGuardArc lo else ReadGuard lo
   | RUpgradable lo \<Rightarrow> if arc then UpgradableGuardArc lo else UpgradableGuard lo
   | RWriter lo \<Rightarrow> if arc then WriteGuardArc lo else WriteGuard lo
   | _ \<Rightarrow> Dropping arc r)"

subsection \<open>The step of an operation\<close>

text \<open>
  An action on the raw lock; \<open>DerefMut\<close> and an assignment through it; the clone or drop of the
  \<open>Arc\<close> that the running operation makes.
\<close>

datatype 'a rwl_in = OnRaw rw_in | SetValue 'a | ArcRun

definition on_raw ::
    "('e, 'l) event_ops \<Rightarrow> rw_in \<Rightarrow> ('e, 'a) rwlock arc \<Rightarrow> 'l rw \<Rightarrow> ('l rw \<Rightarrow> 'l rwlock_task) \<Rightarrow>
     (('e, 'a) rwlock arc \<times> 'l rwlock_task) outcome" where
  "on_raw ev j s r f = map_outcome
     (\<lambda>(x, r'). (s\<lparr>inner := (inner s)\<lparr>raw := x\<rparr>\<rparr>, f r')) (rw_step ev j (raw (inner s)) r)"

text \<open>Which method of a guard a raw action belongs to.\<close>

definition read_method :: "rw_in \<Rightarrow> bool \<Rightarrow> 'l rw \<Rightarrow> 'l rwlock_task" where
  "read_method j arc = (case j of
     RwUnlock \<Rightarrow> if arc then read_guard_arc_drop else read_guard_drop
   | _ \<Rightarrow> as_guard arc)"

definition upgradable_method :: "rw_in \<Rightarrow> bool \<Rightarrow> 'l rw \<Rightarrow> 'l rwlock_task" where
  "upgradable_method j arc = (case j of
     RwUnlock \<Rightarrow> if arc then upgradable_guard_arc_drop else upgradable_guard_drop
   | RwDowngrade \<Rightarrow> if arc then upgradable_downgrade_arc else upgradable_downgrade
   | RwTryUpgrade \<Rightarrow> if arc then upgradable_try_upgrade_arc else upgradable_try_upgrade
   | RwUpgrade \<Rightarrow> if arc then upgradable_upgrade_arc else upgradable_upgrade
   | _ \<Rightarrow> as_guard arc)"

definition write_method :: "rw_in \<Rightarrow> bool \<Rightarrow> 'l rw \<Rightarrow> 'l rwlock_task" where
  "write_method j arc = (case j of
     RwUnlock \<Rightarrow> if arc then write_guard_arc_drop else write_guard_drop
   | RwDowngrade \<Rightarrow> if arc then write_downgrade_arc else write_downgrade
   | RwDowngradeUp \<Rightarrow> if arc then write_downgrade_to_upgradable_arc else write_downgrade_to_upgradable
   | _ \<Rightarrow> as_guard arc)"

text \<open>The remaining actions of a drop or of a downgrade, and the drop of a completed future.\<close>

definition drop_rest :: "bool \<Rightarrow> 'l rw \<Rightarrow> 'l rwlock_task" where
  "drop_rest arc = (if arc then read_guard_arc_drop else read_guard_drop)"

definition downgrade_rest :: "bool \<Rightarrow> 'l rw \<Rightarrow> 'l rwlock_task" where
  "downgrade_rest arc = (if arc then write_downgrade_arc else write_downgrade)"

definition raw_action ::
    "('e, 'l) event_ops \<Rightarrow> rw_in \<Rightarrow> ('e, 'a) rwlock arc \<Rightarrow> 'l rwlock_task \<Rightarrow>
     (('e, 'a) rwlock arc \<times> 'l rwlock_task) outcome" where
  "raw_action ev j s t = (case t of
     TryRead r \<Rightarrow> on_raw ev j s r try_read_poll
   | TryReadArc r \<Rightarrow> on_raw ev j s r try_read_arc_poll
   | TryUpgradableRead r \<Rightarrow> on_raw ev j s r try_upgradable_poll
   | TryUpgradableReadArc r \<Rightarrow> on_raw ev j s r try_upgradable_arc_poll
   | TryWrite r \<Rightarrow> on_raw ev j s r try_write_poll
   | TryWriteArc r \<Rightarrow> on_raw ev j s r try_write_arc_poll
   | Read r \<Rightarrow> on_raw ev j s r read_poll
   | ReadArc r \<Rightarrow> on_raw ev j s r read_arc_poll
   | UpgradableRead r \<Rightarrow> on_raw ev j s r upgradable_read_poll
   | UpgradableReadArc r \<Rightarrow> on_raw ev j s r upgradable_read_arc_poll
   | WriteFut r \<Rightarrow> on_raw ev j s r write_poll
   | WriteArc r \<Rightarrow> on_raw ev j s r write_arc_poll
   | Upgrade r \<Rightarrow> on_raw ev j s r upgrade_poll
   | UpgradeArc r \<Rightarrow> on_raw ev j s r upgrade_arc_drop
   | ReadGuard lo \<Rightarrow> on_raw ev j s (RReader lo) (read_method j False)
   | ReadGuardArc lo \<Rightarrow> on_raw ev j s (RReader lo) (read_method j True)
   | UpgradableGuard lo \<Rightarrow> on_raw ev j s (RUpgradable lo) (upgradable_method j False)
   | UpgradableGuardArc lo \<Rightarrow> on_raw ev j s (RUpgradable lo) (upgradable_method j True)
   | WriteGuard lo \<Rightarrow> on_raw ev j s (RWriter lo) (write_method j False)
   | WriteGuardArc lo \<Rightarrow> on_raw ev j s (RWriter lo) (write_method j True)
   | Dropping arc r \<Rightarrow> on_raw ev j s r (drop_rest arc)
   | Downgrading arc r \<Rightarrow> on_raw ev j s r (downgrade_rest arc)
   | ReleaseArc lo \<Rightarrow> on_raw ev j s (RDone lo) (drop_rest True)
   | Finished lo \<Rightarrow> on_raw ev j s (RDone lo) (drop_rest False)
   | _ \<Rightarrow> Disabled)"

text \<open>\<open>DerefMut\<close> of the write guards: what the client writes.\<close>

definition write_guard_deref_mut :: "'a \<Rightarrow> ('e, 'a) rwlock arc \<Rightarrow> ('e, 'a) rwlock arc" where
  [simp]: "write_guard_deref_mut v s = s\<lparr>inner := (inner s)\<lparr>rvalue := v\<rparr>\<rparr>"

definition write_guard_arc_deref_mut :: "'a \<Rightarrow> ('e, 'a) rwlock arc \<Rightarrow> ('e, 'a) rwlock arc" where
  [simp]: "write_guard_arc_deref_mut v s = s\<lparr>inner := (inner s)\<lparr>rvalue := v\<rparr>\<rparr>"

definition set_value ::
    "'a \<Rightarrow> ('e, 'a) rwlock arc \<Rightarrow> 'l rwlock_task \<Rightarrow> (('e, 'a) rwlock arc \<times> 'l rwlock_task) outcome" where
  "set_value v s t = (case t of
     WriteGuard lo \<Rightarrow> Next (write_guard_deref_mut v s, t)
   | WriteGuardArc lo \<Rightarrow> Next (write_guard_arc_deref_mut v s, t)
   | _ \<Rightarrow> Disabled)"

definition arc_run ::
    "('e, 'a) rwlock arc \<Rightarrow> 'l rwlock_task \<Rightarrow> (('e, 'a) rwlock arc \<times> 'l rwlock_task) outcome" where
  "arc_run s t = (case t of
     ReadArcReady lo \<Rightarrow> Next (arc_clone s, ReadGuardArc lo)
   | UpgradableArcReady lo \<Rightarrow> Next (arc_clone s, UpgradableGuardArc lo)
   | WriteArcReady lo \<Rightarrow> Next (arc_clone s, WriteGuardArc lo)
   | ReleaseArc lo \<Rightarrow> Next (arc_drop s, Finished lo)
   | _ \<Rightarrow> Disabled)"

text \<open>\<open>Deref\<close> of the six guards, and what the client reads through the guard it has.\<close>

definition read_guard_deref :: "('e, 'a) rwlock arc \<Rightarrow> 'a" where
  [simp]: "read_guard_deref s = rvalue (inner s)"

definition read_guard_arc_deref :: "('e, 'a) rwlock arc \<Rightarrow> 'a" where
  [simp]: "read_guard_arc_deref s = rvalue (inner s)"

definition upgradable_guard_deref :: "('e, 'a) rwlock arc \<Rightarrow> 'a" where
  [simp]: "upgradable_guard_deref s = rvalue (inner s)"

definition upgradable_guard_arc_deref :: "('e, 'a) rwlock arc \<Rightarrow> 'a" where
  [simp]: "upgradable_guard_arc_deref s = rvalue (inner s)"

definition write_guard_deref :: "('e, 'a) rwlock arc \<Rightarrow> 'a" where
  [simp]: "write_guard_deref s = rvalue (inner s)"

definition write_guard_arc_deref :: "('e, 'a) rwlock arc \<Rightarrow> 'a" where
  [simp]: "write_guard_arc_deref s = rvalue (inner s)"

definition guard_deref :: "('e, 'a) rwlock arc \<Rightarrow> 'l rwlock_task \<Rightarrow> 'a option" where
  "guard_deref s t = (case t of
     ReadGuard lo \<Rightarrow> Some (read_guard_deref s) | ReadGuardArc lo \<Rightarrow> Some (read_guard_arc_deref s)
   | UpgradableGuard lo \<Rightarrow> Some (upgradable_guard_deref s)
   | UpgradableGuardArc lo \<Rightarrow> Some (upgradable_guard_arc_deref s)
   | WriteGuard lo \<Rightarrow> Some (write_guard_deref s) | WriteGuardArc lo \<Rightarrow> Some (write_guard_arc_deref s)
   | _ \<Rightarrow> None)"

text \<open>Whether the operation owns an \<open>Arc\<close>; otherwise, until it is finished, it borrows a handle.\<close>

definition owns_arc :: "'l rwlock_task \<Rightarrow> bool" where
  "owns_arc t = (case t of
     ReadGuardArc lo \<Rightarrow> True | UpgradableGuardArc lo \<Rightarrow> True | WriteGuardArc lo \<Rightarrow> True
   | UpgradeArc r \<Rightarrow> True | ReleaseArc lo \<Rightarrow> True
   | Dropping arc r \<Rightarrow> arc | Downgrading arc r \<Rightarrow> arc | _ \<Rightarrow> False)"

definition finished :: "'l rwlock_task \<Rightarrow> bool" where
  "finished t = (case t of Finished lo \<Rightarrow> True | _ \<Rightarrow> False)"

definition rwlock_entry :: "'l rwlock_task \<Rightarrow> bool" where
  "rwlock_entry t \<longleftrightarrow> t = rwlock_try_read \<or> t = rwlock_try_read_arc \<or> t = rwlock_read \<or>
     t = rwlock_read_arc \<or> t = rwlock_try_upgradable_read \<or> t = rwlock_try_upgradable_read_arc \<or>
     t = rwlock_upgradable_read \<or> t = rwlock_upgradable_read_arc \<or> t = rwlock_try_write \<or>
     t = rwlock_try_write_arc \<or> t = rwlock_write \<or> t = rwlock_write_arc"

definition rwlock_task_step ::
    "('e, 'l) event_ops \<Rightarrow> 'a rwl_in \<Rightarrow> ('e, 'a) rwlock arc \<Rightarrow> 'l rwlock_task \<Rightarrow>
     (('e, 'a) rwlock arc \<times> 'l rwlock_task) outcome" where
  "rwlock_task_step ev i s t = (case i of
     OnRaw j \<Rightarrow> raw_action ev j s t
   | SetValue v \<Rightarrow> set_value v s t
   | ArcRun \<Rightarrow> arc_run s t)"

definition rwlock_refs :: "'l rwlock_task \<Rightarrow> nat" where
  "rwlock_refs t = of_bool (owns_arc t)"

definition rwlock_start :: "('e \<Rightarrow> bool) \<Rightarrow> ('e, 'a) rwlock \<Rightarrow> bool" where
  "rwlock_start new_event l \<longleftrightarrow> (\<exists>e e1 e2 v. new_event e \<and> new_event e1 \<and> new_event e2 \<and>
     l = rwlock_new e e1 e2 v)"

text \<open>The whole: clients of a lock in an \<open>Arc\<close>.\<close>

abbreviation rwlock_step ::
    "('e, 'l) event_ops \<Rightarrow> 'a rwl_in arc_in \<Rightarrow> ('e, 'a) rwlock arc \<Rightarrow> 'l rwlock_task client \<Rightarrow>
     (('e, 'a) rwlock arc \<times> 'l rwlock_task client) outcome" where
  "rwlock_step ev \<equiv> arc_step (rwlock_task_step ev) rwlock_refs finished rwlock_entry"

end
