(* ===== verification/RwLock_Props.thy ===== *)
theory RwLock_Props
  imports RwLock RawRwLock_Props
begin

text \<open>
  The reader-writer lock with its value contains the raw lock (\<open>arc_component\<close>), so the
  properties of \<open>RawRwLock\<close> hold for it. From them: the value does not change under a guard, except
  through it. Then the reference count: it is exact, and the lock is freed only when it is unlocked.
\<close>

subsection \<open>The raw lock inside\<close>

definition raw_of :: "'l rwlock_task \<Rightarrow> 'l rw" where
  "raw_of t = (case t of
     TryRead r \<Rightarrow> r | TryReadArc r \<Rightarrow> r | TryUpgradableRead r \<Rightarrow> r | TryUpgradableReadArc r \<Rightarrow> r
   | TryWrite r \<Rightarrow> r | TryWriteArc r \<Rightarrow> r | Read r \<Rightarrow> r | ReadArc r \<Rightarrow> r | UpgradableRead r \<Rightarrow> r
   | UpgradableReadArc r \<Rightarrow> r | WriteFut r \<Rightarrow> r | WriteArc r \<Rightarrow> r | Upgrade r \<Rightarrow> r | UpgradeArc r \<Rightarrow> r
   | ReadArcReady lo \<Rightarrow> RReader lo | ReadGuard lo \<Rightarrow> RReader lo | ReadGuardArc lo \<Rightarrow> RReader lo
   | UpgradableArcReady lo \<Rightarrow> RUpgradable lo | UpgradableGuard lo \<Rightarrow> RUpgradable lo
   | UpgradableGuardArc lo \<Rightarrow> RUpgradable lo
   | WriteArcReady lo \<Rightarrow> RWriter lo | WriteGuard lo \<Rightarrow> RWriter lo | WriteGuardArc lo \<Rightarrow> RWriter lo
   | Dropping arc r \<Rightarrow> r | Downgrading arc r \<Rightarrow> r
   | ReleaseArc lo \<Rightarrow> RDone lo | Finished lo \<Rightarrow> RDone lo)"

lemma raw_of_simps [simp]:
  "raw_of (TryRead r) = r" "raw_of (TryReadArc r) = r" "raw_of (TryUpgradableRead r) = r"
  "raw_of (TryUpgradableReadArc r) = r" "raw_of (TryWrite r) = r" "raw_of (TryWriteArc r) = r"
  "raw_of (Read r) = r" "raw_of (ReadArc r) = r" "raw_of (UpgradableRead r) = r"
  "raw_of (UpgradableReadArc r) = r" "raw_of (WriteFut r) = r" "raw_of (WriteArc r) = r"
  "raw_of (Upgrade r) = r" "raw_of (UpgradeArc r) = r"
  "raw_of (ReadArcReady lo) = RReader lo" "raw_of (ReadGuard lo) = RReader lo"
  "raw_of (ReadGuardArc lo) = RReader lo" "raw_of (UpgradableArcReady lo) = RUpgradable lo"
  "raw_of (UpgradableGuard lo) = RUpgradable lo" "raw_of (UpgradableGuardArc lo) = RUpgradable lo"
  "raw_of (WriteArcReady lo) = RWriter lo" "raw_of (WriteGuard lo) = RWriter lo"
  "raw_of (WriteGuardArc lo) = RWriter lo" "raw_of (Dropping arc r) = r"
  "raw_of (Downgrading arc r) = r" "raw_of (ReleaseArc lo) = RDone lo" "raw_of (Finished lo) = RDone lo"
  by (simp_all add: raw_of_def)

lemmas method_defs =
  read_guard_drop_def read_guard_arc_drop_def upgradable_guard_drop_def
  upgradable_guard_arc_drop_def write_guard_drop_def write_guard_arc_drop_def
  upgradable_downgrade_def upgradable_downgrade_arc_def write_downgrade_def
  write_downgrade_arc_def write_downgrade_to_upgradable_def write_downgrade_to_upgradable_arc_def
  upgradable_try_upgrade_def upgradable_try_upgrade_arc_def upgradable_upgrade_def
  upgradable_upgrade_arc_def drop_rest_def downgrade_rest_def as_guard_def

lemmas poll_defs = try_read_poll_def try_read_arc_poll_def try_upgradable_poll_def
  try_upgradable_arc_poll_def try_write_poll_def try_write_arc_poll_def read_poll_def
  read_arc_poll_def upgradable_read_poll_def upgradable_read_arc_poll_def write_poll_def
  write_arc_poll_def upgrade_poll_def upgrade_arc_drop_def upgrade_arc_poll_def

lemma poll_raw_of [simp]:
  "raw_of (try_read_poll r) = r" "raw_of (try_read_arc_poll r) = r"
  "raw_of (try_upgradable_poll r) = r" "raw_of (try_upgradable_arc_poll r) = r"
  "raw_of (try_write_poll r) = r" "raw_of (try_write_arc_poll r) = r" "raw_of (read_poll r) = r"
  "raw_of (read_arc_poll r) = r" "raw_of (upgradable_read_poll r) = r"
  "raw_of (upgradable_read_arc_poll r) = r" "raw_of (write_poll r) = r"
  "raw_of (write_arc_poll r) = r" "raw_of (upgrade_poll r) = r" "raw_of (upgrade_arc_drop r) = r"
  by (simp_all add: poll_defs split: rw.split)

lemma method_raw_of [simp]:
  "raw_of (read_guard_drop r) = r" "raw_of (read_guard_arc_drop r) = r"
  "raw_of (upgradable_guard_drop r) = r" "raw_of (upgradable_guard_arc_drop r) = r"
  "raw_of (write_guard_drop r) = r" "raw_of (write_guard_arc_drop r) = r"
  "raw_of (upgradable_downgrade r) = r" "raw_of (upgradable_downgrade_arc r) = r"
  "raw_of (write_downgrade r) = r" "raw_of (write_downgrade_arc r) = r"
  "raw_of (write_downgrade_to_upgradable r) = r"
  "raw_of (write_downgrade_to_upgradable_arc r) = r" "raw_of (upgradable_try_upgrade r) = r"
  "raw_of (upgradable_try_upgrade_arc r) = r" "raw_of (upgradable_upgrade r) = r"
  "raw_of (upgradable_upgrade_arc r) = r" "raw_of (drop_rest arc r) = r"
  "raw_of (downgrade_rest arc r) = r" "raw_of (as_guard arc r) = r"
  by (simp_all add: method_defs split: rw.split)

lemma guard_method_raw_of [simp]:
  "raw_of (read_method j arc r) = r" "raw_of (upgradable_method j arc r) = r"
  "raw_of (write_method j arc r) = r"
  by (simp_all add: read_method_def upgradable_method_def write_method_def split: rw_in.split)

lemma on_raw_Next:
  "on_raw ev j s r f = Next (s', t') \<longleftrightarrow>
     (\<exists>x r'. rw_step ev j (raw (inner s)) r = Next (x, r') \<and>
       s' = s\<lparr>inner := (inner s)\<lparr>raw := x\<rparr>\<rparr> \<and> t' = f r')"
  by (auto simp: on_raw_def map_outcome_Next_iff)

lemma raw_action_step:
  assumes "raw_action ev j s t = Next (s', t')"
  shows "rw_step ev j (raw (inner s)) (raw_of t) = Next (raw (inner s'), raw_of t')"
    and "rvalue (inner s') = rvalue (inner s)" "strong s' = strong s" "root s' = root s"
  using assms by (auto simp: raw_action_def on_raw_Next split: rwlock_task.splits)

lemma set_value_step:
  assumes "set_value v s t = Next (s', t')"
  shows "t' = t" "\<exists>lo. raw_of t = RWriter lo" "raw (inner s') = raw (inner s)" "strong s' = strong s"
    "root s' = root s" "rvalue (inner s') = v"
  using assms by (auto simp: set_value_def split: rwlock_task.splits)

lemma arc_run_step:
  assumes "arc_run s t = Next (s', t')"
  shows "raw_of t' = raw_of t" "inner s' = inner s" "root s' = root s"
  using assms by (auto simp: arc_run_def arc_clone_def arc_drop_def split: rwlock_task.splits)

definition client_raw :: "'l rwlock_task client \<Rightarrow> 'l rw" where
  "client_raw c = raw_of (oper c)"

text \<open>The value changes only by an assignment through a write guard.\<close>

lemma rwlock_step_value:
  assumes "rwlock_step ev i s c = Next (s', c')" and "rvalue (inner s') \<noteq> rvalue (inner s)"
  shows "\<exists>lo. client_raw c = RWriter lo"
  using assms
  by (cases rule: arc_step_cases)
     (auto simp: rwlock_task_step_def client_raw_def
       dest: raw_action_step(2) set_value_step(2) arc_run_step(2) split: rwl_in.splits)

lemmas entry_defs = rwlock_entry_def rwlock_try_read_def rwlock_try_read_arc_def rwlock_read_def
  rwlock_read_arc_def rwlock_try_upgradable_read_def rwlock_try_upgradable_read_arc_def
  rwlock_upgradable_read_def rwlock_upgradable_read_arc_def rwlock_try_write_def
  rwlock_try_write_arc_def rwlock_write_def rwlock_write_arc_def

lemma entry_raw: "rwlock_entry t \<Longrightarrow> rw_fresh (raw_of t)"
  by (auto simp: entry_defs rw_fresh_def)

lemma rwlock_task_raw:
  assumes "rwlock_task_step ev i s t = Next (s', t')"
  shows "raw (inner s') = raw (inner s) \<and> raw_of t' = raw_of t \<or>
    (\<exists>j. rw_step ev j (raw (inner s)) (raw_of t) = Next (raw (inner s'), raw_of t'))"
  using assms
  by (auto simp: rwlock_task_step_def dest: raw_action_step(1) set_value_step arc_run_step
      split: rwl_in.splits)

abbreviation rwl_reachable ::
    "('e, 'l) event_ops \<Rightarrow> ('e \<Rightarrow> bool) \<Rightarrow> (('e, 'a) rwlock arc, 'l rwlock_task client) sys \<Rightarrow> bool" where
  "rwl_reachable ev new_event \<equiv>
     reachable (rwlock_step ev) (client_fresh rwlock_entry) (arc_start (rwlock_start new_event))"

subsection \<open>The reference count\<close>

lemma poll_owns [simp]:
  "owns_arc (try_read_poll r) = False" "owns_arc (try_read_arc_poll r) = False"
  "owns_arc (try_upgradable_poll r) = False" "owns_arc (try_upgradable_arc_poll r) = False"
  "owns_arc (try_write_poll r) = False" "owns_arc (try_write_arc_poll r) = False"
  "owns_arc (read_poll r) = False" "owns_arc (read_arc_poll r) = False"
  "owns_arc (upgradable_read_poll r) = False" "owns_arc (upgradable_read_arc_poll r) = False"
  "owns_arc (write_poll r) = False" "owns_arc (write_arc_poll r) = False"
  "owns_arc (upgrade_poll r) = False" "owns_arc (upgrade_arc_drop r) = True"
  by (simp_all add: poll_defs owns_arc_def split: rw.split)

lemma method_owns [simp]:
  "owns_arc (read_guard_drop r) = False" "owns_arc (read_guard_arc_drop r) = True"
  "owns_arc (upgradable_guard_drop r) = False" "owns_arc (upgradable_guard_arc_drop r) = True"
  "owns_arc (write_guard_drop r) = False" "owns_arc (write_guard_arc_drop r) = True"
  "owns_arc (upgradable_downgrade r) = False" "owns_arc (upgradable_downgrade_arc r) = True"
  "owns_arc (write_downgrade r) = False" "owns_arc (write_downgrade_arc r) = True"
  "owns_arc (write_downgrade_to_upgradable r) = False"
  "owns_arc (write_downgrade_to_upgradable_arc r) = True"
  "owns_arc (upgradable_try_upgrade r) = False" "owns_arc (upgradable_try_upgrade_arc r) = True"
  "owns_arc (upgradable_upgrade r) = False" "owns_arc (upgradable_upgrade_arc r) = True"
  "owns_arc (drop_rest arc r) = arc" "owns_arc (downgrade_rest arc r) = arc"
  "owns_arc (as_guard arc r) = arc"
  by (simp_all add: method_defs owns_arc_def split: rw.split)

lemma guard_method_owns [simp]:
  "owns_arc (read_method j arc r) = arc" "owns_arc (upgradable_method j arc r) = arc"
  "owns_arc (write_method j arc r) = arc"
  by (simp_all add: read_method_def upgradable_method_def write_method_def split: rw_in.split)

lemma done_step: "rw_step ev j s (RDone lo) = Next (s', r') \<Longrightarrow> \<exists>lo'. r' = RDone lo'"
  by (auto simp: rw_step_def drop_left_def Let_def split: rw_in.splits if_splits)

lemma owns_arc_simps [simp]:
  "owns_arc (TryRead r) = False" "owns_arc (TryReadArc r) = False"
  "owns_arc (TryUpgradableRead r) = False" "owns_arc (TryUpgradableReadArc r) = False"
  "owns_arc (TryWrite r) = False" "owns_arc (TryWriteArc r) = False" "owns_arc (Read r) = False"
  "owns_arc (ReadArc r) = False" "owns_arc (UpgradableRead r) = False"
  "owns_arc (UpgradableReadArc r) = False" "owns_arc (WriteFut r) = False"
  "owns_arc (WriteArc r) = False" "owns_arc (Upgrade r) = False" "owns_arc (UpgradeArc r)"
  "owns_arc (ReadArcReady lo) = False" "owns_arc (UpgradableArcReady lo) = False"
  "owns_arc (WriteArcReady lo) = False" "owns_arc (ReadGuard lo) = False"
  "owns_arc (UpgradableGuard lo) = False" "owns_arc (WriteGuard lo) = False"
  "owns_arc (Finished lo) = False" "owns_arc (ReadGuardArc lo)"
  "owns_arc (UpgradableGuardArc lo)" "owns_arc (WriteGuardArc lo)" "owns_arc (ReleaseArc lo)"
  "owns_arc (Dropping arc r) = arc" "owns_arc (Downgrading arc r) = arc"
  by (simp_all add: owns_arc_def)

lemma raw_action_owns: "raw_action ev j s t = Next (s', t') \<Longrightarrow> owns_arc t' = owns_arc t"
  by (cases t) (auto simp: raw_action_def on_raw_Next)

lemma raw_action_finished:
  "raw_action ev j s t = Next (s', t') \<Longrightarrow> finished t \<Longrightarrow> finished t'"
  by (auto simp: raw_action_def on_raw_Next finished_def drop_rest_def
      read_guard_drop_def read_guard_arc_drop_def dest!: done_step
      split: rwlock_task.splits)

lemma entry_not_owning: "rwlock_entry t \<Longrightarrow> \<not> owns_arc t"
  by (auto simp: entry_defs)

lemma arc_run_owns:
  assumes "arc_run s t = Next (s', t')"
  shows "\<not> owns_arc t \<and> owns_arc t' \<and> strong s' = strong s + 1 \<and> \<not> finished t \<or>
    owns_arc t \<and> \<not> owns_arc t' \<and> strong s' = strong s - 1 \<and> finished t'"
  using assms by (auto simp: arc_run_def arc_clone_def arc_drop_def finished_def split: rwlock_task.splits)

lemma rwlock_task_refs:
  assumes "rwlock_task_step ev i s t = Next (s', t')" and "rwlock_refs t \<le> strong s"
  shows "strong s' + rwlock_refs t = strong s + rwlock_refs t'"
  using assms
  by (auto simp: rwlock_task_step_def rwlock_refs_def
      dest: raw_action_owns raw_action_step(3) set_value_step(1,4) arc_run_owns split: rwl_in.splits)

lemma rwlock_task_over:
  assumes "rwlock_task_step ev i s t = Next (s', t')"
    and "finished t \<or> 0 < rwlock_refs t \<and> rwlock_refs t' = 0"
  shows "finished t'"
  using assms
  by (auto simp: rwlock_task_step_def rwlock_refs_def
      dest: raw_action_owns raw_action_finished set_value_step(1) arc_run_owns split: rwl_in.splits)

interpretation rwl: arc_component "rwlock_task_step ev" rwlock_refs finished rwlock_entry
    "rwlock_start new_event" "rw_step ev" rw_fresh "rw_start new_event" raw raw_of
  for ev :: "('e, 'l) event_ops" and new_event
proof
  show "rwlock_entry t \<Longrightarrow> rwlock_refs t = 0" for t :: "'l rwlock_task"
    by (simp add: rwlock_refs_def entry_not_owning)
  show "rwlock_task_step ev i s t = Next (s', t') \<Longrightarrow> root s' = root s"
    for i and s s' :: "('e, 'a) rwlock arc" and t t'
    by (auto simp: rwlock_task_step_def dest: raw_action_step(4) set_value_step(5) arc_run_step(3)
        split: rwl_in.splits)
  show "rwlock_start new_event l \<Longrightarrow> rw_start new_event (raw l)" for l :: "('e, 'a) rwlock"
    by (auto simp: rwlock_start_def rw_start_def rwlock_new_def raw_new_def mutex_new_def mutex_start_def)
qed (auto intro: rwlock_task_refs rwlock_task_over entry_raw dest: rwlock_task_raw)

subsection \<open>A concrete run\<close>

lemmas rwl_run_simps = arc_run_simps rwlock_task_step_def rwlock_refs_def raw_action_def on_raw_def arc_run_def
  arc_clone_def arc_drop_def set_value_def finished_def rwlock_entry_def
  read_arc_poll_def upgradable_read_arc_poll_def upgrade_arc_drop_def upgrade_arc_poll_def
  read_method_def upgradable_method_def method_defs entry_defs

definition demo_arc :: "(qevent, nat) rwlock arc" where
  "demo_arc = \<lparr>inner = rwlock_new [] [] [] 7, strong = 1, root = True\<rparr>"

lemma demo_arc_start: "arc_start (rwlock_start (fresh_event queue_view)) demo_arc"
  unfolding arc_start_def rwlock_start_def demo_arc_def
  by (simp add: fresh_event_def queue_view_def)
     (rule exI [of _ "[]"], simp, rule exI [of _ "[]"], simp, rule exI [of _ "[]"], auto)

text \<open>
  Client 0 has a \<open>RwLockReadGuardArc\<close>, client 1 an \<open>UpgradeArc\<close> that waits for it. All handles are
  dropped; the guard and the future keep the lock alive.
\<close>

definition demo_kept :: "((qevent, nat) rwlock arc, nat rwlock_task client) sys" where
  "demo_kept =
     \<lparr>shared = \<lparr>inner = \<lparr>raw = \<lparr>rmutex = \<lparr>mstate = 1, lock_ops = [], mdata = ()\<rparr>,
          no_readers = [Some False], no_writer = [], rstate = 3\<rparr>, rvalue = 7\<rparr>, strong = 2, root = False\<rparr>,
      tasks = [\<lparr>handle = False, oper = ReadGuardArc []\<rparr>,
        \<lparr>handle = False, oper = UpgradeArc (RUpgrade DrSleep (Some 0) [])\<rparr>]\<rparr>"

abbreviation run_raw :: "nat \<Rightarrow> (nat rwl_in arc_in, nat rwlock_task client) sched" where
  "run_raw k \<equiv> Act k (Do (OnRaw (RwRun 0)))"

lemma demo_kept_run:
  "exec (rwlock_step queue_events) (client_fresh rwlock_entry)
     [Spawn (client_new rwlock_read_arc), Act 0 GetHandle, run_raw 0, Act 0 (Do (OnRaw (RwPoll 0))), run_raw 0,
      Act 0 (Do ArcRun), Act 0 DropHandle,
      Spawn (client_new rwlock_upgradable_read_arc), Act 1 GetHandle, Act 1 (Do (OnRaw (RwPoll 0))),
      run_raw 1, run_raw 1, run_raw 1, Act 1 (Do ArcRun), Act 1 DropHandle, Act 0 DropRoot,
      Act 1 (Do (OnRaw RwUpgrade)), Act 1 (Do (OnRaw (RwPoll 0))), run_raw 1, run_raw 1, run_raw 1, run_raw 1]
     \<lparr>shared = demo_arc, tasks = []\<rparr> = Next demo_kept"
  by (simp add: rw_run_simps rwl_run_simps client_new_def demo_arc_def rwlock_new_def demo_kept_def)

lemma demo_kept_reachable: "rwl_reachable queue_events (fresh_event queue_view) demo_kept"
  by (rule exec_reachable_init [where start = "arc_start (rwlock_start (fresh_event queue_view))",
      OF demo_arc_start demo_kept_run])

text \<open>The future is dropped, then the guard: the lock is freed.\<close>

definition demo_freed :: "((qevent, nat) rwlock arc, nat rwlock_task client) sys" where
  "demo_freed =
     \<lparr>shared = \<lparr>inner = \<lparr>raw = \<lparr>rmutex = \<lparr>mstate = 0, lock_ops = [], mdata = ()\<rparr>,
          no_readers = [None], no_writer = [], rstate = 0\<rparr>, rvalue = 7\<rparr>, strong = 0, root = False\<rparr>,
      tasks = [\<lparr>handle = False, oper = Finished []\<rparr>, \<lparr>handle = False, oper = Finished []\<rparr>]\<rparr>"

lemma demo_freed_run:
  "exec (rwlock_step queue_events) (client_fresh rwlock_entry)
     [Act 1 (Do (OnRaw RwCancel)), run_raw 1, run_raw 1, run_raw 1, Act 1 (Do (OnRaw (RwDropFut 0))), Act 1 (Do ArcRun),
      Act 0 (Do (OnRaw RwUnlock)), run_raw 0, Act 0 (Do ArcRun)]
     demo_kept = Next demo_freed"
  by (simp add: rw_run_simps rwl_run_simps demo_kept_def demo_freed_def)

lemma demo_freed_reachable: "rwl_reachable queue_events (fresh_event queue_view) demo_freed"
  by (rule exec_reachable [OF demo_freed_run demo_kept_reachable])

subsection \<open>Properties\<close>

definition reading :: "'l rwlock_task client \<Rightarrow> bool" where
  "reading c \<longleftrightarrow> role (client_raw c) = Rd \<or> role (client_raw c) = Up"

lemma writer_excludes_reading:
  assumes reach: "rwl_reachable ev new_event S" and k: "k < length (tasks S)" "reading (tasks S ! k)"
    and j: "j < length (tasks S)"
    and step: "rwlock_step ev i (shared S) (tasks S ! j) = Next (s', c')"
  shows "rvalue (inner s') = rvalue (inner (shared S))"
proof (rule ccontr)
  assume "rvalue (inner s') \<noteq> rvalue (inner (shared S))"
  from rwlock_step_value [OF step this] obtain lo where lo: "client_raw (tasks S ! j) = RWriter lo" ..
  with k(2) have "j \<noteq> k" by (auto simp: reading_def)
  from writer_alone [OF rwl.comp.reachable_inv [OF reach], of k j lo] k(1) j lo this
  have "role (client_raw (tasks S ! k)) = Idle" by (simp add: client_raw_def)
  with k(2) show False by (simp add: reading_def)
qed

text \<open>
  C38: a reader sees a snapshot. From any reachable state, as long as client \<open>k\<close> has a read guard or
  an upgradable read guard (borrowed or reference-counted), no sequence of steps of any clients
  changes the value behind the lock, and its guard still dereferences to that value.
\<close>

theorem rwlock_snapshot:
  assumes "rwl_reachable ev new_event S" and "k < length (tasks S)"
    and "(\<lambda>T U. sys_step (rwlock_step ev) (client_fresh rwlock_entry) T U \<and> reading (tasks T ! k))\<^sup>*\<^sup>* S S'"
  shows "rvalue (inner (shared S')) = rvalue (inner (shared S)) \<and>
    guard_deref (shared S') (oper (tasks S' ! k)) \<in> {None, Some (rvalue (inner (shared S)))}"
proof -
  have "rwl_reachable ev new_event S' \<and> k < length (tasks S') \<and>
      rvalue (inner (shared S')) = rvalue (inner (shared S))"
    using assms(3)
  proof (induction rule: rtranclp_induct)
    case base
    with assms(1,2) show ?case by simp
  next
    case (step T U)
    then have T: "rwl_reachable ev new_event T" "k < length (tasks T)" and read: "reading (tasks T ! k)"
      and act: "sys_step (rwlock_step ev) (client_fresh rwlock_entry) T U"
      and same: "rvalue (inner (shared T)) = rvalue (inner (shared S))" by simp_all
    from act have "k < length (tasks U) \<and> rvalue (inner (shared U)) = rvalue (inner (shared T))"
    proof (rule sys_stepE)
      fix j i s' c'
      assume U: "U = \<lparr>shared = s', tasks = (tasks T)[j := c']\<rparr>" and j: "j < length (tasks T)"
        and step: "rwlock_step ev i (shared T) (tasks T ! j) = Next (s', c')"
      from writer_excludes_reading [OF T read j step] T(2) U show ?thesis by simp
    qed (use T(2) in simp)
    with same reachable.step [OF T(1) act] show ?case by simp
  qed
  then show ?thesis by (simp add: guard_deref_def split: rwlock_task.split)
qed

theorem rwlock_snapshot_witness:
  "\<exists>S'. sys_step (rwlock_step queue_events) (client_fresh rwlock_entry) demo_kept S' \<and>
     guard_deref (shared S') (oper (tasks S' ! 0)) = Some 7"
proof -
  let ?S' = "demo_kept\<lparr>tasks := tasks demo_kept @ [client_new rwlock_write]\<rparr>"
  have step: "sys_step (rwlock_step queue_events) (client_fresh rwlock_entry) demo_kept ?S'"
    by (rule sys_step.spawn) (simp add: client_new_def client_fresh_def rwlock_entry_def)
  have "reading (tasks demo_kept ! 0)" by (simp add: demo_kept_def reading_def client_raw_def)
  with step have "(\<lambda>T U. sys_step (rwlock_step queue_events) (client_fresh rwlock_entry) T U \<and> reading (tasks T ! 0))\<^sup>*\<^sup>* demo_kept ?S'"
    by (intro r_into_rtranclp) simp
  from rwlock_snapshot [OF demo_kept_reachable _ this] step show ?thesis
    by (auto simp: demo_kept_def guard_deref_def)
qed

text \<open>How many operations own an \<open>Arc\<close>, and what is left when nobody does.\<close>

lemma owners_card: "wsum (\<lambda>c. rwlock_refs (oper c)) cs = card (indices (\<lambda>c. owns_arc (oper c)) cs)"
  unfolding card_indices by (rule wsum_cong) (simp add: rwlock_refs_def)

lemma freed_idle:
  assumes reach: "rwl_reachable ev new_event S" and freed: "strong (shared S) = 0" and c: "c \<in> set (tasks S)"
  shows "role (client_raw c) = Idle \<and> rw_starved (client_raw c) = 0"
  using rwl.freed(4) [OF reach freed c] unfolding client_raw_def
proof
  assume "finished (oper c)"
  then show "role (raw_of (oper c)) = Idle \<and> rw_starved (raw_of (oper c)) = 0"
    by (auto simp: finished_def split: rwlock_task.splits)
next
  assume "rwlock_entry (oper c)"
  then have "rw_fresh (raw_of (oper c))" by (rule entry_raw)
  then show "role (raw_of (oper c)) = Idle \<and> rw_starved (raw_of (oper c)) = 0"
    by (auto simp: rw_fresh_def lock_role_def lock_owner_def lock_starved_def)
qed

lemma freed_state:
  assumes reach: "rwl_reachable ev new_event S" and freed: "strong (shared S) = 0"
  shows "rstate (raw (inner (shared S))) = 0" and "mstate (rmutex (raw (inner (shared S)))) = 0"
proof -
  have "totals rw_wt (map (\<lambda>c. raw_of (oper c)) (tasks S)) key = 0" for key
    using totals_pos_iff [of rw_wt "map (\<lambda>c. raw_of (oper c)) (tasks S)" key] freed_idle [OF reach freed]
    by (cases key) (auto simp: rw_wt_def client_raw_def)
  with reachable_rw_ok [OF rwl.comp.reachable_inv [OF reach]]
  have "rw_ok (raw (inner (shared S))) 0 0 0 0 0 0 0" by simp
  then show "rstate (raw (inner (shared S))) = 0" and "mstate (rmutex (raw (inner (shared S)))) = 0"
    by (simp_all add: rw_ok_def mutex_ok_def usize_eq_iff)
qed

text \<open>
  C40: the reference count is exact, and the lock is freed only when nobody uses it. The count is the
  number of the creator's handle, the clients' handles, and the operations that own an \<open>Arc\<close> (the
  reference-counted guards and \<open>UpgradeArc\<close>, also while they are dropped or turned into one another;
  \<open>UpgradeArc\<close> passes its \<open>Arc\<close> on exactly once). When it is zero, no client has a guard or a running
  operation, the state word of the lock is zero and its mutex is unlocked.
\<close>

theorem rwlock_arc_freed:
  assumes reach: "rwl_reachable ev new_event S"
  shows "strong (shared S) = of_bool (root (shared S)) + card (indices handle (tasks S)) +
      card (indices (\<lambda>c. owns_arc (oper c)) (tasks S)) \<and>
    (strong (shared S) = 0 \<longrightarrow>
      {k. k < length (tasks S) \<and> role (client_raw (tasks S ! k)) \<noteq> Idle} = {} \<and>
      rstate (raw (inner (shared S))) = 0 \<and> mstate (rmutex (raw (inner (shared S)))) = 0)"
  using rwl.strong_exact [OF reach] owners_card [of "tasks S"] freed_state [OF reach]
    freed_idle [OF reach]
  by auto

theorem rwlock_arc_freed_witness:
  "rstate (raw (inner (shared demo_freed))) = 0 \<and> mstate (rmutex (raw (inner (shared demo_freed)))) = 0 \<and>
   card (indices (\<lambda>c. owns_arc (oper c)) (tasks demo_kept)) = strong (shared demo_kept)"
proof -
  have "indices handle (tasks demo_kept) = {}" by (simp add: indices_empty_iff demo_kept_def)
  with rwlock_arc_freed [OF demo_freed_reachable] rwlock_arc_freed [OF demo_kept_reachable]
  show ?thesis by (simp add: demo_freed_def demo_kept_def)
qed

subsection \<open>Errors\<close>

text \<open>No action of a client panics, with any of the futures and guards.\<close>

lemma rwlock_step_no_panic:
  assumes "rwl_reachable ev new_event S" and "k < length (tasks S)"
  shows "rwlock_step ev i (shared S) (tasks S ! k) \<noteq> Panic"
proof (rule arc_step_no_panic)
  from rwlock_never_panics [OF rwl.comp.reachable_inv [OF assms(1)], of k] assms(2)
  have "rw_step ev j (raw (inner (shared S))) (raw_of (oper (tasks S ! k))) \<noteq> Panic" for j by simp
  then show "rwlock_task_step ev j (shared S) (oper (tasks S ! k)) \<noteq> Panic" for j
    by (cases "oper (tasks S ! k)")
       (auto simp: rwlock_task_step_def raw_action_def set_value_def arc_run_def on_raw_def split: rwl_in.split)
qed

end
