(* ===== verification/OnceCell.thy ===== *)
theory OnceCell
  imports Interleaving Event_Interface
begin

text \<open>
  \<^verbatim>\<open>src/once_cell.rs\<close>: a cell that is written at most once.

  A task is one call of a shared method; the futures of the \<open>async fn\<close>s are state machines whose
  program points are the accesses to shared memory and the points where they are suspended. The
  memory of the value is an option: \<open>None\<close> is uninitialised memory, and reading it
  (\<open>get_unchecked\<close>) is what the safety properties exclude.

  The methods that need \<open>&mut self\<close> cannot run next to a task; they are functions on the cell.
\<close>

subsection \<open>The cell\<close>

datatype cell_state = Uninitialized | Initializing | Initialized

text \<open>\<open>From<State> for usize\<close> and \<open>From<usize> for State\<close>; \<open>None\<close> is \<open>unreachable!\<close>.\<close>

definition state_word :: "cell_state \<Rightarrow> usize" where
  "state_word st = (case st of Uninitialized \<Rightarrow> 0 | Initializing \<Rightarrow> 1 | Initialized \<Rightarrow> 2)"

definition state_from :: "usize \<Rightarrow> cell_state option" where
  "state_from w =
     (if w = 0 then Some Uninitialized
      else if w = 1 then Some Initializing
      else if w = 2 then Some Initialized
      else None)"

record ('e, 'a) once_cell =
  active_initializers :: 'e
  passive_waiters :: 'e
  ostate :: usize
  ovalue :: "'a option"

definition once_new :: "'e \<Rightarrow> 'e \<Rightarrow> ('e, 'a) once_cell" where
  "once_new e1 e2 = \<lparr>active_initializers = e1, passive_waiters = e2,
     ostate = state_word Uninitialized, ovalue = None\<rparr>"

definition once_default :: "'e \<Rightarrow> 'e \<Rightarrow> ('e, 'a) once_cell" where
  [simp]: "once_default e1 e2 = once_new e1 e2"

definition once_from :: "'e \<Rightarrow> 'e \<Rightarrow> 'a \<Rightarrow> ('e, 'a) once_cell" where
  "once_from e1 e2 v = \<lparr>active_initializers = e1, passive_waiters = e2,
     ostate = state_word Initialized, ovalue = Some v\<rparr>"

text \<open>\<open>get_unchecked\<close> reads the memory.\<close>

definition get_unchecked :: "('e, 'a) once_cell \<Rightarrow> 'a option" where
  "get_unchecked c = ovalue c"

text \<open>\<open>is_initialized\<close>, and what a call does with the answer.\<close>

definition is_initialized :: "('e, 'a) once_cell \<Rightarrow> (bool \<Rightarrow> 'x) \<Rightarrow> 'x outcome" where
  "is_initialized c f = (case state_from (ostate c) of
     None \<Rightarrow> Panic
   | Some st \<Rightarrow> Next (f (st = Initialized)))"

subsection \<open>Exclusive access\<close>

text \<open>\<open>take\<close> reads the value out; the memory is left as it is.\<close>

definition once_take :: "('e, 'a) once_cell \<Rightarrow> ('a option option \<times> ('e, 'a) once_cell) outcome" where
  "once_take c = is_initialized c (\<lambda>b.
     if b then (Some (ovalue c), c\<lparr>ostate := state_word Uninitialized\<rparr>) else (None, c))"

definition once_into_inner :: "('e, 'a) once_cell \<Rightarrow> 'a option option outcome" where
  "once_into_inner c = map_outcome fst (once_take c)"

text \<open>\<open>get_mut\<close>, and the update the caller makes through the reference.\<close>

definition once_get_mut ::
    "('a \<Rightarrow> 'a) \<Rightarrow> ('e, 'a) once_cell \<Rightarrow> (bool \<times> ('e, 'a) once_cell) outcome" where
  "once_get_mut f c = is_initialized c (\<lambda>b.
     if b then (True, c\<lparr>ovalue := map_option f (ovalue c)\<rparr>) else (False, c))"

text \<open>\<open>Drop\<close>: whether the value is dropped in place.\<close>

definition once_drop :: "('e, 'a) once_cell \<Rightarrow> 'a option option outcome" where
  "once_drop c = is_initialized c (\<lambda>b. if b then Some (ovalue c) else None)"

subsection \<open>Tasks\<close>

text \<open>What a finished call has returned. \<open>RRef\<close> carries what the reference points to.\<close>

datatype 'a ores =
    RBool bool | RNone | RRef "'a option" | RSet "'a option" | RUnit | RRefused 'a | RErr
  | RCancelled | RPanicked

text \<open>
  The calls that go through \<open>initialize_or_wait\<close>: \<open>get_or_try_init\<close> (and \<open>get_or_init\<close>, whose
  closure does not fail), \<open>set v\<close>; and \<open>try_set v\<close>, which has its own entry.
\<close>

datatype 'a call = GetOrTryInit | SetValue 'a | TrySet 'a

text \<open>Local variables: \<open>event_listener\<close>, and whether \<open>closure\<close> has not been taken yet.\<close>

record ('a, 'l) initializer =
  icall :: "'a call"
  event_listener :: "'l option"
  closure :: bool

definition initializer_new :: "'a call \<Rightarrow> ('a, 'l) initializer" where
  "initializer_new call = \<lparr>icall = call, event_listener = None, closure = True\<rparr>"

datatype wait_pc = WtGet | WtGetRead | WtListen | WtAgain | WtAgainRead | WtPoll | WtSleep
  | WtAssert | WtRead

datatype 'a init_pc = InGet | InGetRead | InLoad | InListen | InWait | InSleep | InCas
  | InClosure | InWrite 'a | InStore | InNotifyActive | InNotifyPassive | InDrop | InAssert | InRead
  | InTryCas 'a

text \<open>
  \<open>OGuard*\<close>: the two actions of dropping the \<open>Guard\<close>, with the result to return afterwards;
  \<open>ODropActive\<close>, \<open>ODropPassive\<close>: a call that returns and has a listener to drop.
\<close>

datatype ('a, 'l) once =
    OIsInit
  | OGet
  | OGetRead
  | OWait wait_pc "'l option"
  | OInit "'a init_pc" "('a, 'l) initializer"
  | OGuardStore "'l option" "'a ores"
  | OGuardNotify "'l option" "'a ores"
  | ODropActive 'l "'a ores"
  | ODropPassive 'l "'a ores"
  | ODone "'a ores"

text \<open>
  What happens next with a task: its suspended future is polled, or dropped; its running call goes
  on; the initialiser future completes with a value, with an error, or panics.
\<close>

datatype 'a once_in = OcPoll | OcRun | OcCancel | OcOk 'a | OcErr | OcPanic

definition return_active :: "'l option \<Rightarrow> 'a ores \<Rightarrow> ('a, 'l) once" where
  "return_active lo r = (case lo of None \<Rightarrow> ODone r | Some l \<Rightarrow> ODropActive l r)"

definition return_passive :: "'l option \<Rightarrow> 'a ores \<Rightarrow> ('a, 'l) once" where
  "return_passive lo r = (case lo of None \<Rightarrow> ODone r | Some l \<Rightarrow> ODropPassive l r)"

definition unchanged :: "('e, 'a) once_cell \<Rightarrow> ('a, 'l) once outcome \<Rightarrow> (('e, 'a) once_cell \<times> ('a, 'l) once) outcome"
where
  "unchanged c r = map_outcome (Pair c) r"

text \<open>\<open>debug_assert!(self.is_initialized())\<close>; \<open>dbg\<close> is the configuration \<open>debug_assertions\<close>.\<close>

definition debug_assert_initialized ::
    "bool \<Rightarrow> ('e, 'a) once_cell \<Rightarrow> ('a, 'l) once \<Rightarrow> (('e, 'a) once_cell \<times> ('a, 'l) once) outcome" where
  "debug_assert_initialized dbg c t =
     (if dbg \<and> is_initialized c (\<lambda>b. b) \<noteq> Next True then Panic else Next (c, t))"

subsection \<open>Waiting\<close>

text \<open>\<open>wait\<close>: look; listen; look again; await the listener; then read without looking.\<close>

fun wait_step ::
    "('e, 'l) event_ops \<Rightarrow> bool \<Rightarrow> wait_pc \<Rightarrow> ('e, 'a) once_cell \<Rightarrow> 'l option \<Rightarrow>
     (('e, 'a) once_cell \<times> ('a, 'l) once) outcome" where
  "wait_step ev dbg WtGet c lo =
     unchanged c (is_initialized c (\<lambda>b. OWait (if b then WtGetRead else WtListen) lo))"
| "wait_step ev dbg WtGetRead c lo = Next (c, return_passive lo (RRef (get_unchecked c)))"
| "wait_step ev dbg WtListen c lo =
     (let (l, e) = ev_listen ev (passive_waiters c)
      in Next (c\<lparr>passive_waiters := e\<rparr>, OWait WtAgain (Some l)))"
| "wait_step ev dbg WtAgain c lo =
     unchanged c (is_initialized c (\<lambda>b. OWait (if b then WtAgainRead else WtPoll) lo))"
| "wait_step ev dbg WtAgainRead c lo = Next (c, return_passive lo (RRef (get_unchecked c)))"
| "wait_step ev dbg WtPoll c lo =
     (case lo of
        None \<Rightarrow> Panic
      | Some l \<Rightarrow>
          (let (ready, e) = ev_poll ev l (passive_waiters c) in
           if ready then Next (c\<lparr>passive_waiters := e\<rparr>, OWait WtAssert None)
           else Next (c\<lparr>passive_waiters := e\<rparr>, OWait WtSleep lo)))"
| "wait_step ev dbg WtAssert c lo =
     debug_assert_initialized dbg c (OWait WtRead lo)"
| "wait_step ev dbg WtRead c lo = Next (c, return_passive lo (RRef (get_unchecked c)))"
| "wait_step ev dbg WtSleep c lo = Disabled"

subsection \<open>Initialising\<close>

text \<open>
  What \<open>get_or_try_init\<close> and \<open>set\<close> return when they have a reference: \<open>set\<close> looks whether its value
  has been taken by the closure.
\<close>

definition init_result :: "('e, 'a) once_cell \<Rightarrow> ('a, 'l) initializer \<Rightarrow> 'a ores" where
  "init_result c s = (case icall s of
     SetValue v \<Rightarrow> if closure s then RRefused v else RSet (get_unchecked c)
   | _ \<Rightarrow> RRef (get_unchecked c))"

text \<open>The match on the state, at the head of the loop of \<open>initialize_or_wait\<close>.\<close>

definition init_match :: "usize \<Rightarrow> ('a, 'l) initializer \<Rightarrow> ('a, 'l) once outcome" where
  "init_match w s = (case state_from w of
     None \<Rightarrow> Panic
   | Some Initialized \<Rightarrow> Next (OInit (if event_listener s = None then InAssert else InDrop) s)
   | Some Initializing \<Rightarrow> Next (OInit (if event_listener s = None then InListen else InWait) s)
   | Some Uninitialized \<Rightarrow> Next (OInit InCas s))"

text \<open>\<open>compare_exchange(Uninitialized, Initializing)\<close>.\<close>

definition claim :: "('e, 'a) once_cell \<Rightarrow> bool \<times> ('e, 'a) once_cell" where
  "claim c =
     (let (r, x) = compare_exchange (ostate c) (state_word Uninitialized) (state_word Initializing)
      in (is_ok r, c\<lparr>ostate := x\<rparr>))"

definition init_cas :: "('e, 'a) once_cell \<Rightarrow> ('a, 'l) initializer \<Rightarrow> (('e, 'a) once_cell \<times> ('a, 'l) once) outcome"
where
  "init_cas c s = (case claim c of (ok, c') \<Rightarrow>
     if \<not> ok then Next (c', OInit InLoad s)
     else if closure s then Next (c', OInit InClosure (s\<lparr>closure := False\<rparr>))
     else Panic)"

text \<open>
  Storing the value and waking everybody, in \<open>initialize_or_wait\<close> and in \<open>try_set\<close>.
\<close>

definition publish_done :: "('a, 'l) initializer \<Rightarrow> ('a, 'l) once" where
  "publish_done s = (case icall s of
     TrySet v \<Rightarrow> ODone RUnit
   | _ \<Rightarrow> OInit (if event_listener s = None then InAssert else InDrop) s)"

fun init_step ::
    "('e, 'l) event_ops \<Rightarrow> bool \<Rightarrow> 'a init_pc \<Rightarrow> ('e, 'a) once_cell \<Rightarrow> ('a, 'l) initializer \<Rightarrow>
     (('e, 'a) once_cell \<times> ('a, 'l) once) outcome" where
  "init_step ev dbg InGet c s =
     unchanged c (is_initialized c (\<lambda>b. OInit (if b then InGetRead else InLoad) s))"
| "init_step ev dbg InGetRead c s = Next (c, ODone (init_result c s))"
| "init_step ev dbg InLoad c s = unchanged c (init_match (ostate c) s)"
| "init_step ev dbg InListen c s =
     (let (l, e) = ev_listen ev (active_initializers c)
      in Next (c\<lparr>active_initializers := e\<rparr>, OInit InLoad (s\<lparr>event_listener := Some l\<rparr>)))"
| "init_step ev dbg InWait c s =
     (case event_listener s of
        None \<Rightarrow> Panic
      | Some l \<Rightarrow>
          (let (ready, e) = ev_poll ev l (active_initializers c) in
           if ready then Next (c\<lparr>active_initializers := e\<rparr>, OInit InLoad (s\<lparr>event_listener := None\<rparr>))
           else Next (c\<lparr>active_initializers := e\<rparr>, OInit InSleep s)))"
| "init_step ev dbg InCas c s = init_cas c s"
| "init_step ev dbg (InWrite v) c s = Next (c\<lparr>ovalue := Some v\<rparr>, OInit InStore s)"
| "init_step ev dbg InStore c s =
     Next (c\<lparr>ostate := state_word Initialized\<rparr>, OInit InNotifyActive s)"
| "init_step ev dbg InNotifyActive c s =
     Next (c\<lparr>active_initializers := ev_notify_additional ev usize_MAX (active_initializers c)\<rparr>,
       OInit InNotifyPassive s)"
| "init_step ev dbg InNotifyPassive c s =
     Next (c\<lparr>passive_waiters := ev_notify_additional ev usize_MAX (passive_waiters c)\<rparr>,
       publish_done s)"
| "init_step ev dbg InDrop c s =
     (case event_listener s of
        None \<Rightarrow> Panic
      | Some l \<Rightarrow> Next (c\<lparr>active_initializers := ev_drop ev l (active_initializers c)\<rparr>,
          OInit InAssert (s\<lparr>event_listener := None\<rparr>)))"
| "init_step ev dbg InAssert c s =
     debug_assert_initialized dbg c (OInit InRead s)"
| "init_step ev dbg InRead c s = Next (c, ODone (init_result c s))"
| "init_step ev dbg (InTryCas v) c s =
     (case claim c of (ok, c') \<Rightarrow>
        Next (c', if ok then OInit (InWrite v) s else ODone (RRefused v)))"
| "init_step ev dbg InClosure c s = Disabled"
| "init_step ev dbg InSleep c s = Disabled"

text \<open>
  The awaited initialiser. The closure of \<open>set v\<close> takes \<open>v\<close> and returns it at once. An error, a
  panic or the drop of the future drops the guard.
\<close>

definition closure_step :: "'a once_in \<Rightarrow> ('a, 'l) initializer \<Rightarrow> ('a, 'l) once outcome" where
  "closure_step i s = (case icall s of
     SetValue v \<Rightarrow> (case i of OcRun \<Rightarrow> Next (OInit (InWrite v) s) | _ \<Rightarrow> Disabled)
   | _ \<Rightarrow> (case i of
         OcOk v \<Rightarrow> Next (OInit (InWrite v) s)
       | OcErr \<Rightarrow> Next (OGuardStore (event_listener s) RErr)
       | OcPanic \<Rightarrow> Next (OGuardStore (event_listener s) RPanicked)
       | OcCancel \<Rightarrow> Next (OGuardStore (event_listener s) RCancelled)
       | _ \<Rightarrow> Disabled))"

definition guard_store :: "('e, 'a) once_cell \<Rightarrow> ('e, 'a) once_cell" where
  "guard_store c = c\<lparr>ostate := state_word Uninitialized\<rparr>"

definition guard_notify :: "('e, 'l) event_ops \<Rightarrow> ('e, 'a) once_cell \<Rightarrow> ('e, 'a) once_cell" where
  "guard_notify ev c = c\<lparr>active_initializers := ev_notify ev 1 (active_initializers c)\<rparr>"

subsection \<open>All the actions of a task\<close>

definition when_run :: "'a once_in \<Rightarrow> 'x outcome \<Rightarrow> 'x outcome" where
  "when_run i r = (case i of OcRun \<Rightarrow> r | _ \<Rightarrow> Disabled)"

definition once_step ::
    "('e, 'l) event_ops \<Rightarrow> bool \<Rightarrow> 'a once_in \<Rightarrow> ('e, 'a) once_cell \<Rightarrow> ('a, 'l) once \<Rightarrow>
     (('e, 'a) once_cell \<times> ('a, 'l) once) outcome" where
  "once_step ev dbg i c t = (case t of
     OIsInit \<Rightarrow> when_run i (unchanged c (is_initialized c (\<lambda>b. ODone (RBool b))))
   | OGet \<Rightarrow> when_run i (unchanged c (is_initialized c (\<lambda>b. if b then OGetRead else ODone RNone)))
   | OGetRead \<Rightarrow> when_run i (Next (c, ODone (RRef (get_unchecked c))))
   | OWait pc lo \<Rightarrow>
       (if pc = WtSleep then
          (case i of
             OcPoll \<Rightarrow> Next (c, OWait WtPoll lo)
           | OcCancel \<Rightarrow> Next (c, return_passive lo RCancelled)
           | _ \<Rightarrow> Disabled)
        else when_run i (wait_step ev dbg pc c lo))
   | OInit pc s \<Rightarrow>
       (if pc = InSleep then
          (case i of
             OcPoll \<Rightarrow> Next (c, OInit InWait s)
           | OcCancel \<Rightarrow> Next (c, return_active (event_listener s) RCancelled)
           | _ \<Rightarrow> Disabled)
        else if pc = InClosure then unchanged c (closure_step i s)
        else when_run i (init_step ev dbg pc c s))
   | OGuardStore lo r \<Rightarrow> when_run i (Next (guard_store c, OGuardNotify lo r))
   | OGuardNotify lo r \<Rightarrow> when_run i (Next (guard_notify ev c, return_active lo r))
   | ODropActive l r \<Rightarrow>
       when_run i (Next (c\<lparr>active_initializers := ev_drop ev l (active_initializers c)\<rparr>, ODone r))
   | ODropPassive l r \<Rightarrow>
       when_run i (Next (c\<lparr>passive_waiters := ev_drop ev l (passive_waiters c)\<rparr>, ODone r))
   | ODone r \<Rightarrow> Disabled)"

text \<open>A task starts as a call; the cell starts empty, or with a value (\<open>From<T>\<close>).\<close>

definition once_fresh :: "('a, 'l) once \<Rightarrow> bool" where
  "once_fresh t \<longleftrightarrow> t = OIsInit \<or> t = OGet \<or> t = OWait WtGet None \<or>
     t = OInit InGet (initializer_new GetOrTryInit) \<or>
     (\<exists>v. t = OInit InGet (initializer_new (SetValue v))) \<or>
     (\<exists>v. t = OInit (InTryCas v) (initializer_new (TrySet v)))"

definition once_start :: "('e \<Rightarrow> bool) \<Rightarrow> ('e, 'a) once_cell \<Rightarrow> bool" where
  "once_start new_event c \<longleftrightarrow> new_event (active_initializers c) \<and> new_event (passive_waiters c) \<and>
     (ostate c = state_word Uninitialized \<or>
      ostate c = state_word Initialized \<and> ovalue c \<noteq> None)"

end
