(* ===== verification/OnceCell_Inv.thy ===== *)
theory OnceCell_Inv
  imports OnceCell
begin

text \<open>
  The invariants of the cell that need nothing of the events. A task has the claim between its
  successful compare-exchange and its store of the state; there is one claim exactly when the state
  is \<open>Initializing\<close>. In the state \<open>Initialized\<close> the memory holds a value. A task that has seen
  \<open>Initialized\<close> can rely on it. At most one call has stored a value.
\<close>

subsection \<open>Well-formed tasks\<close>

definition is_try_set :: "('a, 'l) initializer \<Rightarrow> bool" where
  "is_try_set s = (case icall s of TrySet v \<Rightarrow> True | _ \<Rightarrow> False)"

definition wait_wf :: "wait_pc \<Rightarrow> 'l option \<Rightarrow> bool" where
  "wait_wf pc lo \<longleftrightarrow> (lo = None \<longleftrightarrow> pc \<in> {WtGet, WtGetRead, WtListen, WtAssert, WtRead})"

definition init_wf :: "'a init_pc \<Rightarrow> ('a, 'l) initializer \<Rightarrow> bool" where
  "init_wf pc s = (case pc of
     InGet \<Rightarrow> closure s \<and> \<not> is_try_set s \<and> event_listener s = None
   | InGetRead \<Rightarrow> closure s \<and> \<not> is_try_set s \<and> event_listener s = None
   | InLoad \<Rightarrow> closure s \<and> \<not> is_try_set s
   | InListen \<Rightarrow> closure s \<and> \<not> is_try_set s \<and> event_listener s = None
   | InWait \<Rightarrow> closure s \<and> \<not> is_try_set s \<and> event_listener s \<noteq> None
   | InSleep \<Rightarrow> closure s \<and> \<not> is_try_set s \<and> event_listener s \<noteq> None
   | InCas \<Rightarrow> closure s \<and> \<not> is_try_set s
   | InClosure \<Rightarrow> \<not> closure s \<and> \<not> is_try_set s
   | InWrite v \<Rightarrow> (if is_try_set s then event_listener s = None else \<not> closure s)
   | InStore \<Rightarrow> (if is_try_set s then event_listener s = None else \<not> closure s)
   | InNotifyActive \<Rightarrow> (if is_try_set s then event_listener s = None else \<not> closure s)
   | InNotifyPassive \<Rightarrow> (if is_try_set s then event_listener s = None else \<not> closure s)
   | InDrop \<Rightarrow> \<not> is_try_set s \<and> event_listener s \<noteq> None
   | InAssert \<Rightarrow> \<not> is_try_set s \<and> event_listener s = None
   | InRead \<Rightarrow> \<not> is_try_set s \<and> event_listener s = None
   | InTryCas v \<Rightarrow> is_try_set s \<and> event_listener s = None)"

text \<open>Results that do not say that the call has stored a value.\<close>

definition no_store :: "'a ores \<Rightarrow> bool" where
  "no_store r = (case r of RUnit \<Rightarrow> False | RSet x \<Rightarrow> False | _ \<Rightarrow> True)"

definition once_wf :: "('a, 'l) once \<Rightarrow> bool" where
  "once_wf t = (case t of OWait pc lo \<Rightarrow> wait_wf pc lo | OInit pc s \<Rightarrow> init_wf pc s
   | OGuardStore lo r \<Rightarrow> no_store r | OGuardNotify lo r \<Rightarrow> no_store r
   | ODropActive l r \<Rightarrow> no_store r | ODropPassive l r \<Rightarrow> no_store r | _ \<Rightarrow> True)"

lemma once_wf_simps [simp]:
  "once_wf OIsInit" "once_wf OGet" "once_wf OGetRead" "once_wf (ODone r)"
  "once_wf (OGuardStore lo r) = no_store r" "once_wf (OGuardNotify lo r) = no_store r"
  "once_wf (ODropActive l r) = no_store r" "once_wf (ODropPassive l r) = no_store r"
  "once_wf (OWait pc lo) = wait_wf pc lo" "once_wf (OInit ipc s) = init_wf ipc s"
  by (simp_all add: once_wf_def)

lemma return_wf [simp]:
  "no_store r \<Longrightarrow> once_wf (return_active lo r)" "no_store r \<Longrightarrow> once_wf (return_passive lo r)"
  by (simp_all add: return_active_def return_passive_def split: option.split)

lemma no_store_simps [simp]:
  "no_store (RBool b)" "no_store RNone" "no_store (RRef x)" "no_store (RRefused v)" "no_store RErr"
  "no_store RCancelled" "no_store RPanicked" "\<not> no_store RUnit" "\<not> no_store (RSet x)"
  by (simp_all add: no_store_def)

subsection \<open>Contributions\<close>

definition claims :: "('a, 'l) once \<Rightarrow> bool" where
  "claims t = (case t of
     OInit pc s \<Rightarrow> (case pc of InClosure \<Rightarrow> True | InWrite v \<Rightarrow> True | InStore \<Rightarrow> True | _ \<Rightarrow> False)
   | OGuardStore lo r \<Rightarrow> True
   | _ \<Rightarrow> False)"

definition has_written :: "('a, 'l) once \<Rightarrow> bool" where
  "has_written t = (case t of OInit pc s \<Rightarrow> pc = InStore | _ \<Rightarrow> False)"

text \<open>The task has seen the state \<open>Initialized\<close> or stored it.\<close>

definition has_seen :: "('a, 'l) once \<Rightarrow> bool" where
  "has_seen t = (case t of
     OGetRead \<Rightarrow> True
   | OWait pc lo \<Rightarrow> pc \<in> {WtGetRead, WtAgainRead}
   | OInit pc s \<Rightarrow> pc \<in> {InGetRead, InNotifyActive, InNotifyPassive, InDrop, InAssert, InRead}
   | _ \<Rightarrow> False)"

text \<open>The task has stored a value, and its result says so.\<close>

definition has_won :: "('a, 'l) once \<Rightarrow> bool" where
  "has_won t = (case t of
     OInit pc s \<Rightarrow> pc \<in> {InNotifyActive, InNotifyPassive} \<or>
       pc \<in> {InDrop, InAssert, InRead} \<and> \<not> closure s
   | ODone r \<Rightarrow> (case r of RUnit \<Rightarrow> True | RSet x \<Rightarrow> True | _ \<Rightarrow> False)
   | _ \<Rightarrow> False)"

lemmas once_flags = claims_def has_written_def has_seen_def has_won_def

datatype once_key = KClaim | KWritten | KSeen | KWinner

definition once_wt :: "once_key \<Rightarrow> ('a, 'l) once \<Rightarrow> nat" where
  "once_wt key t = of_bool (case key of
     KClaim \<Rightarrow> claims t | KWritten \<Rightarrow> has_written t | KSeen \<Rightarrow> has_seen t | KWinner \<Rightarrow> has_won t)"

definition once_good :: "('e, 'a) once_cell \<Rightarrow> (once_key \<Rightarrow> nat) \<Rightarrow> bool" where
  "once_good c n \<longleftrightarrow>
     (ostate c = 0 \<or> ostate c = 1 \<or> ostate c = 2) \<and>
     n KClaim = of_bool (ostate c = 1) \<and>
     (0 < n KWritten \<longrightarrow> ovalue c \<noteq> None) \<and>
     (ostate c = 2 \<longrightarrow> ovalue c \<noteq> None) \<and>
     (0 < n KSeen \<longrightarrow> ostate c = 2) \<and>
     (0 < n KWinner \<longrightarrow> ostate c = 2) \<and> n KWinner \<le> 1"

lemma state_words: "state_word Uninitialized = 0" "state_word Initializing = 1"
  "state_word Initialized = 2"
  by (simp_all add: state_word_def)

lemmas once_op_defs = unchanged_def is_initialized_def state_from_def state_words init_match_def
  init_cas_def claim_def publish_done_def closure_step_def guard_store_def guard_notify_def
  when_run_def debug_assert_initialized_def compare_exchange_def is_ok_def

lemma unchanged_Next: "unchanged c r = Next (c', t') \<longleftrightarrow> c' = c \<and> r = Next t'"
  by (auto simp: unchanged_def map_outcome_Next_iff)

lemma when_run_Next: "when_run i r = Next x \<longleftrightarrow> i = OcRun \<and> r = Next x"
  by (auto simp: when_run_def split: once_in.splits)

lemma wait_step_wf:
  "wait_step ev dbg pc c lo = Next (c', t') \<Longrightarrow> wait_wf pc lo \<Longrightarrow> once_wf t'"
  by (cases pc)
     (auto simp: once_op_defs wait_wf_def Let_def split: option.splits prod.splits if_splits)

lemma init_step_wf:
  "init_step ev dbg pc c s = Next (c', t') \<Longrightarrow> init_wf pc s \<Longrightarrow> once_wf t'"
  by (cases pc)
     (auto simp: once_op_defs init_wf_def is_try_set_def Let_def
       split: option.splits prod.splits if_splits call.splits cell_state.splits)

lemma once_step_wf:
  assumes "once_step ev dbg i c t = Next (c', t')" and "once_wf t"
  shows "once_wf t'"
proof (cases t)
  case (OWait pc lo)
  with assms show ?thesis
    by (auto simp: once_step_def when_run_Next dest: wait_step_wf split: once_in.splits if_splits)
       (simp add: wait_wf_def)
next
  case (OInit pc s)
  with assms show ?thesis
    by (auto simp: once_step_def when_run_Next unchanged_Next closure_step_def dest: init_step_wf
        split: once_in.splits if_splits call.splits) (auto simp: init_wf_def is_try_set_def)
qed (use assms in \<open>auto simp: once_step_def when_run_Next unchanged_Next is_initialized_def
       split: option.splits\<close>)

subsection \<open>What a step does\<close>

text \<open>
  Either nothing happens to the state and the value; or the task claims the cell; or it writes the
  value it has the claim for; or it stores \<open>Initialized\<close>; or it gives the claim up.
\<close>

inductive once_move :: "('e, 'a) once_cell \<Rightarrow> ('a, 'l) once \<Rightarrow> ('e, 'a) once_cell \<Rightarrow> ('a, 'l) once \<Rightarrow> bool"
where
  quiet: "ostate c' = ostate c \<Longrightarrow> ovalue c' = ovalue c \<Longrightarrow> claims t' = claims t \<Longrightarrow>
    has_written t' = has_written t \<Longrightarrow> has_seen t' \<longrightarrow> has_seen t \<or> ostate c = 2 \<Longrightarrow>
    has_won t' \<longrightarrow> has_won t \<Longrightarrow> once_move c t c' t'"
| claim: "ostate c = 0 \<Longrightarrow> ostate c' = 1 \<Longrightarrow> ovalue c' = ovalue c \<Longrightarrow> \<not> claims t \<Longrightarrow> claims t' \<Longrightarrow>
    \<not> has_written t \<Longrightarrow> \<not> has_written t' \<Longrightarrow> \<not> has_seen t' \<Longrightarrow> \<not> has_won t' \<Longrightarrow> once_move c t c' t'"
| put: "ostate c' = ostate c \<Longrightarrow> ovalue c' = Some v \<Longrightarrow> claims t \<Longrightarrow> claims t' \<Longrightarrow>
    has_written t' \<Longrightarrow> \<not> has_seen t' \<Longrightarrow> \<not> has_won t' \<Longrightarrow> once_move c t c' t'"
| store: "ostate c' = 2 \<Longrightarrow> ovalue c' = ovalue c \<Longrightarrow> claims t \<Longrightarrow> has_written t \<Longrightarrow> \<not> has_won t \<Longrightarrow>
    \<not> claims t' \<Longrightarrow> \<not> has_written t' \<Longrightarrow> once_move c t c' t'"
| abandon: "ostate c' = 0 \<Longrightarrow> ovalue c' = ovalue c \<Longrightarrow> claims t \<Longrightarrow> \<not> claims t' \<Longrightarrow> \<not> has_written t \<Longrightarrow>
    \<not> has_written t' \<Longrightarrow> \<not> has_seen t' \<Longrightarrow> \<not> has_won t' \<Longrightarrow> once_move c t c' t'"

lemmas once_move_rules = once_move.quiet once_move.claim once_move.put once_move.store once_move.abandon

lemma return_flags [simp]:
  "claims (return_active lo r) = False" "has_written (return_active lo r) = False"
  "has_seen (return_active lo r) = False"
  "claims (return_passive lo r) = False" "has_written (return_passive lo r) = False"
  "has_seen (return_passive lo r) = False"
  by (simp_all add: once_flags return_active_def return_passive_def split: option.split)

lemma won_Done: "has_won (ODone r) \<longleftrightarrow> \<not> no_store r"
  by (simp add: has_won_def no_store_def split: ores.split)

lemma return_won [simp]:
  "no_store r \<Longrightarrow> has_won (return_active lo r) = False"
  "no_store r \<Longrightarrow> has_won (return_passive lo r) = False"
  by (auto simp: return_active_def return_passive_def won_Done has_won_def [of "ODropActive _ _"]
      has_won_def [of "ODropPassive _ _"] split: option.split)

lemma wait_step_move:
  "wait_step ev dbg pc c lo = Next (c', t') \<Longrightarrow> once_move c (OWait pc lo) c' t'"
  by (cases pc)
     (auto simp: once_op_defs once_flags [of "OWait _ _"] return_won Let_def intro!: once_move.quiet
       split: option.splits prod.splits if_splits)

lemma init_result_won:
  "has_won (ODone (init_result c s)) \<Longrightarrow> \<not> closure s"
  by (auto simp: has_won_def init_result_def split: call.splits if_splits)

lemma init_step_move:
  assumes "init_step ev dbg pc c s = Next (c', t')" and "init_wf pc s"
  shows "once_move c (OInit pc s) c' t'"
proof (cases pc)
  case InCas
  with assms show ?thesis
    by (auto simp: once_op_defs once_flags init_wf_def once_move_rules split: if_splits)
next
  case (InTryCas v)
  with assms show ?thesis
    by (auto simp: once_op_defs once_flags init_wf_def once_move_rules split: if_splits)
next
  case (InWrite v)
  with assms show ?thesis by (auto simp: once_flags intro!: once_move.put)
next
  case InStore
  with assms show ?thesis by (auto simp: once_flags state_words intro!: once_move.store)
next
  case InGetRead
  with assms init_result_won [of c s] show ?thesis
    by (auto simp: init_wf_def once_flags [of "ODone _"] once_flags [of "OInit _ _"] intro!: once_move.quiet
       split: ores.splits)
next
  case InRead
  with assms init_result_won [of c s] show ?thesis
    by (auto simp: init_wf_def once_flags [of "OInit _ _"] claims_def [of "ODone _"]
        has_written_def [of "ODone _"] has_seen_def [of "ODone _"] intro!: once_move.quiet)
next
  case InNotifyPassive
  with assms show ?thesis
    by (auto simp: once_op_defs once_flags init_wf_def is_try_set_def intro!: once_move.quiet
        split: call.splits if_splits)
next
  case InLoad
  with assms show ?thesis
    by (auto simp: once_op_defs once_flags init_wf_def intro!: once_move.quiet
        split: option.splits cell_state.splits if_splits)
qed (use assms in \<open>auto simp: once_op_defs once_flags init_wf_def Let_def intro!: once_move.quiet
       split: option.splits prod.splits if_splits\<close>)

lemma once_step_move:
  assumes "once_step ev dbg i c t = Next (c', t')" and "once_wf t"
  shows "once_move c t c' t'"
proof (cases t)
  case (OWait pc lo)
  show ?thesis
  proof (cases "pc = WtSleep")
    case True
    with assms OWait show ?thesis
      by (auto simp: once_step_def once_flags [of "OWait _ _"] intro!: once_move.quiet
          split: once_in.splits)
  next
    case False
    with assms OWait show ?thesis
      by (auto simp: once_step_def when_run_Next dest: wait_step_move)
  qed
next
  case (OInit pc s)
  show ?thesis
  proof (cases "pc = InSleep \<or> pc = InClosure")
    case True
    with assms OInit show ?thesis
      by (auto simp: once_step_def unchanged_Next closure_step_def once_flags [of "OInit _ _"]
          once_flags [of "OGuardStore _ _"] return_won
          intro!: once_move.quiet split: once_in.splits call.splits)
  next
    case False
    with assms OInit show ?thesis
      by (auto simp: once_step_def when_run_Next dest: init_step_move split: if_splits)
  qed
next
  case (OGuardStore lo r)
  with assms show ?thesis
    by (auto simp: once_step_def when_run_Next guard_store_def state_words once_flags
        intro!: once_move.abandon)
next
  case (OGuardNotify lo r)
  with assms show ?thesis
    by (auto simp: once_step_def when_run_Next guard_notify_def once_flags [of "OGuardNotify _ _"]
        intro!: once_move.quiet)
next
  case (ODropActive l r)
  with assms show ?thesis
    by (auto simp: once_step_def when_run_Next won_Done once_flags [of "ODropActive _ _"]
        claims_def [of "ODone _"] has_written_def [of "ODone _"] has_seen_def [of "ODone _"]
        intro!: once_move.quiet)
next
  case (ODropPassive l r)
  with assms show ?thesis
    by (auto simp: once_step_def when_run_Next won_Done once_flags [of "ODropPassive _ _"]
        claims_def [of "ODone _"] has_written_def [of "ODone _"] has_seen_def [of "ODone _"]
        intro!: once_move.quiet)
qed (use assms in \<open>auto simp: once_step_def when_run_Next unchanged_Next is_initialized_def
       state_from_def once_flags intro!: once_move.quiet split: option.splits if_splits ores.splits\<close>)

subsection \<open>The invariant\<close>

lemma once_move_good:
  assumes move: "once_move c t c' t'" and good: "once_good c n" and le: "\<And>key. once_wt key t \<le> n key"
  shows "once_good c' (\<lambda>key. n key - once_wt key t + once_wt key t')"
proof -
  have les: "of_bool (claims t) \<le> n KClaim" "of_bool (has_written t) \<le> n KWritten"
    "of_bool (has_seen t) \<le> n KSeen" "of_bool (has_won t) \<le> n KWinner"
    using le [of KClaim] le [of KWritten] le [of KSeen] le [of KWinner] by (simp_all add: once_wt_def)
  from move show ?thesis
  proof cases
    case quiet
    with good les show ?thesis
      by (cases "has_won t'"; cases "has_seen t'") (auto simp: once_good_def once_wt_def)
  next
    case claim
    with good les show ?thesis by (auto simp: once_good_def once_wt_def)
  next
    case put
    with good les show ?thesis by (auto simp: once_good_def once_wt_def)
  next
    case store
    with good les show ?thesis by (auto simp: once_good_def once_wt_def)
  next
    case abandon
    with good les show ?thesis by (auto simp: once_good_def once_wt_def)
  qed
qed

interpretation once: counting_system "once_step ev dbg" once_fresh "once_start new_event" once_wt
    once_wf once_good
  for ev :: "('e, 'l) event_ops" and dbg new_event
proof
  show "once_start new_event c \<Longrightarrow> once_good c (\<lambda>_. 0)" for c :: "('e, 'a) once_cell"
    by (auto simp: once_start_def once_good_def state_words)
  show "once_fresh t \<Longrightarrow> once_wf t" for t :: "('a, 'l) once"
    by (auto simp: once_fresh_def wait_wf_def init_wf_def initializer_new_def is_try_set_def)
  show "once_fresh t \<Longrightarrow> once_wt key t = 0" for t :: "('a, 'l) once" and key
    by (auto simp: once_fresh_def once_wt_def once_flags split: once_key.split)
  show "once_step ev dbg i c t = Next (c', t') \<Longrightarrow> once_wf t \<Longrightarrow> once_wf t'"
    for i and c c' :: "('e, 'a) once_cell" and t t'
    by (rule once_step_wf)
  show "once_step ev dbg i c t = Next (c', t') \<Longrightarrow> once_wf t \<Longrightarrow> once_good c n \<Longrightarrow>
      (\<And>key. once_wt key t \<le> n key) \<Longrightarrow> once_good c' (\<lambda>key. n key - once_wt key t + once_wt key t')"
    for i and c c' :: "('e, 'a) once_cell" and t t' n
    by (rule once_move_good [OF once_step_move])
qed

end
