(* ===== verification/OnceCell_Props.thy ===== *)
theory OnceCell_Props
  imports OnceCell_Inv Event_Queue
begin

text \<open>
  Properties of the cell in every reachable state of every interleaving, for an arbitrary event
  implementation: it implements an abstract write-once cell, one initialiser runs at a time, one
  call stores a value, and the value stays. Then the methods with exclusive access.
\<close>

abbreviation once_reachable ::
    "('e, 'l) event_ops \<Rightarrow> bool \<Rightarrow> ('e \<Rightarrow> bool) \<Rightarrow> (('e, 'a) once_cell, ('a, 'l) once) sys \<Rightarrow> bool" where
  "once_reachable ev dbg new_event \<equiv> reachable (once_step ev dbg) once_fresh (once_start new_event)"

subsection \<open>Concrete runs\<close>

lemmas once_run_simps = exec1.simps exec.simps once_step_def once_op_defs once_fresh_def
  initializer_new_def return_active_def return_passive_def init_result_def get_unchecked_def
  queue_event_simps

definition demo_cell :: "(qevent, nat) once_cell" where
  "demo_cell = once_new [] []"

lemma demo_cell_start: "once_start (fresh_event queue_view) demo_cell"
  by (simp add: once_start_def demo_cell_def once_new_def fresh_event_def queue_view_def)

text \<open>Task 0 runs its initialiser, task 1 is in \<open>wait\<close>, task 2 waits to initialise.\<close>

definition demo_busy :: "((qevent, nat) once_cell, (nat, nat) once) sys" where
  "demo_busy =
     \<lparr>shared = \<lparr>active_initializers = [Some False], passive_waiters = [Some False], ostate = 1,
        ovalue = None\<rparr>,
      tasks = [OInit InClosure \<lparr>icall = GetOrTryInit, event_listener = None, closure = False\<rparr>,
        OWait WtSleep (Some 0),
        OInit InSleep \<lparr>icall = SetValue 5, event_listener = Some 0, closure = True\<rparr>]\<rparr>"

lemma demo_busy_run:
  "exec (once_step queue_events True) once_fresh
     [Spawn (OInit InGet (initializer_new GetOrTryInit)), Act 0 OcRun, Act 0 OcRun, Act 0 OcRun,
      Spawn (OWait WtGet None), Act 1 OcRun, Act 1 OcRun, Act 1 OcRun, Act 1 OcRun,
      Spawn (OInit InGet (initializer_new (SetValue 5))), Act 2 OcRun, Act 2 OcRun, Act 2 OcRun,
      Act 2 OcRun, Act 2 OcRun]
     \<lparr>shared = demo_cell, tasks = []\<rparr> = Next demo_busy"
  by (simp add: once_run_simps demo_cell_def once_new_def demo_busy_def)

lemma demo_busy_reachable:
  "once_reachable queue_events True (fresh_event queue_view) demo_busy"
  by (rule exec_reachable_init [where start = "once_start (fresh_event queue_view)",
      OF demo_cell_start demo_busy_run])

text \<open>The initialiser has failed and the \<open>set\<close> has succeeded; a \<open>try_set\<close> has been refused.\<close>

definition demo_set :: "((qevent, nat) once_cell, (nat, nat) once) sys" where
  "demo_set =
     \<lparr>shared = \<lparr>active_initializers = [None], passive_waiters = [Some True], ostate = 2,
        ovalue = Some 5\<rparr>,
      tasks = [ODone RErr, OWait WtSleep (Some 0), ODone (RSet (Some 5)), ODone (RRefused 6)]\<rparr>"

lemma demo_set_run:
  "exec (once_step queue_events True) once_fresh
     [Act 0 OcErr, Act 0 OcRun, Act 0 OcRun, Act 2 OcPoll, Act 2 OcRun, Act 2 OcRun, Act 2 OcRun,
      Spawn (OInit (InTryCas 6) (initializer_new (TrySet 6))), Act 3 OcRun,
      Act 2 OcRun, Act 2 OcRun, Act 2 OcRun, Act 2 OcRun, Act 2 OcRun, Act 2 OcRun, Act 2 OcRun]
     demo_busy = Next demo_set"
  by (simp add: once_run_simps demo_busy_def demo_set_def unat_usize_MAX)

lemma demo_set_reachable: "once_reachable queue_events True (fresh_event queue_view) demo_set"
  by (rule exec_reachable [OF demo_set_run demo_busy_reachable])

subsection \<open>The abstract cell\<close>

text \<open>
  The specification: who has the claim to initialise, and the content. The claim is taken when the
  cell is vacant and nobody has it; it is given up, or turned into a content that stays for ever.
\<close>

record 'a abs_cell =
  claimants :: "nat set"
  content :: "'a option"

inductive abs_cell_step :: "'a abs_cell \<Rightarrow> 'a abs_cell \<Rightarrow> bool" where
  claim: "claimants a = {} \<Longrightarrow> content a = None \<Longrightarrow> abs_cell_step a (a\<lparr>claimants := {k}\<rparr>)"
| abandon: "claimants a = {k} \<Longrightarrow> abs_cell_step a (a\<lparr>claimants := {}\<rparr>)"
| fill: "claimants a = {k} \<Longrightarrow> content a = None \<Longrightarrow>
    abs_cell_step a \<lparr>claimants = {}, content = Some v\<rparr>"

definition abs_cell_start :: "'a abs_cell \<Rightarrow> bool" where
  "abs_cell_start a \<longleftrightarrow> claimants a = {}"

definition once_content :: "('e, 'a) once_cell \<Rightarrow> 'a option" where
  "once_content c = (if ostate c = 2 then ovalue c else None)"

definition abs_once :: "(('e, 'a) once_cell, ('a, 'l) once) sys \<Rightarrow> 'a abs_cell" where
  "abs_once S = \<lparr>claimants = indices claims (tasks S), content = once_content (shared S)\<rparr>"

lemma claims_total: "totals once_wt ts KClaim = card (indices claims ts)"
  unfolding card_indices totals_def by (rule wsum_cong) (simp add: once_wt_def)

lemma claims_single:
  assumes "once_good c (totals once_wt ts)" and "k < length ts" and "claims (ts ! k)"
  shows "ostate c = 1" and "indices claims ts = {k}"
proof -
  have pos: "1 \<le> totals once_wt ts KClaim"
    using totals_member_le [OF assms(2), of once_wt KClaim] assms(3) by (simp add: once_wt_def)
  with assms(1) show "ostate c = 1" by (auto simp: once_good_def)
  have "indices claims ts \<subseteq> {k}"
    by (rule indices_subset_singleton [where wt = once_wt and j = KClaim])
       (use assms in \<open>auto simp: once_wt_def once_good_def\<close>)
  with assms(2,3) show "indices claims ts = {k}" by (auto simp: indices_def)
qed

lemma claims_none:
  assumes "once_good c (totals once_wt ts)" and "ostate c \<noteq> 1"
  shows "indices claims ts = {}"
  by (rule indices_empty [where wt = once_wt and j = KClaim])
     (use assms in \<open>auto simp: once_wt_def once_good_def\<close>)

lemma abs_once_act:
  assumes inv: "counting_inv once_wt once_wf once_good S" and k: "k < length (tasks S)"
    and step: "once_step ev dbg i (shared S) (tasks S ! k) = Next (c', t')"
  defines "S' \<equiv> \<lparr>shared = c', tasks = (tasks S)[k := t']\<rparr>"
  shows "abs_once S' = abs_once S \<or> abs_cell_step (abs_once S) (abs_once S')"
proof -
  let ?c = "shared S" and ?t = "tasks S ! k"
  have good: "once_good ?c (totals once_wt (tasks S))" and wf: "once_wf ?t"
    using inv k by (simp_all add: counting_inv_def)
  have written: "ovalue ?c \<noteq> None" if "has_written ?t"
    using totals_member_le [OF k, of once_wt KWritten] good that by (simp add: once_wt_def once_good_def)
  have mem: "k \<in> indices claims (tasks S) \<longleftrightarrow> claims ?t" using k by (simp add: indices_def)
  note single = claims_single [OF good k]
  have abs': "abs_once S' = \<lparr>claimants = (if claims t' then insert k (indices claims (tasks S))
      else indices claims (tasks S) - {k}), content = once_content c'\<rparr>"
    using k by (simp add: S'_def abs_once_def indices_update)
  from once_step_move [OF step wf]
  show ?thesis
  proof cases
    case quiet
    then have "abs_once S' = abs_once S"
      using mem unfolding abs' by (auto simp: abs_once_def once_content_def insert_absorb)
    then show ?thesis ..
  next
    case claim
    with claims_none [OF good] have "indices claims (tasks S) = {}" by simp
    with claim abs_cell_step.claim [of "abs_once S" k] show ?thesis
      unfolding abs' by (simp add: abs_once_def once_content_def)
  next
    case (put v)
    with single have "abs_once S' = abs_once S"
      unfolding abs' by (simp add: abs_once_def once_content_def)
    then show ?thesis ..
  next
    case store
    with single written abs_cell_step.fill [of "abs_once S" k] show ?thesis
      unfolding abs' by (auto simp: abs_once_def once_content_def)
  next
    case abandon
    with single abs_cell_step.abandon [of "abs_once S" k] show ?thesis
      unfolding abs' by (simp add: abs_once_def once_content_def)
  qed
qed

interpretation once_abs: refinement_system "once_step ev dbg" once_fresh "once_start new_event"
    "counting_inv once_wt once_wf once_good" abs_once abs_cell_start abs_cell_step
  for ev :: "('e, 'l) event_ops" and dbg new_event
proof
  show "abs_cell_start (abs_once \<lparr>shared = c, tasks = []\<rparr>)" for c :: "('e, 'a) once_cell"
    by (simp add: abs_cell_start_def abs_once_def)
next
  fix S :: "(('e, 'a) once_cell, ('a, 'l) once) sys" and t :: "('a, 'l) once"
  assume "once_fresh t"
  then have "\<not> claims t" by (auto simp: once_fresh_def claims_def)
  then show "abs_once (S\<lparr>tasks := tasks S @ [t]\<rparr>) = abs_once S"
    by (simp add: abs_once_def indices_snoc)
qed (fact abs_once_act)

subsection \<open>Properties\<close>

text \<open>
  C27: the cell implements the abstract write-once cell: every step of any task changes nothing of
  it, or takes the claim on a vacant cell, or gives it up (error, panic or cancellation of the
  initialiser), or turns it into the content. A content is never changed or removed.
\<close>

theorem once_refines_abstract:
  assumes "once_reachable ev dbg new_event S" and "sys_step (once_step ev dbg) once_fresh S S'"
  shows "abs_once S' = abs_once S \<or> abs_cell_step (abs_once S) (abs_once S')"
  using assms by (rule once_abs.step_refines)

theorem once_refines_abstract_witness:
  "\<exists>S'. sys_step (once_step queue_events True) once_fresh demo_busy S' \<and>
     (abs_once S' = abs_once demo_busy \<or> abs_cell_step (abs_once demo_busy) (abs_once S'))"
proof -
  have "sys_step (once_step queue_events True) once_fresh demo_busy
      \<lparr>shared = shared demo_busy, tasks = (tasks demo_busy)[0 := OGuardStore None RErr]\<rparr>"
    by (rule sys_step.act [where i = OcErr]) (simp_all add: demo_busy_def once_step_def once_op_defs)
  with once_refines_abstract [OF demo_busy_reachable this] show ?thesis by blast
qed

text \<open>
  C28: one initialiser at a time. Two tasks that are running their initialiser or writing the value
  are the same task, and there is one exactly when the state is \<open>Initializing\<close>.
\<close>

theorem once_single_initializer:
  assumes "once_reachable ev dbg new_event S"
  shows "card (indices claims (tasks S)) = of_bool (ostate (shared S) = state_word Initializing)"
  using once.reachable_good [OF assms] by (simp add: once_good_def claims_total state_words)

theorem once_single_initializer_witness: "card (indices claims (tasks demo_busy)) = 1"
  using once_single_initializer [OF demo_busy_reachable] by (simp add: demo_busy_def state_words)

text \<open>
  C39: at most one call stores a value: two calls of \<open>set\<close> or \<open>try_set\<close> that have succeeded are the
  same call, and then the cell is initialised.
\<close>

theorem once_set_once:
  assumes "once_reachable ev dbg new_event S" and "j < length (tasks S)" and "k < length (tasks S)"
    and "tasks S ! j = ODone RUnit \<or> tasks S ! j = ODone (RSet x)"
    and "tasks S ! k = ODone RUnit \<or> tasks S ! k = ODone (RSet y)"
  shows "j = k \<and> ostate (shared S) = state_word Initialized"
proof -
  have good: "once_good (shared S) (totals once_wt (tasks S))" by (rule once.reachable_good [OF assms(1)])
  have won: "has_won (tasks S ! j)" "has_won (tasks S ! k)"
    using assms(4,5) by (auto simp: has_won_def)
  have "j = k"
    by (rule totals_unique [where wt = once_wt and j = KWinner, OF _ assms(2,3)])
       (use good won in \<open>simp_all add: once_good_def once_wt_def\<close>)
  moreover have "0 < totals once_wt (tasks S) KWinner"
    using totals_member_le [OF assms(2), of once_wt KWinner] won by (simp add: once_wt_def)
  ultimately show ?thesis using good by (simp add: once_good_def state_words)
qed

theorem once_set_once_witness:
  "ostate (shared demo_set) = state_word Initialized \<and>
   {j. j < 4 \<and> tasks demo_set ! j = ODone (RSet (Some 5))} = {2}"
proof -
  have "j = 2" if "j < 4" and "tasks demo_set ! j = ODone (RSet (Some 5))" for j
    using that once_set_once [OF demo_set_reachable, of j 2 "Some 5" "Some 5"]
    by (simp add: demo_set_def)
  then show ?thesis by (auto simp: demo_set_def state_words)
qed

text \<open>
  An initialised cell stays as it is: from a reachable state in which it is initialised, no
  sequence of steps changes the state or the value.
\<close>

theorem once_value_stable:
  assumes "once_reachable ev dbg new_event S" and "ostate (shared S) = state_word Initialized"
    and "(sys_step (once_step ev dbg) once_fresh)\<^sup>*\<^sup>* S S'"
  shows "ostate (shared S') = ostate (shared S) \<and> ovalue (shared S') = ovalue (shared S)"
proof -
  have "once_reachable ev dbg new_event S' \<and> ostate (shared S') = ostate (shared S) \<and>
      ovalue (shared S') = ovalue (shared S)"
    using assms(3)
  proof (induction rule: rtranclp_induct)
    case base
    with assms(1) show ?case by simp
  next
    case (step T U)
    then have T: "once_reachable ev dbg new_event T" and two: "ostate (shared T) = 2"
      using assms(2) by (simp_all add: state_words)
    have "ostate (shared U) = 2 \<and> ovalue (shared U) = ovalue (shared T)"
      using step.hyps(2)
    proof (rule sys_stepE)
      fix k i c' t'
      assume U: "U = \<lparr>shared = c', tasks = (tasks T)[k := t']\<rparr>" and k: "k < length (tasks T)"
        and act: "once_step ev dbg i (shared T) (tasks T ! k) = Next (c', t')"
      have wf: "once_wf (tasks T ! k)" by (rule once.reachable_wf [OF T k])
      have "\<not> claims (tasks T ! k)"
        using claims_single [OF once.reachable_good [OF T] k] two by auto
      with once_step_move [OF act wf] U two show ?thesis by (auto elim: once_move.cases)
    qed (use two in simp)
    with step T show ?case using two by (auto intro: reachable.step)
  qed
  then show ?thesis by simp
qed

theorem once_value_stable_witness:
  "\<exists>S'. sys_step (once_step queue_events True) once_fresh demo_set S' \<and> ovalue (shared S') = Some 5"
proof -
  have step: "sys_step (once_step queue_events True) once_fresh demo_set
      (demo_set\<lparr>tasks := tasks demo_set @ [OGet]\<rparr>)"
    by (rule sys_step.spawn) (simp add: once_fresh_def)
  have "ovalue (shared (demo_set\<lparr>tasks := tasks demo_set @ [OGet]\<rparr>)) = ovalue (shared demo_set)"
    using once_value_stable [OF demo_set_reachable _ r_into_rtranclp [of "sys_step (once_step queue_events True) once_fresh", OF step]]
    by (simp add: demo_set_def state_words)
  with step show ?thesis by (auto simp: demo_set_def)
qed

text \<open>
  C36: the conversions between \<open>State\<close> and \<open>usize\<close> are inverse to each other: a word converts to a
  state exactly if it is the word of that state, and \<open>unreachable!\<close> is reached exactly by the words
  above 2, which are not the word of any state.
\<close>

theorem state_word_roundtrip:
  "(state_from w = Some st \<longleftrightarrow> w = state_word st) \<and> (state_from w = None \<longleftrightarrow> 2 < w) \<and>
   (state_from w = None \<longleftrightarrow> w \<notin> range state_word)"
proof -
  have some: "state_from w = Some x \<longleftrightarrow> w = state_word x" for x
    by (cases x) (auto simp: state_from_def state_words)
  have "2 < w \<longleftrightarrow> w \<noteq> 0 \<and> w \<noteq> 1 \<and> w \<noteq> 2"
    by (simp add: word_less_nat_alt word_unat_eq_iff) linarith
  then have none: "state_from w = None \<longleftrightarrow> 2 < w" by (simp add: state_from_def)
  have "state_from w = None \<longleftrightarrow> w \<notin> range state_word"
    unfolding image_iff by (cases "state_from w") (auto simp: some [symmetric])
  with some [of st] none show ?thesis by blast
qed

subsection \<open>Exclusive access\<close>

text \<open>
  \<open>take\<close>, \<open>into_inner\<close> and \<open>Drop\<close> between two uses of the cell. When every call has finished,
  \<open>take\<close> does not reach \<open>unreachable!\<close>; it returns the value exactly if the cell was initialised,
  never uninitialised memory, and leaves an uninitialised cell, from which \<open>take\<close> returns nothing;
  \<open>into_inner\<close> returns what \<open>take\<close> does, and \<open>Drop\<close> drops that value.
\<close>

theorem once_take_spec:
  assumes "once_reachable ev dbg new_event S" and "\<forall>t \<in> set (tasks S). \<exists>r. t = ODone r"
  shows "\<exists>c'. once_take (shared S) = Next (map_option Some (once_content (shared S)), c') \<and>
    ostate c' = state_word Uninitialized \<and> once_take c' = Next (None, c') \<and>
    once_into_inner (shared S) = Next (map_option Some (once_content (shared S))) \<and>
    once_drop (shared S) = Next (map_option Some (once_content (shared S)))"
proof -
  have good: "once_good (shared S) (totals once_wt (tasks S))" by (rule once.reachable_good [OF assms(1)])
  have "indices claims (tasks S) = {}"
    using assms(2) by (auto simp: indices_empty_iff claims_def)
  with good have "ostate (shared S) \<noteq> 1"
    by (auto simp: once_good_def claims_total)
  with good show ?thesis
    by (auto simp: once_good_def once_take_def once_into_inner_def once_drop_def once_content_def
        is_initialized_def state_from_def state_words)
qed

definition demo_taken :: "((qevent, nat) once_cell, (nat, nat) once) sys" where
  "demo_taken =
     \<lparr>shared = \<lparr>active_initializers = [], passive_waiters = [], ostate = 2, ovalue = Some 8\<rparr>,
      tasks = [ODone RUnit]\<rparr>"

lemma demo_taken_run:
  "exec (once_step queue_events True) once_fresh
     [Spawn (OInit (InTryCas 8) (initializer_new (TrySet 8))), Act 0 OcRun, Act 0 OcRun, Act 0 OcRun,
      Act 0 OcRun, Act 0 OcRun]
     \<lparr>shared = demo_cell, tasks = []\<rparr> = Next demo_taken"
  by (simp add: once_run_simps demo_cell_def once_new_def demo_taken_def)

theorem once_take_spec_witness:
  "\<exists>c'. once_take (shared demo_taken) = Next (Some (Some 8), c') \<and> once_take c' = Next (None, c')"
proof -
  have reach: "once_reachable queue_events True (fresh_event queue_view) demo_taken"
    by (rule exec_reachable_init [where start = "once_start (fresh_event queue_view)",
        OF demo_cell_start demo_taken_run])
  show ?thesis
    using once_take_spec [OF reach] by (auto simp: demo_taken_def once_content_def)
qed

end
