(* ===== verification/Barrier.thy ===== *)
theory Barrier
  imports Mutex
begin

text \<open>
  \<^verbatim>\<open>src/barrier.rs\<close>: a barrier for \<open>n\<close> tasks, built from a \<open>Mutex<State>\<close> and an event.

  A task is one \<open>BarrierWait\<close> future. Its lock futures move by \<open>lock_step\<close>. While the task has the
  \<open>MutexGuard\<close> each read and each write of the protected \<open>State\<close> is an action of its own, so that
  the properties rest on the mutual exclusion of the mutex and not on the granularity of the model.
  \<open>wait_blocking\<close> drives the same future without ever dropping it.
\<close>

subsection \<open>The barrier\<close>

record barrier_state =
  bcount :: usize
  generation_id :: u64

record 'e barrier =
  bn :: usize
  bstate :: "('e, barrier_state) mutex"
  bevent :: 'e

definition barrier_new :: "'e \<Rightarrow> 'e \<Rightarrow> usize \<Rightarrow> 'e barrier" where
  "barrier_new e1 e2 n =
     \<lparr>bn = n, bstate = mutex_new e1 \<lparr>bcount = 0, generation_id = 0\<rparr>, bevent = e2\<rparr>"

datatype wait_state = WInitial | WWaiting u64 | WReacquiring u64

text \<open>What follows the drop of the guard: the next round of the loop, or \<open>Poll::Ready\<close>.\<close>

datatype 'l after = Loop u64 'l | Ret wait_state bool

text \<open>
  Program points. \<open>BLock\<close>: the lock future has not been completed. \<open>BDropFut\<close>:
  \<open>this.lock.set(None)\<close> drops the completed future, which owns a listener. \<open>BGuard\<close> to \<open>BNotify\<close>:
  with the guard. \<open>BUnlock\<close>, \<open>BUnlockNotify\<close>: the two actions of dropping the guard. \<open>BPoll\<close>,
  \<open>BSleep\<close>: in \<open>Waiting\<close>, with the listener \<open>evl\<close>. \<open>BDone\<close>: completed, with the last value of the
  field \<open>state\<close> and \<open>is_leader\<close>. \<open>BCancelled\<close>: dropped.
\<close>

datatype 'l barrier_wait =
    BLock wait_state "'l lock"
  | BDropFut wait_state 'l
  | BGuard wait_state
  | BCount u64
  | BIncr u64 usize
  | BTest u64
  | BReset
  | BBump
  | BNotify
  | BCheck u64
  | BListen u64
  | BUnlock "'l after"
  | BUnlockNotify "'l after"
  | BPoll u64 'l
  | BSleep u64 'l
  | BDone wait_state bool
  | BCancelled wait_state

text \<open>\<open>wait\<close>: the lock operation is created with the future and not polled yet.\<close>

definition wait_future :: "'l barrier_wait" where
  "wait_future = BLock WInitial LNew"

subsection \<open>The lock futures\<close>

text \<open>Poll the \<open>BarrierWait\<close>, let the running poll (or drop) go on at a clock time, or drop it.\<close>

datatype bar_in = BaPoll nat | BaRun nat | BaCancel

definition bar_lock_in :: "bar_in \<Rightarrow> 'l lock \<Rightarrow> barrier_state lock_in" where
  "bar_lock_in i l = (case i of
     BaPoll now \<Rightarrow> Poll now
   | BaCancel \<Rightarrow> Cancel
   | BaRun now \<Rightarrow> (case l of LDone lo \<Rightarrow> DropFut | _ \<Rightarrow> Run now))"

definition bar_locked :: "wait_state \<Rightarrow> 'l lock \<Rightarrow> 'l barrier_wait" where
  "bar_locked ws l = (case l of
     LHeld lo \<Rightarrow> (case lo of None \<Rightarrow> BGuard ws | Some x \<Rightarrow> BDropFut ws x)
   | LDone lo \<Rightarrow> (case lo of None \<Rightarrow> BCancelled ws | Some x \<Rightarrow> BLock ws l)
   | _ \<Rightarrow> BLock ws l)"

definition bar_lock_step ::
    "('e, 'l) event_ops \<Rightarrow> bar_in \<Rightarrow> 'e barrier \<Rightarrow> wait_state \<Rightarrow> 'l lock \<Rightarrow>
     ('e barrier \<times> 'l barrier_wait) outcome" where
  "bar_lock_step ev i b ws l = map_outcome
     (\<lambda>(m, l'). (b\<lparr>bstate := m\<rparr>, bar_locked ws l')) (lock_step ev (bar_lock_in i l) (bstate b) l)"

definition bar_drop_fut :: "('e, 'l) event_ops \<Rightarrow> 'e barrier \<Rightarrow> 'l \<Rightarrow> 'e barrier" where
  "bar_drop_fut ev b l = b\<lparr>bstate := (bstate b)\<lparr>lock_ops := ev_drop ev l (lock_ops (bstate b))\<rparr>\<rparr>"

subsection \<open>With the guard\<close>

definition bar_data :: "'e barrier \<Rightarrow> barrier_state" where
  "bar_data b = mdata (bstate b)"

definition set_data :: "barrier_state \<Rightarrow> 'e barrier \<Rightarrow> 'e barrier" where
  "set_data d b = b\<lparr>bstate := (bstate b)\<lparr>mdata := d\<rparr>\<rparr>"

text \<open>
  What the guard is used for first: \<open>let local_gen = state.generation_id\<close>, or the left half of
  \<open>*local_gen == state.generation_id && state.count < n\<close>.
\<close>

definition bar_guard :: "'e barrier \<Rightarrow> wait_state \<Rightarrow> 'l barrier_wait outcome" where
  "bar_guard b ws = (case ws of
     WInitial \<Rightarrow> Next (BCount (generation_id (bar_data b)))
   | WWaiting g \<Rightarrow> Panic
   | WReacquiring g \<Rightarrow>
       Next (if g = generation_id (bar_data b) then BCheck g else BUnlock (Ret ws False)))"

text \<open>\<open>state.count += 1\<close>, with the overflow check of a debug build; then the comparison.\<close>

definition bar_incr :: "'e barrier \<Rightarrow> u64 \<Rightarrow> usize \<Rightarrow> ('e barrier \<times> 'l barrier_wait) outcome" where
  "bar_incr b g c =
     (if c = usize_MAX then Panic
      else Next (set_data ((bar_data b)\<lparr>bcount := c + 1\<rparr>) b, BTest g))"

definition bar_test :: "'e barrier \<Rightarrow> u64 \<Rightarrow> 'l barrier_wait" where
  "bar_test b g = (if bcount (bar_data b) < bn b then BListen g else BReset)"

definition bar_check :: "'e barrier \<Rightarrow> u64 \<Rightarrow> 'l barrier_wait" where
  "bar_check b g =
     (if bcount (bar_data b) < bn b then BListen g else BUnlock (Ret (WReacquiring g) False))"

text \<open>The last one: reset the count, \<open>wrapping_add(1)\<close> on the generation, wake everybody.\<close>

definition bar_reset :: "'e barrier \<Rightarrow> 'e barrier" where
  "bar_reset b = set_data ((bar_data b)\<lparr>bcount := 0\<rparr>) b"

definition bar_bump :: "'e barrier \<Rightarrow> 'e barrier" where
  "bar_bump b = set_data ((bar_data b)\<lparr>generation_id := generation_id (bar_data b) + 1\<rparr>) b"

definition bar_notify :: "('e, 'l) event_ops \<Rightarrow> 'e barrier \<Rightarrow> 'e barrier" where
  "bar_notify ev b = b\<lparr>bevent := ev_notify ev usize_MAX (bevent b)\<rparr>"

definition bar_listen :: "('e, 'l) event_ops \<Rightarrow> 'e barrier \<Rightarrow> u64 \<Rightarrow> 'e barrier \<times> 'l barrier_wait" where
  "bar_listen ev b g =
     (let (l, e) = ev_listen ev (bevent b) in (b\<lparr>bevent := e\<rparr>, BUnlock (Loop g l)))"

definition bar_after :: "'l after \<Rightarrow> 'l barrier_wait" where
  "bar_after a = (case a of Loop g l \<Rightarrow> BPoll g l | Ret ws leader \<Rightarrow> BDone ws leader)"

subsection \<open>Waiting\<close>

text \<open>
  \<open>strategy.poll\<close> of the listener. When it is ready the new lock future is polled at once: it is at
  its fast path.
\<close>

definition bar_poll :: "('e, 'l) event_ops \<Rightarrow> 'e barrier \<Rightarrow> u64 \<Rightarrow> 'l \<Rightarrow> 'e barrier \<times> 'l barrier_wait" where
  "bar_poll ev b g l =
     (let (ready, e) = ev_poll ev l (bevent b) in
      (b\<lparr>bevent := e\<rparr>, if ready then BLock (WReacquiring g) LTry else BSleep g l))"

definition bar_run ::
    "bar_in \<Rightarrow> ('e barrier \<times> 'l barrier_wait) outcome \<Rightarrow> ('e barrier \<times> 'l barrier_wait) outcome" where
  "bar_run i r = (case i of BaRun now \<Rightarrow> r | _ \<Rightarrow> Disabled)"

definition bar_step ::
    "('e, 'l) event_ops \<Rightarrow> bar_in \<Rightarrow> 'e barrier \<Rightarrow> 'l barrier_wait \<Rightarrow>
     ('e barrier \<times> 'l barrier_wait) outcome" where
  "bar_step ev i b t = (case t of
     BLock ws l \<Rightarrow> bar_lock_step ev i b ws l
   | BDropFut ws l \<Rightarrow> bar_run i (Next (bar_drop_fut ev b l, BGuard ws))
   | BGuard ws \<Rightarrow> bar_run i (map_outcome (Pair b) (bar_guard b ws))
   | BCount g \<Rightarrow> bar_run i (Next (b, BIncr g (bcount (bar_data b))))
   | BIncr g c \<Rightarrow> bar_run i (bar_incr b g c)
   | BTest g \<Rightarrow> bar_run i (Next (b, bar_test b g))
   | BReset \<Rightarrow> bar_run i (Next (bar_reset b, BBump))
   | BBump \<Rightarrow> bar_run i (Next (bar_bump b, BNotify))
   | BNotify \<Rightarrow> bar_run i (Next (bar_notify ev b, BUnlock (Ret WInitial True)))
   | BCheck g \<Rightarrow> bar_run i (Next (b, bar_check b g))
   | BListen g \<Rightarrow> bar_run i (Next (bar_listen ev b g))
   | BUnlock a \<Rightarrow> bar_run i (Next (b\<lparr>bstate := unlock_sub (bstate b)\<rparr>, BUnlockNotify a))
   | BUnlockNotify a \<Rightarrow>
       bar_run i (Next (b\<lparr>bstate := unlock_notify ev (bstate b)\<rparr>, bar_after a))
   | BPoll g l \<Rightarrow> bar_run i (Next (bar_poll ev b g l))
   | BSleep g l \<Rightarrow> (case i of
         BaPoll now \<Rightarrow> Next (b, BPoll g l)
       | BaCancel \<Rightarrow> Next (b\<lparr>bevent := ev_drop ev l (bevent b)\<rparr>, BCancelled (WWaiting g))
       | BaRun now \<Rightarrow> Disabled)
   | BDone ws leader \<Rightarrow> Disabled
   | BCancelled ws \<Rightarrow> Disabled)"

text \<open>\<open>BarrierWaitResult::is_leader\<close>\<close>

definition is_leader :: "'l barrier_wait \<Rightarrow> bool option" where
  "is_leader t = (case t of BDone ws leader \<Rightarrow> Some leader | _ \<Rightarrow> None)"

definition bar_fresh :: "'l barrier_wait \<Rightarrow> bool" where
  "bar_fresh t \<longleftrightarrow> t = wait_future"

definition bar_start :: "('e \<Rightarrow> bool) \<Rightarrow> usize \<Rightarrow> 'e barrier \<Rightarrow> bool" where
  "bar_start new_event n b \<longleftrightarrow>
     (\<exists>e1 e2. new_event e1 \<and> new_event e2 \<and> b = barrier_new e1 e2 n)"

end
