(* ===== verification/Barrier_Inv.thy ===== *)
theory Barrier_Inv
  imports Barrier Lock_Client
begin

text \<open>
  The barrier is a client of the mutex (\<open>lock_client\<close>): at most one task has the guard, so the
  values a task has read from the protected state are current until it unlocks. From this follows
  the arithmetic of the barrier: the tasks that have arrived are \<open>n\<close> per leader plus the count, and
  the generation is the number of leaders.
\<close>

subsection \<open>The lock futures of the barrier\<close>

definition bar_lock :: "'l barrier_wait \<Rightarrow> 'l lock" where
  "bar_lock t = (case t of
     BLock ws l \<Rightarrow> l
   | BDropFut ws l \<Rightarrow> LHeld (Some l)
   | BUnlockNotify a \<Rightarrow> LUnlock None
   | BPoll g l \<Rightarrow> LDone None | BSleep g l \<Rightarrow> LDone None
   | BDone ws b \<Rightarrow> LDone None | BCancelled ws \<Rightarrow> LDone None
   | _ \<Rightarrow> LHeld None)"

definition state_wf :: "wait_state \<Rightarrow> bool" where
  "state_wf ws = (case ws of WWaiting g \<Rightarrow> False | _ \<Rightarrow> True)"

text \<open>The result of a completed future: the leader's field is still \<open>Initial\<close>.\<close>

definition ret_wf :: "wait_state \<Rightarrow> bool \<Rightarrow> bool" where
  "ret_wf ws leader \<longleftrightarrow> state_wf ws \<and> (leader \<longleftrightarrow> ws = WInitial)"

definition bar_wf :: "'l barrier_wait \<Rightarrow> bool" where
  "bar_wf t = (case t of
     BLock ws l \<Rightarrow> embedded l \<and> lock_wf l \<and> state_wf ws
   | BDropFut ws l \<Rightarrow> state_wf ws | BGuard ws \<Rightarrow> state_wf ws
   | BUnlock a \<Rightarrow> (case a of Loop g l \<Rightarrow> True | Ret ws b \<Rightarrow> ret_wf ws b)
   | BUnlockNotify a \<Rightarrow> (case a of Loop g l \<Rightarrow> True | Ret ws b \<Rightarrow> ret_wf ws b)
   | BDone ws b \<Rightarrow> ret_wf ws b
   | _ \<Rightarrow> True)"

lemma bar_lock_simps [simp]:
  "bar_lock (BLock ws l) = l" "bar_lock (BDropFut ws x) = LHeld (Some x)"
  "bar_lock (BGuard ws) = LHeld None" "bar_lock (BCount g) = LHeld None"
  "bar_lock (BIncr g c) = LHeld None" "bar_lock (BTest g) = LHeld None"
  "bar_lock BReset = LHeld None" "bar_lock BBump = LHeld None" "bar_lock BNotify = LHeld None"
  "bar_lock (BCheck g) = LHeld None" "bar_lock (BListen g) = LHeld None"
  "bar_lock (BUnlock a) = LHeld None" "bar_lock (BUnlockNotify a) = LUnlock None"
  "bar_lock (BPoll g x) = LDone None" "bar_lock (BSleep g x) = LDone None"
  "bar_lock (BDone ws b) = LDone None" "bar_lock (BCancelled ws) = LDone None"
  "bar_lock (bar_after a) = LDone None"
  by (simp_all add: bar_lock_def bar_after_def split: after.split)

lemma bar_wf_simps [simp]:
  "bar_wf (BLock ws l) \<longleftrightarrow> embedded l \<and> lock_wf l \<and> state_wf ws"
  "bar_wf (BDropFut ws x) = state_wf ws" "bar_wf (BGuard ws) = state_wf ws"
  "bar_wf (BCount g)" "bar_wf (BIncr g c)" "bar_wf (BTest g)" "bar_wf BReset" "bar_wf BBump"
  "bar_wf BNotify" "bar_wf (BCheck g)" "bar_wf (BListen g)"
  "bar_wf (BUnlock (Loop g x))" "bar_wf (BUnlock (Ret ws b)) = ret_wf ws b"
  "bar_wf (BUnlockNotify a) = bar_wf (BUnlock a)" "bar_wf (bar_after a) = bar_wf (BUnlock a)"
  "bar_wf (BPoll g x)" "bar_wf (BSleep g x)" "bar_wf (BDone ws b) = ret_wf ws b"
  "bar_wf (BCancelled ws)"
  by (simp_all add: bar_wf_def bar_after_def split: after.split)

lemma state_wf_simps [simp]: "state_wf WInitial" "\<not> state_wf (WWaiting g)" "state_wf (WReacquiring g)"
  by (simp_all add: state_wf_def)

text \<open>An action of the embedded lock future, and the actions that need the guard.\<close>

lemma bar_locked_lock: "embedded l' \<or> (\<exists>lo. l' = LHeld lo) \<Longrightarrow> bar_lock (bar_locked ws l') = l'"
  by (auto simp: bar_locked_def embedded_def split: lock.splits option.splits)

lemma bar_locked_wf:
  "embedded l' \<or> (\<exists>lo. l' = LHeld lo) \<Longrightarrow> lock_wf l' \<Longrightarrow> state_wf ws \<Longrightarrow> bar_wf (bar_locked ws l')"
  by (auto simp: bar_locked_def embedded_def split: lock.splits option.splits)

lemma bar_lock_stepE:
  assumes "bar_lock_step ev i b ws l = Next (b', t')" and "bar_wf (BLock ws l)"
  obtains m' l' where "lock_step ev (bar_lock_in i l) (bstate b) l = Next (m', l')"
    "b' = b\<lparr>bstate := m'\<rparr>" "t' = bar_locked ws l'" "bar_lock t' = l'" "bar_wf t'"
proof -
  from assms(1) obtain m' l' where l': "lock_step ev (bar_lock_in i l) (bstate b) l = Next (m', l')"
    "b' = b\<lparr>bstate := m'\<rparr>" "t' = bar_locked ws l'"
    by (auto simp: bar_lock_step_def map_outcome_Next_iff)
  have *: "embedded l' \<or> (\<exists>lo. l' = LHeld lo)" "lock_wf l'"
    using lock_step_embedded [OF l'(1)] lock_step_wf [OF l'(1)] assms(2) by simp_all
  with that [OF l'] bar_locked_lock [OF *(1)] bar_locked_wf [OF *] assms(2) l'(3) show thesis by simp
qed

lemma bar_run_Next: "bar_run i r = Next x \<longleftrightarrow> (\<exists>now. i = BaRun now) \<and> r = Next x"
  by (auto simp: bar_run_def split: bar_in.splits)

lemma bar_guard_cases:
  assumes "bar_guard b ws = Next t'" and "state_wf ws"
  obtains "ws = WInitial" "t' = BCount (generation_id (bar_data b))"
  | g where "ws = WReacquiring g" "t' = BCheck g" "g = generation_id (bar_data b)"
  | g where "ws = WReacquiring g" "t' = BUnlock (Ret ws False)" "g \<noteq> generation_id (bar_data b)"
  using assms by (auto simp: bar_guard_def state_wf_def split: wait_state.splits if_splits)

lemmas bar_op_defs = bar_step_def bar_run_Next map_outcome_Next_iff bar_incr_def bar_test_def
  bar_check_def bar_reset_def bar_bump_def bar_notify_def bar_listen_def bar_poll_def
  bar_drop_fut_def set_data_def bar_data_def

lemma bar_step_wf:
  assumes "bar_step ev i b t = Next (b', t')" and "bar_wf t"
  shows "bar_wf t'"
proof (cases t)
  case (BLock ws l)
  with assms show ?thesis by (auto simp: bar_step_def elim: bar_lock_stepE)
next
  case (BGuard ws)
  with assms show ?thesis
    by (auto simp: bar_step_def bar_run_Next map_outcome_Next_iff ret_wf_def elim!: bar_guard_cases)
qed (use assms in \<open>auto simp: bar_op_defs ret_wf_def embedded_def lock_wf_def Let_def
       split: prod.splits if_splits bar_in.splits\<close>)

lemma bar_step_lock:
  assumes "bar_step ev i b t = Next (b', t')" and "bar_wf t"
  shows "lock_move ev (bstate b) (bar_lock t) (bstate b') (bar_lock t')"
proof (cases t)
  case (BLock ws l)
  with assms show ?thesis
    by (auto simp: bar_step_def lock_move_def elim!: bar_lock_stepE)
next
  case (BGuard ws)
  with assms show ?thesis
    by (auto simp: bar_step_def bar_run_Next map_outcome_Next_iff same_move elim!: bar_guard_cases)
qed (use assms in \<open>auto simp: bar_op_defs Let_def same_move write_move held_moves drop_moves
       split: prod.splits if_splits bar_in.splits\<close>)

interpretation bar: lock_client ev "bar_step ev" bar_fresh "\<lambda>new_event. bar_start new_event n"
    bstate bar_lock bar_wf
  for ev :: "('e, 'l) event_ops" and n
proof
  show "bar_start new_event n b \<Longrightarrow> mutex_start new_event (bstate b)" for new_event and b :: "'e barrier"
    by (auto simp: bar_start_def barrier_new_def mutex_new_def mutex_start_def)
  show "bar_fresh t \<Longrightarrow> inert (bar_lock t)" for t :: "'l barrier_wait"
    by (simp add: bar_fresh_def wait_future_def inert_def)
  show "bar_fresh t \<Longrightarrow> bar_wf t" for t :: "'l barrier_wait"
    by (simp add: bar_fresh_def wait_future_def embedded_def lock_wf_def)
  show "bar_step ev i b t = Next (b', t') \<Longrightarrow> bar_wf t \<Longrightarrow> bar_wf t'" for i b t b' t'
    by (rule bar_step_wf)
  show "bar_step ev i b t = Next (b', t') \<Longrightarrow> bar_wf t \<Longrightarrow>
      lock_move ev (bstate b) (bar_lock t) (bstate b') (bar_lock t')" for i b t b' t'
    by (rule bar_step_lock)
qed

subsection \<open>What the tasks contribute\<close>

text \<open>The task has counted itself; it has reset the count; it has started the next generation.\<close>

definition arrived :: "'l barrier_wait \<Rightarrow> bool" where
  "arrived t = (case t of
     BLock ws l \<Rightarrow> ws \<noteq> WInitial | BDropFut ws l \<Rightarrow> ws \<noteq> WInitial | BGuard ws \<Rightarrow> ws \<noteq> WInitial
   | BCount g \<Rightarrow> False | BIncr g c \<Rightarrow> False | BCancelled ws \<Rightarrow> ws \<noteq> WInitial | _ \<Rightarrow> True)"

definition led :: "'l barrier_wait \<Rightarrow> bool" where
  "led t = (case t of
     BNotify \<Rightarrow> True | BUnlock a \<Rightarrow> (case a of Ret ws leader \<Rightarrow> leader | _ \<Rightarrow> False)
   | BUnlockNotify a \<Rightarrow> (case a of Ret ws leader \<Rightarrow> leader | _ \<Rightarrow> False)
   | BDone ws leader \<Rightarrow> leader | _ \<Rightarrow> False)"

definition has_reset :: "'l barrier_wait \<Rightarrow> bool" where
  "has_reset t \<longleftrightarrow> t = BBump \<or> led t"

definition counting :: "'l barrier_wait \<Rightarrow> bool" where
  "counting t = (case t of BTest g \<Rightarrow> True | BReset \<Rightarrow> True | _ \<Rightarrow> False)"

lemma bar_flags [simp]:
  "arrived (BLock ws l) \<longleftrightarrow> ws \<noteq> WInitial" "arrived (BDropFut ws x) \<longleftrightarrow> ws \<noteq> WInitial"
  "arrived (BGuard ws) \<longleftrightarrow> ws \<noteq> WInitial" "\<not> arrived (BCount g)" "\<not> arrived (BIncr g c)"
  "arrived (BTest g)" "arrived BReset" "arrived BBump" "arrived BNotify" "arrived (BCheck g)"
  "arrived (BListen g)" "arrived (BUnlock a)" "arrived (BUnlockNotify a)" "arrived (bar_after a)"
  "arrived (BPoll g x)" "arrived (BSleep g x)" "arrived (BDone ws b)"
  "arrived (BCancelled ws) \<longleftrightarrow> ws \<noteq> WInitial"
  "led (BLock ws l) = False" "led (BDropFut ws x) = False" "led (BGuard ws) = False"
  "led (BCount g) = False" "led (BIncr g c) = False" "led (BTest g) = False" "led BReset = False"
  "led BBump = False" "led BNotify" "led (BCheck g) = False" "led (BListen g) = False"
  "led (BUnlock (Loop g x)) = False" "led (BUnlock (Ret ws b)) = b"
  "led (BUnlockNotify a) = led (BUnlock a)" "led (bar_after a) = led (BUnlock a)"
  "led (BPoll g x) = False" "led (BSleep g x) = False" "led (BDone ws b) = b"
  "led (BCancelled ws) = False"
  by (simp_all add: arrived_def led_def bar_after_def split: after.split)

lemma counting_simps [simp]:
  "counting (BLock ws l) = False" "counting (BDropFut ws x) = False" "counting (BGuard ws) = False"
  "counting (BCount g) = False" "counting (BIncr g c) = False" "counting (BTest g)" "counting BReset"
  "counting BBump = False" "counting BNotify = False" "counting (BCheck g) = False"
  "counting (BListen g) = False" "counting (BUnlock a) = False" "counting (BUnlockNotify a) = False"
  "counting (bar_after a) = False" "counting (BPoll g x) = False" "counting (BSleep g x) = False"
  "counting (BDone ws b) = False" "counting (BCancelled ws) = False"
  by (simp_all add: counting_def bar_after_def split: after.split)

lemma locked_flags [simp]:
  "arrived (bar_locked ws l) \<longleftrightarrow> ws \<noteq> WInitial" "led (bar_locked ws l) = False"
  "counting (bar_locked ws l) = False" "bar_locked ws l \<noteq> BBump"
  by (simp_all add: bar_locked_def split: lock.split option.split)

lemma has_reset_simps [simp]: "has_reset BBump" "t \<noteq> BBump \<Longrightarrow> has_reset t = led t" "led t \<Longrightarrow> has_reset t"
  by (auto simp: has_reset_def)

text \<open>
  The number of tasks a generation takes, as the code behaves: a barrier for \<open>0\<close> tasks is one for \<open>1\<close>.
\<close>

definition bar_size :: "'e barrier \<Rightarrow> nat" where
  "bar_size b = max 1 (unat (bn b))"

text \<open>What a task that has the guard knows about the protected state.\<close>

definition bar_local :: "'e barrier \<Rightarrow> 'l barrier_wait \<Rightarrow> bool" where
  "bar_local b t = (case t of
     BCount g \<Rightarrow> generation_id (bar_data b) = g
   | BIncr g c \<Rightarrow> generation_id (bar_data b) = g \<and> bcount (bar_data b) = c
   | BTest g \<Rightarrow> generation_id (bar_data b) = g \<and> bcount (bar_data b) \<noteq> 0
   | BReset \<Rightarrow> unat (bcount (bar_data b)) = bar_size b
   | BBump \<Rightarrow> bcount (bar_data b) = 0
   | BCheck g \<Rightarrow> generation_id (bar_data b) = g
   | BListen g \<Rightarrow> generation_id (bar_data b) = g
   | _ \<Rightarrow> True)"

text \<open>How one step changes the protected state and the contributions.\<close>

inductive bar_move :: "'e barrier \<Rightarrow> 'l barrier_wait \<Rightarrow> 'e barrier \<Rightarrow> 'l barrier_wait \<Rightarrow> bool" where
  quiet: "bar_data b' = bar_data b \<Longrightarrow> arrived t' = arrived t \<Longrightarrow> led t' = led t \<Longrightarrow>
    has_reset t' = has_reset t \<Longrightarrow> counting t' = counting t \<Longrightarrow> bar_local b' t' \<Longrightarrow> bar_move b t b' t'"
| count: "bar_data b' = (bar_data b)\<lparr>bcount := c + 1\<rparr> \<Longrightarrow> c \<noteq> usize_MAX \<Longrightarrow>
    bar_move b (BIncr g c) b' (BTest g)"
| wait: "bar_data b' = bar_data b \<Longrightarrow> bcount (bar_data b) < bn b \<Longrightarrow>
    bar_move b (BTest g) b' (BListen g)"
| full: "bar_data b' = bar_data b \<Longrightarrow> \<not> bcount (bar_data b) < bn b \<Longrightarrow> bar_move b (BTest g) b' BReset"
| reset: "bar_data b' = (bar_data b)\<lparr>bcount := 0\<rparr> \<Longrightarrow> bar_move b BReset b' BBump"
| bump: "bar_data b' = (bar_data b)\<lparr>generation_id := generation_id (bar_data b) + 1\<rparr> \<Longrightarrow>
    bar_move b BBump b' BNotify"

lemma embedded_data:
  "lock_step ev i m l = Next (m', l') \<Longrightarrow> embedded l \<Longrightarrow> mdata m' = mdata m"
  using lock_step_data [of ev i m l m' l'] by (auto simp: embedded_def)

lemma bar_local_locked [simp]: "bar_local b (bar_locked ws l)"
  by (simp add: bar_locked_def bar_local_def split: lock.split option.split)

lemma bar_step_move:
  assumes "bar_step ev i b t = Next (b', t')" and "bar_wf t" and "bar_local b t"
  shows "bar_move b t b' t'" and "bn b' = bn b"
proof -
  have "bar_move b t b' t' \<and> bn b' = bn b"
  proof (cases t)
    case (BLock ws l)
    with assms show ?thesis
      by (auto simp: bar_step_def bar_data_def dest: embedded_data
          intro!: bar_move.quiet elim!: bar_lock_stepE)
  next
    case (BGuard ws)
    with assms show ?thesis
      by (auto simp: bar_step_def bar_run_Next map_outcome_Next_iff bar_local_def
          intro!: bar_move.quiet elim!: bar_guard_cases)
  qed (use assms in \<open>auto simp: bar_op_defs unlock_sub_def unlock_notify_def bar_local_def bar_after_def Let_def
         intro!: bar_move.quiet bar_move.count bar_move.wait bar_move.full bar_move.reset bar_move.bump
         split: prod.splits if_splits bar_in.splits after.splits\<close>)
  then show "bar_move b t b' t'" and "bn b' = bn b" by simp_all
qed

subsection \<open>The invariant\<close>

definition bar_totals :: "'e barrier \<Rightarrow> 'l barrier_wait list \<Rightarrow> bool" where
  "bar_totals b ts \<longleftrightarrow>
     card (indices arrived ts) = bar_size b * card (indices has_reset ts) + unat (bcount (bar_data b)) \<and>
     generation_id (bar_data b) = of_nat (card (indices led ts)) \<and>
     unat (bcount (bar_data b)) \<le> bar_size b \<and>
     ((\<forall>t \<in> set ts. \<not> counting t) \<longrightarrow> unat (bcount (bar_data b)) < bar_size b)"

definition bar_inv :: "usize \<Rightarrow> ('e barrier, 'l barrier_wait) sys \<Rightarrow> bool" where
  "bar_inv n S \<longleftrightarrow> client_ok bstate bar_lock bar_wf S \<and> bn (shared S) = n \<and>
     (\<forall>t \<in> set (tasks S). bar_local (shared S) t) \<and> bar_totals (shared S) (tasks S)"

lemma bar_local_free: "lock_owner (bar_lock t) = 0 \<Longrightarrow> bar_local b t"
  by (auto simp: bar_local_def lock_owner_def split: barrier_wait.splits)

lemma bar_local_cong:
  "bar_data b' = bar_data b \<Longrightarrow> bn b' = bn b \<Longrightarrow> bar_local b' t = bar_local b t"
  by (simp add: bar_local_def bar_size_def split: barrier_wait.split)

lemma counting_owner: "counting t \<Longrightarrow> lock_owner (bar_lock t) = 1"
  by (simp add: counting_def lock_owner_def split: barrier_wait.splits)

lemma card_indices_update:
  "k < length ts \<Longrightarrow>
   card (indices P (ts[k := t])) = card (indices P ts) - of_bool (P (ts ! k)) + of_bool (P t)"
  by (simp add: card_indices wsum_update)

lemma card_indices_pos: "k < length ts \<Longrightarrow> P (ts ! k) \<Longrightarrow> 1 \<le> card (indices P ts)"
  using wsum_member_le [of k ts "\<lambda>t. of_bool (P t)"] by (simp add: card_indices)

text \<open>The last part of \<open>bar_totals\<close>: whether somebody is between counting and the test.\<close>

lemma none_counting:
  assumes ok: "client_ok bstate bar_lock bar_wf S" and k: "k < length (tasks S)"
    and own: "lock_owner (bar_lock (tasks S ! k)) = 1" and t': "\<not> counting t'"
  shows "\<forall>t \<in> set ((tasks S)[k := t']). \<not> counting t"
proof (rule ccontr)
  assume "\<not> (\<forall>t \<in> set ((tasks S)[k := t']). \<not> counting t)"
  then obtain j where j: "j < length (tasks S)" "counting ((tasks S)[k := t'] ! j)"
    by (auto simp: in_set_conv_nth)
  with t' k have "j \<noteq> k" by auto
  with j(2) have "counting (tasks S ! j)" by simp
  from counting_owner [OF this] client_owner_unique [OF ok j(1) k] own \<open>j \<noteq> k\<close> show False by simp
qed

lemma bar_totals_act:
  assumes ok: "client_ok bstate bar_lock bar_wf S" and k: "k < length (tasks S)"
    and loc: "bar_local (shared S) (tasks S ! k)"
    and tot: "bar_totals (shared S) (tasks S)"
    and move: "bar_move (shared S) (tasks S ! k) b' t'" and n: "bn b' = bn (shared S)"
  shows "bar_totals b' ((tasks S)[k := t'])"
proof -
  let ?b = "shared S" and ?ts = "tasks S" and ?t = "tasks S ! k"
  let ?N = "bar_size ?b" and ?c = "unat (bcount (bar_data ?b))"
  have size: "bar_size b' = ?N" by (simp add: bar_size_def n)
  note upd = card_indices_update [OF k]
  note none = none_counting [OF ok k]
  have some: "\<not> (\<forall>t \<in> set (?ts[k := t']). \<not> counting t)" if "counting t'"
    using set_update_memI [OF k, of t'] that by blast
  have T: "card (indices arrived ?ts) = ?N * card (indices has_reset ?ts) + ?c"
    "generation_id (bar_data ?b) = of_nat (card (indices led ?ts))" "?c \<le> ?N"
    "(\<forall>t \<in> set ?ts. \<not> counting t) \<Longrightarrow> ?c < ?N"
    using tot by (simp_all add: bar_totals_def)
  from move show ?thesis
  proof cases
    case quiet
    have "(\<forall>t \<in> set (?ts[k := t']). \<not> counting t) \<Longrightarrow> \<forall>t \<in> set ?ts. \<not> counting t"
      using quiet k by (metis in_set_conv_nth length_list_update nth_list_update)
    with T quiet card_indices_pos [OF k, of arrived] card_indices_pos [OF k, of led]
      card_indices_pos [OF k, of has_reset]
    show ?thesis by (auto simp: bar_totals_def size upd)
  next
    case (count c g)
    then have c: "c = bcount (bar_data ?b)" using loc by (simp add: bar_local_def)
    have "\<forall>t \<in> set (?ts[k := ?t]). \<not> counting t"
      by (rule none) (simp_all add: count(1) lock_owner_def)
    then have "?c < ?N" using T(4) by simp
    moreover have "?N < 2 ^ 64" using unsigned_less [of "bn ?b"] by (simp add: bar_size_def)
    ultimately have "unat (c + 1) = ?c + 1" by (simp add: c unat_add_no_wrap)
    moreover have "\<not> (\<forall>t \<in> set (?ts[k := t']). \<not> counting t)" using some count(2) by simp
    ultimately show ?thesis using count T(1,2) \<open>?c < ?N\<close> by (simp add: bar_totals_def size upd) blast
  next
    case (wait g)
    then have lt: "?c < ?N" by (simp add: word_less_nat_alt bar_size_def)
    with wait T(1,2) card_indices_pos [OF k, of arrived] show ?thesis by (simp add: bar_totals_def size upd)
  next
    case (full g)
    then have "\<not> (\<forall>t \<in> set (?ts[k := t']). \<not> counting t)" using some by simp
    with full T(1-3) card_indices_pos [OF k, of arrived] show ?thesis
      by (auto simp: bar_totals_def size upd)
  next
    case reset
    then have "?c = ?N" using loc by (simp add: bar_local_def)
    moreover have "0 < ?N" by (simp add: bar_size_def)
    ultimately show ?thesis using reset T(1,2) card_indices_pos [OF k, of arrived]
      by (auto simp: bar_totals_def size upd)
  next
    case bump
    have "\<forall>t \<in> set (?ts[k := ?t]). \<not> counting t"
      by (rule none) (simp_all add: bump(1) lock_owner_def)
    then have "?c < ?N" using T(4) by simp
    with bump T(1,2) card_indices_pos [OF k, of arrived] card_indices_pos [OF k, of has_reset]
    show ?thesis by (auto simp: bar_totals_def size upd)
  qed
qed

lemma bar_local_act:
  assumes ok: "client_ok bstate bar_lock bar_wf S" and k: "k < length (tasks S)"
    and loc: "\<forall>t \<in> set (tasks S). bar_local (shared S) t"
    and tot: "bar_totals (shared S) (tasks S)"
    and move: "bar_move (shared S) (tasks S ! k) b' t'" and n: "bn b' = bn (shared S)"
  shows "\<forall>t \<in> set ((tasks S)[k := t']). bar_local b' t"
proof -
  let ?b = "shared S" and ?t = "tasks S ! k"
  have loc_k: "bar_local ?b ?t" using loc k by simp
  have le: "unat (bcount (bar_data ?b)) \<le> bar_size ?b" using tot by (simp add: bar_totals_def)
  have new: "bar_local b' t'"
    using move
  proof cases
    case (count c g)
    then have "c + 1 \<noteq> 0" by (simp add: usize_MAX_def add_eq_0_iff2)
    with count loc_k show ?thesis by (simp add: bar_local_def)
  next
    case (full g)
    then have "bcount (bar_data ?b) \<noteq> 0" and "\<not> bcount (bar_data ?b) < bn ?b"
      using loc_k by (simp_all add: bar_local_def)
    then have "unat (bcount (bar_data ?b)) = bar_size ?b"
      using le unat_eq_0 [of "bcount (bar_data ?b)"]
      by (auto simp: bar_size_def word_less_nat_alt not_less max_def split: if_splits)
    with full n show ?thesis by (simp add: bar_local_def bar_size_def)
  qed (use loc_k in \<open>simp_all add: bar_local_def\<close>)
  have "bar_local b' (tasks S ! j)" if j: "j < length (tasks S)" "j \<noteq> k" for j
  proof (cases "bar_data b' = bar_data ?b")
    case True
    with loc j(1) n bar_local_cong show ?thesis by (metis nth_mem)
  next
    case False
    with move have "lock_owner (bar_lock ?t) = 1" by cases (simp_all add: lock_owner_def)
    with client_owner_unique [OF ok j(1) k] j(2) have "lock_owner (bar_lock (tasks S ! j)) = 0" by fastforce
    then show ?thesis by (rule bar_local_free)
  qed
  with new k show ?thesis by (auto simp: in_set_conv_nth nth_list_update)
qed

interpretation bar_inv: inv_system "bar_step ev" bar_fresh "bar_start new_event n" "bar_inv n"
  for ev :: "('e, 'l) event_ops" and new_event n
proof
  fix b :: "'e barrier"
  assume start: "bar_start new_event n b"
  have "unat n < 2 ^ 64" using unsigned_less [of n] by simp
  with start bar.client_ok_init [OF start] show "bar_inv n \<lparr>shared = b, tasks = []\<rparr>"
    by (auto simp: bar_inv_def bar_totals_def bar_start_def barrier_new_def mutex_new_def bar_data_def
        bar_size_def)
next
  fix S :: "('e barrier, 'l barrier_wait) sys" and t :: "'l barrier_wait"
  assume inv: "bar_inv n S" and t: "bar_fresh t"
  then have "\<not> arrived t" "\<not> led t" "\<not> has_reset t" "\<not> counting t" "bar_local (shared S) t"
    by (simp_all add: bar_fresh_def wait_future_def bar_local_def)
  with inv bar.client_ok_spawn [OF _ t, of S] show "bar_inv n (S\<lparr>tasks := tasks S @ [t]\<rparr>)"
    by (auto simp: bar_inv_def bar_totals_def indices_snoc)
next
  fix S :: "('e barrier, 'l barrier_wait) sys" and k i b' t'
  assume inv: "bar_inv n S" and k: "k < length (tasks S)"
    and step: "bar_step ev i (shared S) (tasks S ! k) = Next (b', t')"
  have ok: "client_ok bstate bar_lock bar_wf S" and tot: "bar_totals (shared S) (tasks S)"
    and loc: "\<forall>t \<in> set (tasks S). bar_local (shared S) t" and n: "bn (shared S) = n"
    using inv by (simp_all add: bar_inv_def)
  have wf: "bar_wf (tasks S ! k)" and loc_k: "bar_local (shared S) (tasks S ! k)"
    using ok loc k by (simp_all add: client_ok_def)
  note move = bar_step_move [OF step wf loc_k]
  show "bar_inv n \<lparr>shared = b', tasks = (tasks S)[k := t']\<rparr>"
    using bar.client_ok_act [OF ok k step] bar_totals_act [OF ok k loc_k tot move]
      bar_local_act [OF ok k loc tot move] move(2) n by (simp add: bar_inv_def)
qed

end
