(* ===== verification/Barrier_Props.thy ===== *)
theory Barrier_Props
  imports Barrier_Inv Event_Queue
begin

text \<open>
  Properties of the barrier: the arithmetic of arrivals, leaders and generations; nobody returns
  before their generation is complete; when it is, everybody who waits for it has been woken; and
  no wake-up of the embedded mutex is lost.
\<close>

abbreviation bar_reachable ::
    "('e, 'l) event_ops \<Rightarrow> ('e \<Rightarrow> bool) \<Rightarrow> usize \<Rightarrow> ('e barrier, 'l barrier_wait) sys \<Rightarrow> bool" where
  "bar_reachable ev new_event n \<equiv> reachable (bar_step ev) bar_fresh (bar_start new_event n)"

subsection \<open>The generation a task waits for\<close>

definition after_gen :: "'l after \<Rightarrow> u64 option" where
  "after_gen a = (case a of Loop g l \<Rightarrow> Some g | Ret ws b \<Rightarrow> None)"

definition state_gen :: "wait_state \<Rightarrow> u64 option" where
  "state_gen ws = (case ws of WInitial \<Rightarrow> None | WWaiting g \<Rightarrow> Some g | WReacquiring g \<Rightarrow> Some g)"

text \<open>\<open>local_gen\<close> of a task that has not returned.\<close>

definition wait_gen :: "'l barrier_wait \<Rightarrow> u64 option" where
  "wait_gen t = (case t of
     BLock ws l \<Rightarrow> state_gen ws | BDropFut ws l \<Rightarrow> state_gen ws | BGuard ws \<Rightarrow> state_gen ws
   | BCheck g \<Rightarrow> Some g | BListen g \<Rightarrow> Some g | BUnlock a \<Rightarrow> after_gen a
   | BUnlockNotify a \<Rightarrow> after_gen a | BPoll g l \<Rightarrow> Some g | BSleep g l \<Rightarrow> Some g | _ \<Rightarrow> None)"

text \<open>\<open>local_gen\<close> of a task that has returned, or will do nothing else.\<close>

definition ret_gen :: "'l barrier_wait \<Rightarrow> u64 option" where
  "ret_gen t = (case t of
     BUnlock a \<Rightarrow> (case a of Ret ws b \<Rightarrow> state_gen ws | _ \<Rightarrow> None)
   | BUnlockNotify a \<Rightarrow> (case a of Ret ws b \<Rightarrow> state_gen ws | _ \<Rightarrow> None)
   | BDone ws b \<Rightarrow> state_gen ws | _ \<Rightarrow> None)"

lemma gen_simps [simp]:
  "state_gen WInitial = None" "state_gen (WWaiting g) = Some g" "state_gen (WReacquiring g) = Some g"
  "wait_gen (BLock ws l) = state_gen ws" "wait_gen (BDropFut ws x) = state_gen ws"
  "wait_gen (BGuard ws) = state_gen ws" "wait_gen (BCount g) = None" "wait_gen (BIncr g c) = None"
  "wait_gen (BTest g) = None" "wait_gen BReset = None" "wait_gen BBump = None"
  "wait_gen BNotify = None" "wait_gen (BCheck g) = Some g" "wait_gen (BListen g) = Some g"
  "wait_gen (BUnlock (Loop g x)) = Some g" "wait_gen (BUnlock (Ret ws b)) = None"
  "wait_gen (BUnlockNotify a) = wait_gen (BUnlock a)" "wait_gen (bar_after a) = wait_gen (BUnlock a)"
  "wait_gen (BPoll g x) = Some g" "wait_gen (BSleep g x) = Some g" "wait_gen (BDone ws b) = None"
  "wait_gen (BCancelled ws) = None"
  by (simp_all add: wait_gen_def state_gen_def after_gen_def bar_after_def split: after.split)

lemma ret_simps [simp]:
  "ret_gen (BLock ws l) = None" "ret_gen (BDropFut ws x) = None"
  "ret_gen (BGuard ws) = None" "ret_gen (BCount g) = None" "ret_gen (BIncr g c) = None"
  "ret_gen (BTest g) = None" "ret_gen BReset = None" "ret_gen BBump = None"
  "ret_gen BNotify = None" "ret_gen (BCheck g) = None" "ret_gen (BListen g) = None"
  "ret_gen (BUnlock (Loop g x)) = None" "ret_gen (BUnlock (Ret ws b)) = state_gen ws"
  "ret_gen (BUnlockNotify a) = ret_gen (BUnlock a)" "ret_gen (bar_after a) = ret_gen (BUnlock a)"
  "ret_gen (BPoll g x) = None" "ret_gen (BSleep g x) = None" "ret_gen (BDone ws b) = state_gen ws"
  "ret_gen (BCancelled ws) = None"
  by (simp_all add: ret_gen_def state_gen_def bar_after_def split: after.split)

lemma bar_locked_gen:
  "wait_gen (bar_locked ws l) = Some g \<Longrightarrow> state_gen ws = Some g" "ret_gen (bar_locked ws l) = None"
  by (auto simp: bar_locked_def split: lock.splits option.splits)

lemma bar_step_gen:
  assumes "bar_step ev i b t = Next (b', t')" and "bar_wf t"
  shows "wait_gen t' = Some g \<Longrightarrow> wait_gen t = Some g \<or> t = BTest g \<and> bcount (bar_data b) < bn b"
    and "ret_gen t' = Some g \<Longrightarrow> ret_gen t = Some g \<or>
      t = BGuard (WReacquiring g) \<and> g \<noteq> generation_id (bar_data b) \<or>
      t = BCheck g \<and> \<not> bcount (bar_data b) < bn b"
proof -
  have "(wait_gen t' = Some g \<longrightarrow> wait_gen t = Some g \<or> t = BTest g \<and> bcount (bar_data b) < bn b) \<and>
    (ret_gen t' = Some g \<longrightarrow> ret_gen t = Some g \<or>
      t = BGuard (WReacquiring g) \<and> g \<noteq> generation_id (bar_data b) \<or>
      t = BCheck g \<and> \<not> bcount (bar_data b) < bn b)"
  proof (cases t)
    case (BLock ws l)
    with assms show ?thesis
      by (auto simp: bar_step_def bar_locked_gen dest: bar_locked_gen(1) elim!: bar_lock_stepE)
  next
    case (BGuard ws)
    with assms show ?thesis
      by (auto simp: bar_step_def bar_run_Next map_outcome_Next_iff elim!: bar_guard_cases)
  qed (use assms in \<open>auto simp: bar_op_defs Let_def
         split: prod.splits if_splits bar_in.splits\<close>)
  then show "wait_gen t' = Some g \<Longrightarrow> wait_gen t = Some g \<or> t = BTest g \<and> bcount (bar_data b) < bn b"
    and "ret_gen t' = Some g \<Longrightarrow> ret_gen t = Some g \<or>
      t = BGuard (WReacquiring g) \<and> g \<noteq> generation_id (bar_data b) \<or>
      t = BCheck g \<and> \<not> bcount (bar_data b) < bn b"
    by blast+
qed

definition gen_ok :: "usize \<Rightarrow> nat \<Rightarrow> 'l barrier_wait \<Rightarrow> bool" where
  "gen_ok n leaders t \<longleftrightarrow>
     (\<forall>g. wait_gen t = Some g \<longrightarrow> n \<noteq> 0 \<and> (\<exists>i \<le> leaders. g = of_nat i)) \<and>
     (\<forall>g. ret_gen t = Some g \<longrightarrow> (\<exists>i < leaders. g = of_nat i))"

definition bar_gen_inv :: "usize \<Rightarrow> ('e barrier, 'l barrier_wait) sys \<Rightarrow> bool" where
  "bar_gen_inv n S \<longleftrightarrow> bar_inv n S \<and> (\<forall>t \<in> set (tasks S). gen_ok n (card (indices led (tasks S))) t)"

lemma gen_ok_mono: "gen_ok n m t \<Longrightarrow> m \<le> m' \<Longrightarrow> gen_ok n m' t"
  unfolding gen_ok_def by (meson le_trans less_le_trans)

lemma bar_gen_act:
  assumes inv: "bar_gen_inv n S" and k: "k < length (tasks S)"
    and step: "bar_step ev i (shared S) (tasks S ! k) = Next (b', t')"
  shows "bar_gen_inv n \<lparr>shared = b', tasks = (tasks S)[k := t']\<rparr>"
proof -
  let ?b = "shared S" and ?t = "tasks S ! k" and ?ts' = "(tasks S)[k := t']"
  let ?L = "card (indices led (tasks S))" and ?L' = "card (indices led ?ts')"
  have bi: "bar_inv n S" and gens: "\<And>t. t \<in> set (tasks S) \<Longrightarrow> gen_ok n ?L t"
    using inv by (simp_all add: bar_gen_inv_def)
  have ok: "client_ok bstate bar_lock bar_wf S" and tot: "bar_totals ?b (tasks S)" and n: "bn ?b = n"
    and loc: "bar_local ?b ?t" and wf: "bar_wf ?t"
    using bi k by (simp_all add: bar_inv_def client_ok_def)
  have old: "gen_ok n ?L ?t" using gens k by simp
  have gen: "generation_id (bar_data ?b) = of_nat ?L" using tot by (simp add: bar_totals_def)
  have "led ?t \<longrightarrow> led t'" using bar_step_move(1) [OF step wf loc] by cases simp_all
  then have LL: "?L \<le> ?L'" using card_indices_pos [OF k, of led] by (simp add: card_indices_update [OF k])
  have "gen_ok n ?L t'"
    unfolding gen_ok_def
  proof (intro conjI allI impI)
    fix g assume "wait_gen t' = Some g"
    from bar_step_gen(1) [OF step wf this] show "n \<noteq> 0" and "\<exists>i \<le> ?L. g = of_nat i"
      using old loc gen n by (auto simp: gen_ok_def bar_local_def)
  next
    fix g assume "ret_gen t' = Some g"
    from bar_step_gen(2) [OF step wf this] show "\<exists>i < ?L. g = of_nat i"
    proof (elim disjE conjE)
      assume t: "?t = BGuard (WReacquiring g)" and "g \<noteq> generation_id (bar_data ?b)"
      then have "g \<noteq> of_nat ?L" using gen by simp
      with old t show ?thesis by (auto simp: gen_ok_def) (metis le_neq_implies_less)
    next
      assume t: "?t = BCheck g" and full: "\<not> bcount (bar_data ?b) < bn ?b"
      have "\<forall>t \<in> set ((tasks S)[k := ?t]). \<not> counting t"
        by (rule none_counting [OF ok k]) (simp_all add: t lock_owner_def)
      then have "unat (bcount (bar_data ?b)) < bar_size ?b" using tot by (simp add: bar_totals_def)
      moreover have "0 < unat n" using old t by (simp add: gen_ok_def unat_gt_0)
      ultimately have False using full n by (simp add: bar_size_def word_less_nat_alt)
      then show ?thesis ..
    qed (use old in \<open>simp add: gen_ok_def\<close>)
  qed
  with gens LL have "\<forall>t \<in> set ?ts'. gen_ok n ?L' t"
    by (auto intro: gen_ok_mono dest!: set_update_subset_insert [THEN subsetD])
  with bar_inv.inv_act [OF bi k step] show ?thesis by (simp add: bar_gen_inv_def)
qed

interpretation bar_gen: inv_system "bar_step ev" bar_fresh "bar_start new_event n" "bar_gen_inv n"
  for ev :: "('e, 'l) event_ops" and new_event n
proof
  fix b :: "'e barrier"
  assume "bar_start new_event n b"
  from bar_inv.inv_init [OF this] show "bar_gen_inv n \<lparr>shared = b, tasks = []\<rparr>"
    by (simp add: bar_gen_inv_def)
next
  fix S :: "('e barrier, 'l barrier_wait) sys" and t :: "'l barrier_wait"
  assume inv: "bar_gen_inv n S" and t: "bar_fresh t"
  then have "\<not> led t" "gen_ok n m t" for m by (simp_all add: bar_fresh_def wait_future_def gen_ok_def)
  with inv bar_inv.inv_spawn [OF _ t] show "bar_gen_inv n (S\<lparr>tasks := tasks S @ [t]\<rparr>)"
    by (auto simp: bar_gen_inv_def indices_snoc)
next
  fix S :: "('e barrier, 'l barrier_wait) sys" and k i b' t'
  assume "bar_gen_inv n S" and "k < length (tasks S)"
    and "bar_step ev i (shared S) (tasks S ! k) = Next (b', t')"
  then show "bar_gen_inv n \<lparr>shared = b', tasks = (tasks S)[k := t']\<rparr>" by (rule bar_gen_act)
qed

subsection \<open>Waking the generation\<close>

text \<open>The listener \<open>evl\<close>; and the tasks that wait although their generation is over.\<close>

definition bar_listener :: "'l barrier_wait \<Rightarrow> 'l option" where
  "bar_listener t = (case t of
     BUnlock a \<Rightarrow> (case a of Loop g l \<Rightarrow> Some l | _ \<Rightarrow> None)
   | BUnlockNotify a \<Rightarrow> (case a of Loop g l \<Rightarrow> Some l | _ \<Rightarrow> None)
   | BPoll g l \<Rightarrow> Some l | BSleep g l \<Rightarrow> Some l | _ \<Rightarrow> None)"

definition overdue :: "u64 \<Rightarrow> 'l barrier_wait \<Rightarrow> bool" where
  "overdue current t \<longleftrightarrow> bar_listener t \<noteq> None \<and> wait_gen t \<noteq> Some current"

lemma bar_listener_simps [simp]:
  "bar_listener (BLock ws l) = None" "bar_listener (BDropFut ws x) = None"
  "bar_listener (BGuard ws) = None" "bar_listener (BCount g) = None" "bar_listener (BIncr g c) = None"
  "bar_listener (BTest g) = None" "bar_listener BReset = None" "bar_listener BBump = None"
  "bar_listener BNotify = None" "bar_listener (BCheck g) = None" "bar_listener (BListen g) = None"
  "bar_listener (BUnlock (Loop g x)) = Some x" "bar_listener (BUnlock (Ret ws b)) = None"
  "bar_listener (BUnlockNotify a) = bar_listener (BUnlock a)"
  "bar_listener (bar_after a) = bar_listener (BUnlock a)"
  "bar_listener (BPoll g x) = Some x" "bar_listener (BSleep g x) = Some x"
  "bar_listener (BDone ws b) = None" "bar_listener (BCancelled ws) = None"
  "bar_listener (bar_locked ws l) = None"
  by (simp_all add: bar_listener_def bar_after_def bar_locked_def split: after.split lock.split option.split)

lemma bar_step_effect:
  assumes "bar_step ev i b t = Next (b', t')" and "bar_wf t"
  shows "ev_effect ev (bevent b) (bar_listener t) (bevent b') (bar_listener t')"
proof (cases t)
  case (BLock ws l)
  with assms show ?thesis by (auto simp: bar_step_def intro: ev_effect.none elim!: bar_lock_stepE)
next
  case (BGuard ws)
  with assms show ?thesis
    by (auto simp: bar_step_def bar_run_Next map_outcome_Next_iff intro: ev_effect.none
        elim!: bar_guard_cases)
qed (use assms in \<open>auto simp: bar_op_defs Let_def intro: ev_effect.intros
       split: prod.splits if_splits bar_in.splits\<close>)

text \<open>
  After a step: the task is about to notify everybody; or it has; or the generation is as before and
  the task is overdue only if it was, with the same listener.
\<close>

lemma bar_step_due:
  assumes "bar_step ev i b t = Next (b', t')" and "bar_wf t" and "bar_local b t"
  shows "t' = BNotify \<or> bevent b' = ev_notify ev usize_MAX (bevent b) \<or>
    t \<noteq> BNotify \<and> generation_id (bar_data b') = generation_id (bar_data b) \<and>
      (overdue (generation_id (bar_data b')) t' \<longrightarrow>
        overdue (generation_id (bar_data b)) t \<and> bar_listener t' = bar_listener t)"
proof (cases t)
  case (BLock ws l)
  with assms show ?thesis
    by (auto simp: bar_step_def overdue_def bar_data_def dest: embedded_data elim!: bar_lock_stepE)
next
  case (BGuard ws)
  with assms show ?thesis
    by (auto simp: bar_step_def bar_run_Next map_outcome_Next_iff overdue_def elim!: bar_guard_cases)
next
  case (BUnlock a)
  with assms show ?thesis
    by (cases a) (auto simp: bar_op_defs unlock_sub_def overdue_def)
next
  case (BUnlockNotify a)
  with assms show ?thesis
    by (cases a) (auto simp: bar_op_defs unlock_notify_def overdue_def)
qed (use assms in \<open>auto simp: bar_op_defs Let_def overdue_def bar_local_def
       split: prod.splits if_splits bar_in.splits\<close>)

definition bar_wake_inv :: "('e, 'l) event_view \<Rightarrow> usize \<Rightarrow> ('e barrier, 'l barrier_wait) sys \<Rightarrow> bool" where
  "bar_wake_inv vw n S \<longleftrightarrow> bar_inv n S \<and>
     own_inv vw bar_listener (bevent (shared S)) (tasks S) \<and>
     (length (tasks S) < 2 ^ 64 \<longrightarrow>
       all_or_due vw bar_listener (overdue (generation_id (bar_data (shared S)))) (\<lambda>t. t = BNotify)
         (bevent (shared S)) (tasks S))"

lemma bar_wake_act:
  assumes laws: "event_laws ev vw" and inv: "bar_wake_inv vw n S" and k: "k < length (tasks S)"
    and step: "bar_step ev i (shared S) (tasks S ! k) = Next (b', t')"
  shows "bar_wake_inv vw n \<lparr>shared = b', tasks = (tasks S)[k := t']\<rparr>"
proof -
  let ?b = "shared S" and ?t = "tasks S ! k" and ?ts' = "(tasks S)[k := t']"
  let ?late = "overdue (generation_id (bar_data ?b))" and ?late' = "overdue (generation_id (bar_data b'))"
  have bi: "bar_inv n S" and own: "own_inv vw bar_listener (bevent ?b) (tasks S)"
    using inv by (simp_all add: bar_wake_inv_def)
  then have wf: "bar_wf ?t" and loc: "bar_local ?b ?t" using k by (simp_all add: bar_inv_def client_ok_def)
  note eff = bar_step_effect [OF step wf]
  have "all_or_due vw bar_listener ?late' (\<lambda>t. t = BNotify) (bevent b') ?ts'"
    if few: "length ?ts' < 2 ^ 64"
  proof (rule all_or_due_act [OF laws own k eff])
    show "bar_listener t \<noteq> None" if "?late' t" for t :: "'b barrier_wait" using that by (simp add: overdue_def)
    have everybody: "notified vw e = active vw e" if e: "e = ev_notify ev usize_MAX (bevent ?b)" for e
    proof -
      have "card (active vw (bevent ?b)) \<le> unat usize_MAX"
        using own_inv_card [OF own] few by (simp add: unat_usize_MAX)
      from notify_all [OF laws this] e notify_active [OF laws] show ?thesis by simp
    qed
    have old: "all_or_due vw bar_listener ?late (\<lambda>t. t = BNotify) (bevent ?b) (tasks S)"
      using inv few by (simp add: bar_wake_inv_def)
    from bar_step_due [OF step wf loc] everybody old
    show "t' = BNotify \<or> notified vw (bevent b') = active vw (bevent b') \<or>
      all_or_due vw bar_listener ?late' (\<lambda>t. t = BNotify) (bevent ?b) (tasks S) \<and> ?t \<noteq> BNotify \<and>
        (?late' t' \<longrightarrow> ?late' ?t \<and> bar_listener t' = bar_listener ?t)"
      by (elim disjE conjE) simp_all
  qed
  with bar_inv.inv_act [OF bi k step] own_inv_effect [OF laws own k eff]
  show ?thesis by (simp add: bar_wake_inv_def)
qed

interpretation bar_wake: inv_system "bar_step ev" bar_fresh "bar_start (fresh_event vw) n"
    "\<lambda>S. event_laws ev vw \<longrightarrow> bar_wake_inv vw n S"
  for ev :: "('e, 'l) event_ops" and vw n
proof
  fix b :: "'e barrier"
  assume start: "bar_start (fresh_event vw) n b"
  have "fresh_event vw (bevent b)" using start by (auto simp: bar_start_def barrier_new_def)
  then show "event_laws ev vw \<longrightarrow> bar_wake_inv vw n \<lparr>shared = b, tasks = []\<rparr>"
    by (auto simp: bar_wake_inv_def all_or_due_Nil own_inv_Nil intro: bar_inv.inv_init [OF start])
next
  fix S :: "('e barrier, 'l barrier_wait) sys" and t :: "'l barrier_wait"
  assume inv: "event_laws ev vw \<longrightarrow> bar_wake_inv vw n S" and t: "bar_fresh t"
  then have none: "bar_listener t = None" "\<not> overdue g t" for g
    by (simp_all add: bar_fresh_def wait_future_def overdue_def)
  from inv bar_inv.inv_spawn [OF _ t, of n S]
  show "event_laws ev vw \<longrightarrow> bar_wake_inv vw n (S\<lparr>tasks := tasks S @ [t]\<rparr>)"
    by (auto simp: bar_wake_inv_def intro: own_inv_snoc [where lst = bar_listener, OF none(1)]
        all_or_due_snoc [where waits = "overdue g" for g, OF none(2)])
next
  fix S :: "('e barrier, 'l barrier_wait) sys" and k i b' t'
  assume "event_laws ev vw \<longrightarrow> bar_wake_inv vw n S" and "k < length (tasks S)"
    and "bar_step ev i (shared S) (tasks S ! k) = Next (b', t')"
  then show "event_laws ev vw \<longrightarrow> bar_wake_inv vw n \<lparr>shared = b', tasks = (tasks S)[k := t']\<rparr>"
    using bar_wake_act by blast
qed

subsection \<open>A concrete run\<close>

lemmas bar_run_simps = exec1.simps exec.simps bar_step_def bar_lock_step_def bar_lock_in_def
  bar_locked_def bar_drop_fut_def bar_data_def set_data_def bar_guard_def bar_incr_def bar_test_def
  bar_check_def bar_reset_def bar_bump_def bar_notify_def bar_listen_def bar_after_def bar_poll_def
  bar_run_def lock_step_def try_lock_eq unlock_sub_def unlock_notify_def fetch_sub_def
  bar_fresh_def wait_future_def queue_event_simps

definition demo_barrier :: "qevent barrier" where
  "demo_barrier = barrier_new [] [] 2"

lemma demo_barrier_start: "bar_start (fresh_event queue_view) 2 demo_barrier"
  unfolding bar_start_def demo_barrier_def
  by (rule exI [of _ "[]"], rule exI [of _ "[]"]) (simp add: fresh_event_def queue_view_def)

text \<open>A barrier for two: the first task sleeps; the second was the leader and has woken it.\<close>

definition demo_met :: "(qevent barrier, nat barrier_wait) sys" where
  "demo_met =
     \<lparr>shared = \<lparr>bn = 2, bstate = \<lparr>mstate = 0, lock_ops = [], mdata = \<lparr>bcount = 0, generation_id = 1\<rparr>\<rparr>,
        bevent = [Some True]\<rparr>,
      tasks = [BSleep 0 0, BDone WInitial True]\<rparr>"

definition run_for :: "nat \<Rightarrow> nat \<Rightarrow> (bar_in, nat barrier_wait) sched list" where
  "run_for k m = replicate m (Act k (BaRun 0))"

lemma run_for_lists:
  "run_for k 5 = [Act k (BaRun 0), Act k (BaRun 0), Act k (BaRun 0), Act k (BaRun 0), Act k (BaRun 0)]"
  "run_for k 9 = run_for k 5 @ [Act k (BaRun 0), Act k (BaRun 0), Act k (BaRun 0), Act k (BaRun 0)]"
  "run_for k 10 = run_for k 5 @ run_for k 5"
  by (simp_all add: run_for_def numeral_eq_Suc)

lemma usize_MAX_neq: "usize_MAX \<noteq> 0" "usize_MAX \<noteq> 1"
  by (simp_all add: usize_eq_iff unat_usize_MAX)

lemma demo_met_run:
  "exec (bar_step queue_events) bar_fresh
     ([Spawn wait_future, Act 0 (BaPoll 0)] @ run_for 0 9 @
      [Spawn wait_future, Act 1 (BaPoll 0)] @ run_for 1 10)
     \<lparr>shared = demo_barrier, tasks = []\<rparr> = Next demo_met"
  by (simp add: bar_run_simps demo_barrier_def barrier_new_def mutex_new_def demo_met_def run_for_lists
      unat_usize_MAX usize_MAX_neq)

lemma demo_met_reachable: "bar_reachable queue_events (fresh_event queue_view) 2 demo_met"
  by (rule exec_reachable_init [where start = "bar_start (fresh_event queue_view) 2",
      OF demo_barrier_start demo_met_run])

text \<open>The first task has been polled and has returned; a third one sleeps.\<close>

definition demo_again :: "(qevent barrier, nat barrier_wait) sys" where
  "demo_again =
     \<lparr>shared = \<lparr>bn = 2, bstate = \<lparr>mstate = 0, lock_ops = [], mdata = \<lparr>bcount = 1, generation_id = 1\<rparr>\<rparr>,
        bevent = [None, Some False]\<rparr>,
      tasks = [BDone (WReacquiring 0) False, BDone WInitial True, BSleep 1 1]\<rparr>"

lemma demo_again_run:
  "exec (bar_step queue_events) bar_fresh
     ([Act 0 (BaPoll 0)] @ run_for 0 5 @ [Spawn wait_future, Act 2 (BaPoll 0)] @ run_for 2 9)
     demo_met = Next demo_again"
  by (simp add: bar_run_simps demo_met_def demo_again_def run_for_lists usize_MAX_neq)

lemma demo_again_reachable: "bar_reachable queue_events (fresh_event queue_view) 2 demo_again"
  by (rule exec_reachable [OF demo_again_run demo_met_reachable])

subsection \<open>Properties\<close>

text \<open>
  C33: the arithmetic of the barrier. Whenever nobody has the guard of the state, the calls of
  \<open>wait\<close> that have counted themselves (cancelled ones included) are \<open>n\<close> for each leader plus the
  count, the count is below \<open>n\<close>, and the generation is the number of leaders (modulo \<open>2^64\<close>). So
  each group of \<open>n\<close> arrivals has exactly one leader. (A barrier for 0 tasks behaves as one for 1.)
\<close>

theorem barrier_count_exact:
  assumes reach: "bar_reachable ev new_event n S"
    and free: "indices (\<lambda>t. lock_owner (bar_lock t) \<noteq> 0) (tasks S) = {}"
  shows "card (indices arrived (tasks S)) =
      max 1 (unat n) * card (indices led (tasks S)) + unat (bcount (bar_data (shared S))) \<and>
    unat (bcount (bar_data (shared S))) < max 1 (unat n) \<and>
    generation_id (bar_data (shared S)) = of_nat (card (indices led (tasks S)))"
proof -
  have inv: "bar_inv n S" by (rule bar_inv.reachable_inv [OF reach])
  have unowned: "lock_owner (bar_lock t) = 0" if "t \<in> set (tasks S)" for t
    using free that by (auto simp: indices_empty_iff)
  then have "\<not> counting t" "has_reset t = led t" if "t \<in> set (tasks S)" for t
    using that counting_owner [of t] by (fastforce simp: has_reset_def lock_owner_def)+
  moreover have "indices has_reset (tasks S) = indices led (tasks S)"
    using calculation(2) by (auto simp: indices_def)
  ultimately show ?thesis using inv by (auto simp: bar_inv_def bar_totals_def bar_size_def)
qed

theorem barrier_count_exact_witness:
  "card (indices arrived (tasks demo_again)) = 2 * card (indices led (tasks demo_again)) + 1 \<and>
   generation_id (bar_data (shared demo_again)) = of_nat (card (indices led (tasks demo_again)))"
proof -
  have "indices (\<lambda>t. lock_owner (bar_lock t) \<noteq> 0) (tasks demo_again) = {}"
    by (simp add: demo_again_def indices_empty_iff lock_owner_def)
  from barrier_count_exact [OF demo_again_reachable this] show ?thesis
    by (simp add: demo_again_def bar_data_def)
qed

text \<open>
  C32: nobody is released early. When a call of \<open>wait\<close> has returned that is not the leader, the
  generation it had read at its arrival is over: it is number \<open>i\<close> for some \<open>i\<close> below the number of
  leaders, and \<open>n\<close> tasks have arrived for every generation up to \<open>i\<close>.
\<close>

theorem barrier_no_early_return:
  assumes reach: "bar_reachable ev new_event n S"
    and k: "k < length (tasks S)" "tasks S ! k = BDone (WReacquiring g) leader"
  shows "\<not> leader \<and> (\<exists>i < card (indices led (tasks S)). g = of_nat i \<and>
    max 1 (unat n) * Suc i \<le> card (indices arrived (tasks S)))"
proof -
  have inv: "bar_gen_inv n S" by (rule bar_gen.reachable_inv [OF reach])
  then have bi: "bar_inv n S" and gen: "gen_ok n (card (indices led (tasks S))) (tasks S ! k)"
    using k(1) by (simp_all add: bar_gen_inv_def)
  from bi have tot: "bar_totals (shared S) (tasks S)" and n: "bn (shared S) = n"
    and "bar_wf (tasks S ! k)" using k(1) by (simp_all add: bar_inv_def client_ok_def)
  then have not: "\<not> leader" by (simp add: k(2) ret_wf_def)
  from gen obtain i where i: "i < card (indices led (tasks S))" "g = of_nat i"
    by (auto simp: gen_ok_def k(2))
  have "indices led (tasks S) \<subseteq> indices has_reset (tasks S)" by (auto simp: indices_def)
  then have "card (indices led (tasks S)) \<le> card (indices has_reset (tasks S))"
    by (intro card_mono) (simp_all add: indices_def)
  with i(1) have "max 1 (unat n) * Suc i \<le> max 1 (unat n) * card (indices has_reset (tasks S))"
    by (intro mult_le_mono2) simp
  with tot n have "max 1 (unat n) * Suc i \<le> card (indices arrived (tasks S))"
    by (simp add: bar_totals_def bar_size_def)
  with not i show ?thesis by blast
qed

theorem barrier_no_early_return_witness: "2 \<le> card (indices arrived (tasks demo_again))"
  using barrier_no_early_return [OF demo_again_reachable, of 0 0 False] by (auto simp: demo_again_def)

text \<open>A task at rest: it has not been polled, is suspended, or has finished.\<close>

definition bar_at_rest :: "'l barrier_wait \<Rightarrow> bool" where
  "bar_at_rest t = (case t of
     BLock ws l \<Rightarrow> (case l of LNew \<Rightarrow> True | LSlow s \<Rightarrow> True | _ \<Rightarrow> False)
   | BSleep g l \<Rightarrow> True | BDone ws b \<Rightarrow> True | BCancelled ws \<Rightarrow> True | _ \<Rightarrow> False)"

text \<open>The leader notifies \<open>usize::MAX\<close> listeners; there are fewer tasks than that.\<close>

lemma released_notified:
  assumes laws: "event_laws ev vw" and reach: "bar_reachable ev (fresh_event vw) n S"
    and few: "length (tasks S) < 2 ^ 64" and rest: "\<forall>t \<in> set (tasks S). bar_at_rest t"
    and k: "k < length (tasks S)" "tasks S ! k = BSleep g l"
    and over: "g \<noteq> generation_id (bar_data (shared S))"
  shows "l \<in> notified vw (bevent (shared S))"
proof -
  have "bar_wake_inv vw n S" using bar_wake.reachable_inv [OF reach] laws by blast
  moreover have "t \<noteq> BNotify" if "t \<in> set (tasks S)" for t
    using rest that by (auto simp: bar_at_rest_def)
  ultimately have
    "all_notified vw bar_listener (overdue (generation_id (bar_data (shared S)))) (bevent (shared S)) (tasks S)"
    using few by (auto simp: bar_wake_inv_def all_or_due_def)
  moreover have "overdue (generation_id (bar_data (shared S))) (tasks S ! k)"
    using over by (simp add: overdue_def k(2))
  ultimately show ?thesis using k by (auto simp: all_notified_def)
qed

lemma lock_queue_notified:
  assumes laws: "event_laws ev vw" and reach: "bar_reachable ev (fresh_event vw) n S"
    and rest: "\<forall>t \<in> set (tasks S). bar_at_rest t"
    and k: "k < length (tasks S)" "tasks S ! k = BLock ws (LSlow s)"
  shows "\<exists>j < length (tasks S). \<exists>ws' s' x. tasks S ! j = BLock ws' (LSlow s') \<and>
    sl_listener s' = Some x \<and> x \<in> notified vw (lock_ops (bstate (shared S)))"
proof -
  have at_rest: "lock_at_rest (bar_lock t)" "lock_owner (bar_lock t) = 0" if "t \<in> set (tasks S)" for t
    using rest that by (cases t; simp add: bar_at_rest_def lock_at_rest_def lock_owner_def
        split: lock.splits; force)+
  obtain j s' x where j: "j < length (tasks S)" "bar_lock (tasks S ! j) = LSlow s'"
    and x: "sl_listener s' = Some x" "x \<in> notified vw (lock_ops (bstate (shared S)))"
    using bar.client_rest [OF laws reach at_rest k(1)] k(2) by auto
  from j(2) obtain ws' where "tasks S ! j = BLock ws' (LSlow s')"
    by (auto simp: bar_lock_def split: barrier_wait.splits)
  with j(1) x show ?thesis by blast
qed

text \<open>
  C34: no wake-up of the barrier is lost. When every task is at rest, each suspended task whose
  generation is over has been notified; and if some task is suspended on the mutex inside the
  barrier, then the lock future of one of them has been notified.
\<close>

theorem barrier_wakes:
  assumes "event_laws ev vw" and "bar_reachable ev (fresh_event vw) n S"
    and "length (tasks S) < 2 ^ 64" and "\<forall>t \<in> set (tasks S). bar_at_rest t" and "k < length (tasks S)"
  shows "(\<forall>g l. tasks S ! k = BSleep g l \<and> g \<noteq> generation_id (bar_data (shared S)) \<longrightarrow>
      l \<in> notified vw (bevent (shared S))) \<and>
    (\<forall>ws s. tasks S ! k = BLock ws (LSlow s) \<longrightarrow>
      (\<exists>j < length (tasks S). \<exists>ws' s' x. tasks S ! j = BLock ws' (LSlow s') \<and>
        sl_listener s' = Some x \<and> x \<in> notified vw (lock_ops (bstate (shared S)))))"
  using released_notified [OF assms] lock_queue_notified [OF assms(1,2,4,5)] by blast

lemma bar_inv_no_panic:
  assumes inv: "bar_inv n S" and k: "k < length (tasks S)"
  shows "bar_step ev i (shared S) (tasks S ! k) \<noteq> Panic"
proof -
  from inv have ok: "client_ok bstate bar_lock bar_wf S" and tot: "bar_totals (shared S) (tasks S)"
    and wf: "bar_wf (tasks S ! k)" and loc: "bar_local (shared S) (tasks S ! k)"
    using k by (simp_all add: bar_inv_def client_ok_def)
  have incr: "c \<noteq> usize_MAX" if t: "tasks S ! k = BIncr g c" for g c
  proof -
    have "\<forall>t \<in> set ((tasks S)[k := tasks S ! k]). \<not> counting t"
      by (rule none_counting [OF ok k]) (simp_all add: t lock_owner_def)
    then have "\<forall>t \<in> set (tasks S). \<not> counting t" by (simp only: list_update_id)
    then have "unat c < bar_size (shared S)" using tot loc t by (simp add: bar_totals_def bar_local_def)
    moreover have "bar_size (shared S) < 2 ^ 64"
      using unsigned_less [of "bn (shared S)"] by (simp add: bar_size_def)
    ultimately have "unat c < 2 ^ 64 - 1" by simp
    then show ?thesis by (auto simp: unat_usize_MAX)
  qed
  have no_lock_panic: "map_outcome f (lock_step ev j m l) \<noteq> Panic" if "lock_wf l" for f j m l
    using lock_step_no_panic [OF that, of ev j m] by (cases "lock_step ev j m l") auto
  from wf loc incr show ?thesis
    by (cases "tasks S ! k")
       (auto simp: bar_step_def bar_lock_step_def bar_run_def bar_guard_def bar_incr_def state_wf_def
          dest: no_lock_panic split: bar_in.splits wait_state.splits)
qed

text \<open>
  No panic. The \<open>unwrap\<close>s of the lock future, the expectations inside it, and the overflow check
  of \<open>count += 1\<close> never fail.
\<close>

theorem barrier_never_panics:
  assumes "bar_reachable ev new_event n S" and "k < length (tasks S)"
  shows "bar_step ev i (shared S) (tasks S ! k) \<noteq> Panic"
  by (rule bar_inv_no_panic [OF bar_inv.reachable_inv [OF assms(1)] assms(2)])

text \<open>
  The first task holds the mutex when the second is polled, which suspends on it; then the first
  unlocks and sleeps.
\<close>

definition demo_stuck_lock :: "(qevent barrier, nat barrier_wait) sys" where
  "demo_stuck_lock =
     \<lparr>shared = \<lparr>bn = 2,
        bstate = \<lparr>mstate = 0, lock_ops = [Some True], mdata = \<lparr>bcount = 1, generation_id = 0\<rparr>\<rparr>,
        bevent = [Some False]\<rparr>,
      tasks = [BSleep 0 0,
        BLock WInitial (LSlow \<lparr>sl_mutex = True, sl_listener = Some 0, sl_start = Some 0, sl_starved = False\<rparr>)]\<rparr>"

lemma demo_stuck_lock_run:
  "exec (bar_step queue_events) bar_fresh
     ([Spawn wait_future, Act 0 (BaPoll 0), Act 0 (BaRun 0), Spawn wait_future, Act 1 (BaPoll 0),
       Act 1 (BaRun 0), Act 1 (BaRun 0), Act 1 (BaRun 0), Act 1 (BaRun 0)] @ run_for 0 5 @
       [Act 0 (BaRun 0), Act 0 (BaRun 0), Act 0 (BaRun 0)])
     \<lparr>shared = demo_barrier, tasks = []\<rparr> = Next demo_stuck_lock"
  by (simp add: bar_run_simps demo_barrier_def barrier_new_def mutex_new_def demo_stuck_lock_def
      run_for_lists slow_enter_def acquire_slow_new_def hot_top_def cas_state_eq usize_MAX_neq)

lemma demo_stuck_lock_reachable:
  "bar_reachable queue_events (fresh_event queue_view) 2 demo_stuck_lock"
  by (rule exec_reachable_init [where start = "bar_start (fresh_event queue_view) 2",
      OF demo_barrier_start demo_stuck_lock_run])

theorem barrier_wakes_witness:
  "0 \<in> notified queue_view (bevent (shared demo_met)) \<and>
   (\<exists>j < length (tasks demo_stuck_lock). \<exists>ws s x. tasks demo_stuck_lock ! j = BLock ws (LSlow s) \<and>
     sl_listener s = Some x \<and> x \<in> notified queue_view (lock_ops (bstate (shared demo_stuck_lock))))"
proof -
  have "\<forall>t \<in> set (tasks demo_met). bar_at_rest t" "\<forall>t \<in> set (tasks demo_stuck_lock). bar_at_rest t"
    by (simp_all add: demo_met_def demo_stuck_lock_def bar_at_rest_def)
  with barrier_wakes [OF queue_events_laws demo_met_reachable, of 0]
    barrier_wakes [OF queue_events_laws demo_stuck_lock_reachable, of 1]
  show ?thesis by (simp add: demo_met_def demo_stuck_lock_def bar_data_def)
qed

theorem barrier_never_panics_witness:
  "bar_step queue_events (BaPoll 3) (shared demo_stuck_lock) (tasks demo_stuck_lock ! 1) \<noteq> Panic"
  by (rule barrier_never_panics [OF demo_stuck_lock_reachable]) (simp add: demo_stuck_lock_def)

end
