(* ===== verification/Blocking_Calls.thy ===== *)
theory Blocking_Calls
  imports RawRwLock_Blocking Mutex_Arc_Props Semaphore_Arc_Props RwLock_Props OnceCell_Props Barrier_Props
begin

text \<open>
  The blocking methods of all the primitives, and their callers: each is the future of the asynchronous
  method, driven by the blocking strategy (theory \<open>Blocking\<close>). For each primitive: what is suspended,
  what is under way, which action drops an unfinished future, and the blocking methods. The
  interpretations give that the properties of the primitive hold with blocking callers too.
\<close>

subsection \<open>\<open>Mutex\<close>\<close>

definition mutex_asleep :: "'l mutex_task client \<Rightarrow> bool" where
  "mutex_asleep c = lock_asleep (lock_of (oper c))"

definition mutex_inside :: "'l mutex_task client \<Rightarrow> bool" where
  "mutex_inside c = lock_inside (lock_of (oper c))"

definition mutex_abandons :: "'a mutex_in arc_in \<Rightarrow> 'l mutex_task client \<Rightarrow> bool" where
  "mutex_abandons i c \<longleftrightarrow> i = Do (OnLock Cancel) \<and> mutex_inside c"

definition mutex_lock_arc_blocking :: "'l mutex_task client caller" where
  "mutex_lock_arc_blocking = blocking (client_new mutex_lock_arc)"

interpretation mta_blocking: blocking_system "mutex_step ev" "client_fresh mutex_entry"
    "arc_start (mutex_made new_event)" mutex_asleep mutex_inside mutex_abandons
  for ev :: "('e, 'l) event_ops" and new_event
  by unfold_locales
     (auto simp: mutex_asleep_def mutex_inside_def client_fresh_def mutex_entry_def mutex_lock_def
       mutex_try_lock_def mutex_lock_arc_def mutex_try_lock_arc_def lock_asleep_def lock_inside_def
       split: lock.splits)

subsection \<open>\<open>Semaphore\<close>\<close>

definition sem_asleep :: "'l sem_task client \<Rightarrow> bool" where
  "sem_asleep c = (case acquire_of (oper c) of SSleep l \<Rightarrow> True | _ \<Rightarrow> False)"

definition sem_inside :: "'l sem_task client \<Rightarrow> bool" where
  "sem_inside c = (case acquire_of (oper c) of
     SHeld lo \<Rightarrow> False | SRelease lo \<Rightarrow> False | SForgot lo \<Rightarrow> False | SAdd n \<Rightarrow> False
   | SAddNotify n \<Rightarrow> False | SAdded n \<Rightarrow> False | SDone lo \<Rightarrow> False | _ \<Rightarrow> True)"

definition sem_abandons :: "sem_arc_in arc_in \<Rightarrow> 'l sem_task client \<Rightarrow> bool" where
  "sem_abandons i c \<longleftrightarrow> i = Do (OnSem SCancel) \<and> sem_inside c"

definition sem_acquire_blocking :: "'l sem_task client caller" where
  "sem_acquire_blocking = blocking (client_new sem_acquire)"

definition sem_acquire_arc_blocking :: "'l sem_task client caller" where
  "sem_acquire_arc_blocking = blocking (client_new sem_acquire_arc)"

interpretation sma_blocking: blocking_system "semaphore_step ev" "client_fresh sem_entry"
    "arc_start (sem_made new_event n)" sem_asleep sem_inside sem_abandons
  for ev :: "('e, 'l) event_ops" and new_event n
  by unfold_locales
     (auto simp: sem_asleep_def sem_inside_def client_fresh_def sem_entry_def sem_fresh_def acquire_future_def
       split: acquire.splits sem_task.splits)

subsection \<open>\<open>RwLock\<close>\<close>

definition rwlock_asleep :: "'l rwlock_task client \<Rightarrow> bool" where
  "rwlock_asleep c = rw_asleep (raw_of (oper c))"

definition rwlock_inside :: "'l rwlock_task client \<Rightarrow> bool" where
  "rwlock_inside c = rw_inside (raw_of (oper c))"

definition rwlock_abandons :: "'a rwl_in arc_in \<Rightarrow> 'l rwlock_task client \<Rightarrow> bool" where
  "rwlock_abandons i c \<longleftrightarrow> i = Do (OnRaw RwCancel) \<and> rwlock_inside c"

definition rwlock_read_blocking :: "'l rwlock_task client caller" where
  "rwlock_read_blocking = blocking (client_new rwlock_read)"

definition rwlock_read_arc_blocking :: "'l rwlock_task client caller" where
  "rwlock_read_arc_blocking = blocking (client_new rwlock_read_arc)"

definition rwlock_upgradable_read_blocking :: "'l rwlock_task client caller" where
  "rwlock_upgradable_read_blocking = blocking (client_new rwlock_upgradable_read)"

definition rwlock_upgradable_read_arc_blocking :: "'l rwlock_task client caller" where
  "rwlock_upgradable_read_arc_blocking = blocking (client_new rwlock_upgradable_read_arc)"

definition rwlock_write_blocking :: "'l rwlock_task client caller" where
  "rwlock_write_blocking = blocking (client_new rwlock_write)"

definition rwlock_write_arc_blocking :: "'l rwlock_task client caller" where
  "rwlock_write_arc_blocking = blocking (client_new rwlock_write_arc)"

text \<open>
  \<open>upgrade_blocking\<close> begins with a guard: the caller chooses to block, calls \<open>upgrade\<close>, and drives
  the future. The remaining actions are those of the poll.
\<close>

definition upgrade_blocking_begin :: "nat \<Rightarrow> 'a rwl_in arc_in caller_in list" where
  "upgrade_blocking_begin now =
     [Wait_By True, Go (Do (OnRaw RwUpgrade)), Go (Do (OnRaw (RwPoll now)))]"

definition upgradable_upgrade_blocking :: "nat \<Rightarrow> 'a rwl_in arc_in caller_in list" where
  "upgradable_upgrade_blocking now = upgrade_blocking_begin now"

definition upgradable_upgrade_arc_blocking :: "nat \<Rightarrow> 'a rwl_in arc_in caller_in list" where
  "upgradable_upgrade_arc_blocking now = upgrade_blocking_begin now"

abbreviation rwlock_caller_step ::
    "('e, 'l) event_ops \<Rightarrow> 'a rwl_in arc_in caller_in \<Rightarrow> ('e, 'a) rwlock arc \<Rightarrow>
     'l rwlock_task client caller \<Rightarrow> (('e, 'a) rwlock arc \<times> 'l rwlock_task client caller) outcome" where
  "rwlock_caller_step ev \<equiv> caller_step (rwlock_step ev) rwlock_asleep rwlock_inside rwlock_abandons"

interpretation rwl_blocking: blocking_system "rwlock_step ev" "client_fresh rwlock_entry"
    "arc_start (rwlock_start new_event)" rwlock_asleep rwlock_inside rwlock_abandons
  for ev :: "('e, 'l) event_ops" and new_event
proof
  show "client_fresh rwlock_entry c \<Longrightarrow> \<not> rwlock_asleep c" for c :: "'l rwlock_task client"
    by (simp add: client_fresh_def rwlock_asleep_def rw_fresh_awake entry_raw)
qed (simp add: rwlock_asleep_def rwlock_inside_def rw_asleep_inside)

subsection \<open>\<open>OnceCell\<close>\<close>

definition once_asleep :: "('a, 'l) once \<Rightarrow> bool" where
  "once_asleep t = (case t of OWait pc lo \<Rightarrow> pc = WtSleep | OInit pc s \<Rightarrow> pc = InSleep | _ \<Rightarrow> False)"

definition once_inside :: "('a, 'l) once \<Rightarrow> bool" where
  "once_inside t = (case t of ODone r \<Rightarrow> False | _ \<Rightarrow> True)"

definition once_abandons :: "'a once_in \<Rightarrow> ('a, 'l) once \<Rightarrow> bool" where
  "once_abandons i t \<longleftrightarrow> i = OcCancel \<and> once_inside t"

definition once_wait_blocking :: "('a, 'l) once caller" where
  "once_wait_blocking = blocking (OWait WtGet None)"

definition once_get_or_try_init_blocking :: "('a, 'l) once caller" where
  "once_get_or_try_init_blocking = blocking (OInit InGet (initializer_new GetOrTryInit))"

text \<open>\<open>get_or_init_blocking\<close> is that with a closure that does not fail.\<close>

definition once_get_or_init_blocking :: "('a, 'l) once caller" where
  "once_get_or_init_blocking = once_get_or_try_init_blocking"

definition once_set_blocking :: "'a \<Rightarrow> ('a, 'l) once caller" where
  "once_set_blocking v = blocking (OInit InGet (initializer_new (SetValue v)))"

interpretation once_blocking: blocking_system "once_step ev dbg" once_fresh "once_start new_event"
    once_asleep once_inside once_abandons
  for ev :: "('e, 'l) event_ops" and dbg and new_event
  by unfold_locales (auto simp: once_fresh_def once_asleep_def once_inside_def split: once.splits)

text \<open>
  The \<open>_blocking\<close> initialisers poll the future of \<open>initialize_or_wait\<close> with \<open>now_or_never\<close>, once. The
  blocking strategy parks the thread while the listener it waits for has not been notified.
\<close>

definition once_parked :: "('e, 'l) event_ops \<Rightarrow> ('e, 'a) once_cell \<Rightarrow> ('a, 'l) once \<Rightarrow> bool" where
  "once_parked ev c t = (case t of
     OInit pc s \<Rightarrow> pc = InWait \<and>
       (case event_listener s of None \<Rightarrow> False | Some l \<Rightarrow> \<not> fst (ev_poll ev l (active_initializers c)))
   | OWait pc lo \<Rightarrow> pc = WtPoll \<and>
       (case lo of None \<Rightarrow> False | Some l \<Rightarrow> \<not> fst (ev_poll ev l (passive_waiters c)))
   | _ \<Rightarrow> False)"

text \<open>
  An action of that poll. There is no second poll, and the future is not dropped before the poll
  returns. If the future returns \<open>Pending\<close>, that is \<open>unreachable!\<close>.
\<close>

definition now_or_never ::
    "('e, 'l) event_ops \<Rightarrow> bool \<Rightarrow> 'a once_in \<Rightarrow> ('e, 'a) once_cell \<Rightarrow> ('a, 'l) once \<Rightarrow>
     (('e, 'a) once_cell \<times> ('a, 'l) once) outcome" where
  "now_or_never ev dbg i c t =
     (if i = OcPoll \<or> i = OcCancel \<or> once_parked ev c t then Disabled
      else case once_step ev dbg i c t of
        Next (c', t') \<Rightarrow> if once_asleep t' then Panic else Next (c', t')
      | r \<Rightarrow> r)"

text \<open>Only a strategy that does not wait can make the future return \<open>Pending\<close>.\<close>

lemma asleep_parked:
  assumes step: "once_step ev dbg i c t = Next (c', t')" and asleep: "once_asleep t'"
  shows "once_parked ev c t"
proof (cases t)
  case (OWait pc lo)
  with step asleep show ?thesis
    by (cases pc) (auto simp: once_step_def when_run_def unchanged_def is_initialized_def return_passive_def
        debug_assert_initialized_def once_asleep_def once_parked_def Let_def
        split: once_in.splits option.splits prod.splits if_splits)
next
  case (OInit pc s)
  with step asleep show ?thesis
    by (cases pc) (auto simp: once_step_def when_run_def unchanged_def is_initialized_def return_active_def
        debug_assert_initialized_def once_asleep_def once_parked_def Let_def closure_step_def claim_def
        init_match_def init_cas_def publish_done_def map_outcome_Next_iff
        split: once_in.splits option.splits prod.splits if_splits call.splits cell_state.splits)
qed (use step asleep in \<open>auto simp: once_step_def when_run_def unchanged_def is_initialized_def
      return_active_def once_asleep_def split: once_in.splits option.splits if_splits\<close>)

lemma now_or_never_no_panic:
  "once_step ev dbg i c t \<noteq> Panic \<Longrightarrow> now_or_never ev dbg i c t \<noteq> Panic"
  using asleep_parked [of ev dbg i c t]
  by (auto simp: now_or_never_def split: outcome.split)

subsection \<open>\<open>Barrier\<close>\<close>

definition bar_asleep :: "'l barrier_wait \<Rightarrow> bool" where
  "bar_asleep t = (case t of BLock ws l \<Rightarrow> lock_asleep l | BSleep g x \<Rightarrow> True | _ \<Rightarrow> False)"

definition bar_inside :: "'l barrier_wait \<Rightarrow> bool" where
  "bar_inside t = (case t of BDone ws leader \<Rightarrow> False | BCancelled ws \<Rightarrow> False | _ \<Rightarrow> True)"

definition bar_abandons :: "bar_in \<Rightarrow> 'l barrier_wait \<Rightarrow> bool" where
  "bar_abandons i t \<longleftrightarrow> i = BaCancel \<and> bar_inside t"

definition barrier_wait_blocking :: "'l barrier_wait caller" where
  "barrier_wait_blocking = blocking wait_future"

interpretation bar_blocking: blocking_system "bar_step ev" bar_fresh "bar_start new_event n"
    bar_asleep bar_inside bar_abandons
  for ev :: "('e, 'l) event_ops" and new_event n
  by unfold_locales
     (auto simp: bar_fresh_def wait_future_def bar_asleep_def bar_inside_def split: barrier_wait.splits)

subsection \<open>Blocking callers of the reader-writer lock\<close>

text \<open>
  The blocking methods refine the asynchronous ones, as the locale has it. In every state that callers of the lock reach, some
  blocking and some not, the lock and the operations are in a state that asynchronous callers
  reach as well; and no blocking caller is suspended: its future never returns \<open>Pending\<close>.
\<close>

theorem rwlock_blocking_refines:
  assumes "reachable (rwlock_caller_step ev) (caller_fresh (client_fresh rwlock_entry))
    (arc_start (rwlock_start new_event)) S"
  shows "rwl_reachable ev new_event \<lparr>shared = shared S, tasks = map call (tasks S)\<rparr> \<and>
    indices (\<lambda>c. blocks c \<and> rwlock_asleep (call c)) (tasks S) = {}"
  using rwl_blocking.blocking_sound [OF assms] rwl_blocking.blocking_awake [OF assms]
  by (auto simp: indices_def)

text \<open>
  Thread 0 has a guard from \<open>read_arc_blocking\<close>; thread 1 has one from \<open>upgradable_read_arc_blocking\<close>
  and is parked in \<open>upgrade_blocking\<close>.
\<close>

definition demo_threads :: "((qevent, nat) rwlock arc, nat rwlock_task client caller) sys" where
  "demo_threads =
     \<lparr>shared = \<lparr>inner = \<lparr>raw = \<lparr>rmutex = \<lparr>mstate = 1, lock_ops = [], mdata = ()\<rparr>,
          no_readers = [Some False], no_writer = [], rstate = 3\<rparr>, rvalue = 7\<rparr>, strong = 2, root = False\<rparr>,
      tasks = [blocking \<lparr>handle = False, oper = ReadGuardArc []\<rparr>,
        blocking \<lparr>handle = False, oper = UpgradeArc (RUpgrade DrWait (Some 0) [])\<rparr>]\<rparr>"

abbreviation run_call :: "nat \<Rightarrow> (nat rwl_in arc_in caller_in, nat rwlock_task client caller) sched" where
  "run_call k \<equiv> Act k (Go (Do (OnRaw (RwRun 0))))"

lemma demo_threads_run:
  "exec (rwlock_caller_step queue_events) (caller_fresh (client_fresh rwlock_entry))
     ([Spawn rwlock_read_arc_blocking, Act 0 (Go GetHandle), run_call 0,
       Act 0 (Go (Do (OnRaw (RwPoll 0)))), run_call 0, Act 0 (Go (Do ArcRun)), Act 0 (Go DropHandle),
       Spawn rwlock_upgradable_read_arc_blocking, Act 1 (Go GetHandle),
       Act 1 (Go (Do (OnRaw (RwPoll 0)))), run_call 1, run_call 1, run_call 1, Act 1 (Go (Do ArcRun)),
       Act 1 (Go DropHandle), Act 0 (Go DropRoot)] @
      map (Act 1) (upgradable_upgrade_arc_blocking 0) @ [run_call 1, run_call 1, run_call 1])
     \<lparr>shared = demo_arc, tasks = []\<rparr> = Next demo_threads"
  by (simp add: rw_run_simps rwl_run_simps client_new_def demo_arc_def rwlock_new_def demo_threads_def
      caller_step_def caller_fresh_def rwlock_read_arc_blocking_def blocking_def
      rwlock_upgradable_read_arc_blocking_def upgradable_upgrade_arc_blocking_def upgrade_blocking_begin_def
      rwlock_abandons_def rwlock_inside_def rw_inside_def rwlock_asleep_def rw_asleep_def)

theorem rwlock_blocking_refines_witness:
  "rwl_reachable queue_events (fresh_event queue_view)
     \<lparr>shared = shared demo_threads, tasks = map call (tasks demo_threads)\<rparr> \<and>
   \<not> rwlock_asleep (call (tasks demo_threads ! 1))"
proof -
  have "reachable (rwlock_caller_step queue_events) (caller_fresh (client_fresh rwlock_entry))
      (arc_start (rwlock_start (fresh_event queue_view))) demo_threads"
    by (rule exec_reachable_init [where start = "arc_start (rwlock_start (fresh_event queue_view))",
        OF demo_arc_start demo_threads_run])
  from rwlock_blocking_refines [OF this] show ?thesis
    by (simp add: indices_empty_iff demo_threads_def)
qed

end
