(* ===== verification/Semaphore_Wakeup.thy ===== *)
theory Semaphore_Wakeup
  imports Semaphore_Props
begin

text \<open>
  Wake-ups of the semaphore, under the event laws. A task waits when it sleeps or is about to poll
  its listener. It carries when it will look at the counter again, is about to notify, holds a
  guard (its drop notifies) or has forgotten one (which excuses the semaphore).
\<close>

definition sem_listener :: "'l acquire \<Rightarrow> 'l option" where
  "sem_listener t = (case t of
     SLoad lo \<Rightarrow> lo | SCas c lo \<Rightarrow> lo | SWait l \<Rightarrow> Some l | SSleep l \<Rightarrow> Some l
   | SHeld lo \<Rightarrow> lo | SRelease lo \<Rightarrow> lo | SForgot lo \<Rightarrow> lo | SDone lo \<Rightarrow> lo | _ \<Rightarrow> None)"

definition sem_waits :: "'l acquire \<Rightarrow> bool" where
  "sem_waits t = (case t of SWait l \<Rightarrow> True | SSleep l \<Rightarrow> True | _ \<Rightarrow> False)"

definition sem_carries :: "'l acquire \<Rightarrow> bool" where
  "sem_carries t = (case t of
     SLoad lo \<Rightarrow> True | SCas c lo \<Rightarrow> True | SListen \<Rightarrow> True
   | SHeld lo \<Rightarrow> True | SRelease lo \<Rightarrow> True | SForgot lo \<Rightarrow> True
   | SAddNotify n \<Rightarrow> n \<noteq> 0 | _ \<Rightarrow> False)"

interpretation sem_duty: wakeup_duty sem_listener sem_waits sem_carries sem_wf
  by unfold_locales (auto simp: sem_waits_def sem_listener_def split: acquire.splits)

lemma sem_step_effect:
  assumes "sem_step ev i s t = Next (s', t')"
  shows "ev_effect ev (sevent s) (sem_listener t) (sevent s') (sem_listener t')"
  using assms
  by (auto simp: sem_step_def sem_op_defs sem_listener_def Let_def intro: ev_effect.intros
      split: acquire.splits sem_in.splits option.splits if_splits prod.splits)

text \<open>
  What a step does to the duty, if its task does not carry afterwards: it has seen a counter of
  zero; or it has just notified; or it is calm, did not carry, and left the counter at zero if it
  was there.
\<close>

lemma sem_step_duty:
  assumes "sem_step ev i s t = Next (s', t')" and "sem_wf t" and "\<not> sem_carries t'"
  shows "scount s' = 0 \<or>
    sevent s' = ev_notify ev 1 (sevent s) \<or>
    (\<exists>n. n \<noteq> 0 \<and> sevent s' = ev_notify ev n (sevent s)) \<or>
    (\<not> sem_carries t \<and> (sem_waits t' \<longrightarrow> sem_waits t) \<and> (scount s' \<noteq> 0 \<longrightarrow> scount s \<noteq> 0) \<and>
      ev_calm ev (sevent s) (sem_listener t) (sevent s') (sem_listener t'))"
  using assms
  by (auto simp: sem_step_def sem_op_defs sem_wf_def sem_listener_def sem_waits_def sem_carries_def
        ev_calm_def Let_def
      split: acquire.splits sem_in.splits option.splits if_splits prod.splits)

definition sem_wake_inv ::
    "('e, 'l) event_view \<Rightarrow> ('e semaphore, 'l acquire) sys \<Rightarrow> bool" where
  "sem_wake_inv vw S \<longleftrightarrow> (\<forall>t \<in> set (tasks S). sem_wf t) \<and>
     own_inv vw sem_listener (sevent (shared S)) (tasks S) \<and>
     (scount (shared S) \<noteq> 0 \<longrightarrow>
       duty_done vw sem_listener sem_waits sem_carries (sevent (shared S)) (tasks S))"

lemma sem_wake_inv_act:
  assumes laws: "event_laws ev vw" and inv: "sem_wake_inv vw S" and k: "k < length (tasks S)"
    and step: "sem_step ev i (shared S) (tasks S ! k) = Next (s', t')"
  shows "sem_wake_inv vw \<lparr>shared = s', tasks = (tasks S)[k := t']\<rparr>"
proof -
  let ?e = "sevent (shared S)" and ?ts' = "(tasks S)[k := t']" and ?t = "tasks S ! k"
  have own: "own_inv vw sem_listener ?e (tasks S)" and wfs: "\<forall>t \<in> set (tasks S). sem_wf t"
    and duty: "scount (shared S) \<noteq> 0 \<Longrightarrow>
      duty_done vw sem_listener sem_waits sem_carries ?e (tasks S)"
    using inv by (simp_all add: sem_wake_inv_def)
  have wf: "sem_wf ?t" using wfs k by simp
  have wfs': "\<forall>t \<in> set ?ts'. sem_wf t"
    using wfs sem_step_wf [OF step wf] by (auto dest!: set_update_subset_insert [THEN subsetD])
  have own': "own_inv vw sem_listener (sevent s') ?ts'"
    by (rule own_inv_effect [OF laws own k sem_step_effect [OF step]])
  have "duty_done vw sem_listener sem_waits sem_carries (sevent s') ?ts'" if nz: "scount s' \<noteq> 0"
  proof (cases "sem_carries t'")
    case True
    with k show ?thesis by (rule sem_duty.duty_carrier)
  next
    case False
    from sem_step_duty [OF step wf False] nz consider
        n where "n \<noteq> 0" "sevent s' = ev_notify ev n ?e"
      | "\<not> sem_carries ?t" "sem_waits t' \<longrightarrow> sem_waits ?t" "scount (shared S) \<noteq> 0"
        "ev_calm ev ?e (sem_listener ?t) (sevent s') (sem_listener t')"
      using one_neq_zero by blast
    then show ?thesis
    proof cases
      case (1 n)
      with sem_duty.duty_notify [OF laws, of n ?e ?ts'] own' show ?thesis by simp
    next
      case 2
      from sem_duty.duty_frame [OF laws own own' k 2(4) duty [OF 2(3)] wf 2(1,2)] show ?thesis .
    qed
  qed
  with own' wfs' show ?thesis by (simp add: sem_wake_inv_def)
qed

interpretation sem_wake: inv_system "sem_step ev" sem_fresh "sem_start (fresh_event vw) n"
    "\<lambda>S. event_laws ev vw \<longrightarrow> sem_wake_inv vw S"
  for ev :: "('e, 'l) event_ops" and vw and n :: usize
proof
  fix s :: "'e semaphore"
  assume "sem_start (fresh_event vw) n s"
  then show "event_laws ev vw \<longrightarrow> sem_wake_inv vw \<lparr>shared = s, tasks = []\<rparr>"
    by (auto simp: sem_wake_inv_def sem_start_def sem_duty.duty_Nil intro: own_inv_Nil)
next
  fix S :: "('e semaphore, 'l acquire) sys" and t :: "'l acquire"
  assume inv: "event_laws ev vw \<longrightarrow> sem_wake_inv vw S" and t: "sem_fresh t"
  have none: "sem_listener t = None" "\<not> sem_waits t" "\<not> sem_carries t" "sem_wf t"
    using t by (auto simp: sem_fresh_def acquire_future_def sem_listener_def sem_waits_def sem_carries_def sem_wf_def
        split: acquire.splits)
  from inv none(4)
  show "event_laws ev vw \<longrightarrow> sem_wake_inv vw (S\<lparr>tasks := tasks S @ [t]\<rparr>)"
    by (auto simp: sem_wake_inv_def sem_duty.duty_snoc [OF none(2,3)]
        intro!: own_inv_snoc [of sem_listener, OF none(1)])
next
  fix S :: "('e semaphore, 'l acquire) sys" and k i s' t'
  assume "event_laws ev vw \<longrightarrow> sem_wake_inv vw S" and "k < length (tasks S)"
    and "sem_step ev i (shared S) (tasks S ! k) = Next (s', t')"
  then show "event_laws ev vw \<longrightarrow> sem_wake_inv vw \<lparr>shared = s', tasks = (tasks S)[k := t']\<rparr>"
    using sem_wake_inv_act by blast
qed

subsection \<open>Properties\<close>

text \<open>A task at rest: no call of it is running, and no completed future is left to be dropped.\<close>

definition sem_at_rest :: "'l acquire \<Rightarrow> bool" where
  "sem_at_rest t = (case t of SNew \<Rightarrow> True | SSleep l \<Rightarrow> True | SHeld lo \<Rightarrow> lo = None
     | SForgot lo \<Rightarrow> lo = None | SAdd n \<Rightarrow> True | SAdded n \<Rightarrow> True | SDone lo \<Rightarrow> lo = None | _ \<Rightarrow> False)"

text \<open>
  C24: the semaphore does not go to sleep with everything free. Whenever every task is at rest, a
  permit is available, every guard has been dropped and none forgotten, and some \<open>acquire\<close> is
  suspended, then some suspended \<open>acquire\<close> has been notified.
\<close>

theorem semaphore_idle_wakes:
  assumes laws: "event_laws ev vw"
    and reach: "sem_reachable ev (fresh_event vw) n S"
    and rest: "\<forall>t \<in> set (tasks S). sem_at_rest t"
    and avail: "available_permits (shared S) \<noteq> 0"
    and unheld: "indices is_held (tasks S) = {}" "indices is_forgot (tasks S) = {}"
    and susp: "k < length (tasks S)" "tasks S ! k = SSleep l"
  shows "\<exists>j < length (tasks S). \<exists>x. tasks S ! j = SSleep x \<and> x \<in> notified vw (sevent (shared S))"
proof -
  have inv: "sem_wake_inv vw S" using sem_wake.reachable_inv [OF reach] laws by blast
  with avail have own: "own_inv vw sem_listener (sevent (shared S)) (tasks S)"
    and duty: "duty_done vw sem_listener sem_waits sem_carries (sevent (shared S)) (tasks S)"
    by (simp_all add: sem_wake_inv_def available_permits_def)
  have "\<forall>t \<in> set (tasks S). \<not> sem_carries t"
    using rest unheld by (auto simp: sem_at_rest_def sem_carries_def indices_empty_iff is_held_def
        is_forgot_def split: acquire.splits)
  from sem_duty.duty_rest [OF laws own duty this susp(1)] susp(2) obtain j x where
    j: "j < length (tasks S)" "sem_listener (tasks S ! j) = Some x"
    and x: "x \<in> notified vw (sevent (shared S))"
    by (auto simp: sem_waits_def sem_wf_def)
  have "sem_at_rest (tasks S ! j)" using rest j(1) by simp
  with j(2) have "tasks S ! j = SSleep x"
    by (auto simp: sem_at_rest_def sem_listener_def split: acquire.splits)
  with j(1) x show ?thesis by blast
qed

text \<open>Both guards of the full semaphore have been dropped; the sleeper is notified.\<close>

definition demo_idle :: "(qevent semaphore, nat acquire) sys" where
  "demo_idle = \<lparr>shared = \<lparr>scount = 2, sevent = [Some True]\<rparr>,
     tasks = [SDone None, SDone None, SSleep 0]\<rparr>"

lemma demo_idle_run:
  "exec (sem_step queue_events) sem_fresh
     [Act 0 SDrop, Act 0 (SRun False), Act 1 SDrop, Act 1 (SRun False)] demo_full = Next demo_idle"
  by (simp add: sem_run_simps demo_full_def demo_idle_def)

lemma demo_idle_reachable: "sem_reachable queue_events (fresh_event queue_view) 2 demo_idle"
  by (rule exec_reachable [OF demo_idle_run demo_full_reachable])

theorem semaphore_idle_wakes_witness:
  "\<exists>j < length (tasks demo_idle). \<exists>x. tasks demo_idle ! j = SSleep x \<and>
     x \<in> notified queue_view (sevent (shared demo_idle))"
proof (rule semaphore_idle_wakes [OF queue_events_laws demo_idle_reachable])
  show "\<forall>t \<in> set (tasks demo_idle). sem_at_rest t" by (simp add: demo_idle_def sem_at_rest_def)
  show "available_permits (shared demo_idle) \<noteq> 0"
    by (simp add: demo_idle_def available_permits_def)
  show "indices is_held (tasks demo_idle) = {}" "indices is_forgot (tasks demo_idle) = {}"
    by (simp_all add: demo_idle_def indices_empty_iff is_held_def is_forgot_def)
  show "2 < length (tasks demo_idle)" "tasks demo_idle ! 2 = SSleep 0"
    by (simp_all add: demo_idle_def)
qed

text \<open>
  The run of the next property. Limit 2, two guards are held and two acquisitions sleep. The first
  sleeper is polled (a poll needs no notification) and finds no permit; before it polls its
  listener, both guards are dropped. Each drop calls \<open>notify(1)\<close>, which is satisfied with one
  notified listener: the first sleeper's. That task takes the notification and one permit.
\<close>

definition absorbed_schedule :: "(sem_in, nat acquire) sched list" where
  "absorbed_schedule =
     [Spawn SNew, Act 3 SPoll, Act 3 (SRun False), Act 3 (SRun False), Act 3 (SRun False),
      Act 3 (SRun False),
      Act 2 SPoll, Act 2 (SRun False),
      Act 0 SDrop, Act 0 (SRun False), Act 1 SDrop, Act 1 (SRun False),
      Act 2 (SRun False), Act 2 (SRun False), Act 2 (SRun False)]"

definition absorbed_wakeup :: "(qevent semaphore, nat acquire) sys" where
  "absorbed_wakeup = \<lparr>shared = \<lparr>scount = 1, sevent = [None, Some False]\<rparr>,
     tasks = [SDone None, SDone None, SHeld None, SSleep 1]\<rparr>"

text \<open>
  A wake-up can be absorbed. There is an event implementation that satisfies the laws, and a
  reachable state of a semaphore with limit 2 in which every task is at rest, a permit is
  available, one guard is held, and an \<open>acquire\<close> is suspended while no listener is notified: it
  stays suspended, with a permit free, until the remaining guard is dropped.
\<close>

theorem semaphore_wakeup_absorbed:
  "event_laws queue_events queue_view \<and>
   exec (sem_step queue_events) sem_fresh absorbed_schedule demo_full = Next absorbed_wakeup \<and>
   sem_reachable queue_events (fresh_event queue_view) 2 absorbed_wakeup \<and>
   list_all sem_at_rest (tasks absorbed_wakeup) \<and>
   available_permits (shared absorbed_wakeup) = 1 \<and>
   tasks absorbed_wakeup ! 3 = SSleep 1 \<and>
   notified queue_view (sevent (shared absorbed_wakeup)) = {}"
proof -
  have run: "exec (sem_step queue_events) sem_fresh absorbed_schedule demo_full =
      Next absorbed_wakeup"
    by (simp add: sem_run_simps absorbed_schedule_def demo_full_def absorbed_wakeup_def)
  have reach: "sem_reachable queue_events (fresh_event queue_view) 2 absorbed_wakeup"
    by (rule exec_reachable [OF run demo_full_reachable])
  have "notified queue_view (sevent (shared absorbed_wakeup)) = {}"
    by (auto simp: absorbed_wakeup_def queue_view_def less_Suc_eq nth_Cons' split: if_splits)
  with run reach queue_events_laws show ?thesis
    by (simp add: absorbed_wakeup_def sem_at_rest_def available_permits_def)
qed

end
