(* ===== verification/Semaphore_Solo.thy ===== *)
theory Semaphore_Solo
  imports Semaphore_Wakeup Solo_Run
begin

text \<open>
  Termination of the calls of the semaphore: a poll of \<open>acquire()\<close>, a \<open>try_acquire\<close>, an \<open>add_permits\<close> or
  the drop of a guard that runs alone returns within six actions, not counting those in which the weak
  compare-exchange fails without a reason.
\<close>

definition sem_busy :: "'l acquire \<Rightarrow> bool" where
  "sem_busy t = (case t of SNew \<Rightarrow> False | SSleep l \<Rightarrow> False | SHeld lo \<Rightarrow> False | SForgot lo \<Rightarrow> False
     | SAdded n \<Rightarrow> False | SDone lo \<Rightarrow> False | _ \<Rightarrow> True)"

text \<open>
  The actions still to come, less one. \<open>z\<close>: there is no permit. \<open>own\<close>: the task has a listener. \<open>n\<close>: it
  has been notified. The count that the task has loaded is not zero.
\<close>

definition look_rank :: "bool \<Rightarrow> bool \<Rightarrow> bool \<Rightarrow> nat \<Rightarrow> nat" where
  "look_rank z own n r = (if z then if n then 5 else if own then 1 else 3 else r)"

definition sem_rank :: "('e, 'l) event_view \<Rightarrow> 'e semaphore \<Rightarrow> 'l acquire \<Rightarrow> nat" where
  "sem_rank vw s t = (case t of
     STry \<Rightarrow> 1 | STryCas c \<Rightarrow> of_bool (c \<noteq> scount s)
   | SLoad lo \<Rightarrow> look_rank (scount s = 0) (lo \<noteq> None) (heard vw (sevent s) lo) 1
   | SCas c lo \<Rightarrow> look_rank (scount s = 0) (lo \<noteq> None) (heard vw (sevent s) lo) (of_bool (c \<noteq> scount s))
   | SListen \<Rightarrow> 2
   | SWait l \<Rightarrow> if l \<in> notified vw (sevent s) then 4 else 0
   | SAdd n \<Rightarrow> 1 | _ \<Rightarrow> 0)"

lemma sem_rank_le: "sem_rank vw s t \<le> 5"
  by (auto simp: sem_rank_def look_rank_def split: acquire.split)

lemma sem_progress:
  assumes laws: "event_laws ev vw" and wf: "sem_wf t" and busy: "sem_busy t"
    and act: "\<And>x. sem_listener t = Some x \<Longrightarrow> x \<in> active vw (sevent s)"
  shows "goes_on sem_busy (sem_rank vw) (sem_rank vw s t) (sem_step ev (SRun False) s t)"
proof (cases t)
  case SListen
  obtain l e where l: "ev_listen ev (sevent s) = (l, e)" by fastforce
  with listen_untold [OF laws l] SListen show ?thesis
    by (simp add: sem_step_def sem_rank_def look_rank_def)
next
  case (SWait l)
  then have reg: "l \<in> active vw (sevent s)" using act by (simp add: sem_listener_def)
  obtain r e where p: "ev_poll ev l (sevent s) = (r, e)" by fastforce
  from pollD(1) [OF laws reg p] p SWait show ?thesis
    by (simp add: sem_step_def sem_rank_def look_rank_def sem_busy_def)
next
  case (SLoad lo)
  then show ?thesis
    by (auto simp: sem_step_def sem_op_defs sem_rank_def look_rank_def sem_busy_def split: option.split)
next
  case (SCas c lo)
  with wf show ?thesis
    by (auto simp: sem_step_def sem_op_defs sem_rank_def look_rank_def sem_busy_def sem_wf_def
        split: option.split)
qed (use wf busy in \<open>auto simp: sem_step_def sem_op_defs sem_rank_def sem_busy_def sem_wf_def\<close>)

text \<open>A weak compare-exchange that fails spuriously has at least loaded the count.\<close>

lemma sem_retry:
  assumes laws: "event_laws ev vw" and wf: "sem_wf t" and busy: "sem_busy t"
    and act: "\<And>x. sem_listener t = Some x \<Longrightarrow> x \<in> active vw (sevent s)"
  shows "goes_on sem_busy (sem_rank vw) (Suc (sem_rank vw s t)) (sem_step ev (SRun b) s t)"
proof (cases "b \<and> (\<exists>c lo. t = STryCas c \<or> t = SCas c lo)")
  case True
  then show ?thesis
    by (auto simp: sem_step_def sem_op_defs sem_rank_def look_rank_def sem_busy_def split: option.split)
next
  case False
  then have "sem_step ev (SRun b) s t = sem_step ev (SRun False) s t"
    by (cases t) (auto simp: sem_step_def)
  with sem_progress [OF laws wf busy act] show ?thesis by (auto simp: goes_on_def)
qed

interpretation sem_solo: retry_system "sem_step ev" sem_busy "\<lambda>i. i = SRun False"
    "\<lambda>S. event_laws ev vw \<and> sem_wake_inv vw S" "sem_rank vw" "\<lambda>i. i = SRun True"
  for ev :: "('e, 'l) event_ops" and vw
proof
  fix S :: "('e semaphore, 'l acquire) sys" and k i s' t'
  assume "event_laws ev vw \<and> sem_wake_inv vw S" and "k < length (tasks S)"
    and "sem_step ev i (shared S) (tasks S ! k) = Next (s', t')"
  then show "event_laws ev vw \<and> sem_wake_inv vw \<lparr>shared = s', tasks = (tasks S)[k := t']\<rparr>"
    using sem_wake_inv_act by blast
next
  fix S :: "('e semaphore, 'l acquire) sys" and k and i :: sem_in
  assume ok: "event_laws ev vw \<and> sem_wake_inv vw S" and k: "k < length (tasks S)"
    and busy: "sem_busy (tasks S ! k)"
  from ok have laws: "event_laws ev vw" and own: "own_inv vw sem_listener (sevent (shared S)) (tasks S)"
    and wf: "sem_wf (tasks S ! k)"
    using k by (simp_all add: sem_wake_inv_def)
  note facts = laws wf busy own_inv_active [OF own k]
  show "i = SRun False \<Longrightarrow> goes_on sem_busy (sem_rank vw) (sem_rank vw (shared S) (tasks S ! k))
      (sem_step ev i (shared S) (tasks S ! k))"
    using sem_progress [OF facts] by simp
  show "i = SRun True \<Longrightarrow> goes_on sem_busy (sem_rank vw) (Suc (sem_rank vw (shared S) (tasks S ! k)))
      (sem_step ev i (shared S) (tasks S ! k))"
    using sem_retry [OF facts] by simp
qed

text \<open>
  C25: every call on a semaphore returns when it runs alone. From any reachable state, with the other
  tasks stopped at any point, a poll of an \<open>acquire\<close> future, a \<open>try_acquire\<close>, an \<open>add_permits\<close> or
  the drop of a guard comes to its end within six of its own actions, not counting those in which
  a weak compare-exchange fails spuriously, wherever these come and however many they are.
\<close>

theorem semaphore_call_returns:
  assumes "event_laws ev vw" and "sem_reachable ev (fresh_event vw) n S" and "k < length (tasks S)"
    and "\<forall>i \<in> set js. i = SRun False \<or> i = SRun True"
    and "6 \<le> length (filter (\<lambda>i. i = SRun False) js)"
  shows "\<exists>S'. solo (sem_step ev) sem_busy k js S = Next S' \<and> \<not> sem_busy (tasks S' ! k)"
proof (rule sem_solo.retry_returns [where vw = vw])
  show "event_laws ev vw \<and> sem_wake_inv vw S"
    using sem_wake.reachable_inv [OF assms(2)] assms(1) by blast
  show "sem_rank vw (shared S) (tasks S ! k) < length (filter (\<lambda>i. i = SRun False) js)"
    using sem_rank_le [of vw "shared S" "tasks S ! k"] assms(5) by simp
qed (use assms(3,4) in auto)

text \<open>The notified sleeper of \<open>demo_idle\<close> has been polled, and then left before it does anything else.\<close>

definition demo_woken :: "(qevent semaphore, nat acquire) sys" where
  "demo_woken = \<lparr>shared = shared demo_idle, tasks = (tasks demo_idle)[2 := SLoad (Some 0)]\<rparr>"

lemma demo_woken_reachable: "sem_reachable queue_events (fresh_event queue_view) 2 demo_woken"
proof (rule exec_reachable [OF _ demo_idle_reachable])
  show "exec (sem_step queue_events) sem_fresh [Act 2 SPoll] demo_idle = Next demo_woken"
    by (simp add: sem_run_simps demo_woken_def demo_idle_def)
qed

theorem semaphore_call_returns_witness:
  "\<exists>S'. solo (sem_step queue_events) sem_busy 2 ([SRun False, SRun True, SRun True] @ replicate 5 (SRun False))
      demo_woken = Next S' \<and> \<not> sem_busy (tasks S' ! 2)"
  by (rule semaphore_call_returns [OF queue_events_laws demo_woken_reachable])
    (auto simp: demo_woken_def demo_idle_def)

end
