(* ===== verification/OnceCell_Wakeup.thy ===== *)
theory OnceCell_Wakeup
  imports OnceCell_Props Wakeup_Duty
begin

text \<open>
  Wake-ups of the cell, under the event laws. A listener of \<open>passive_waiters\<close> is notified only when
  the cell is initialised; this is what makes the unchecked read at the end of \<open>wait\<close> safe. While
  the cell is uninitialised, the duty to wake the next initialiser is done; once it is initialised
  and the notifications have been made, every waiting task has been notified.
\<close>

subsection \<open>Listeners\<close>

definition active_listener :: "('a, 'l) once \<Rightarrow> 'l option" where
  "active_listener t = (case t of
     OInit pc s \<Rightarrow> event_listener s | OGuardStore lo r \<Rightarrow> lo | OGuardNotify lo r \<Rightarrow> lo
   | ODropActive l r \<Rightarrow> Some l | _ \<Rightarrow> None)"

definition passive_listener :: "('a, 'l) once \<Rightarrow> 'l option" where
  "passive_listener t = (case t of OWait pc lo \<Rightarrow> lo | ODropPassive l r \<Rightarrow> Some l | _ \<Rightarrow> None)"

lemma listener_simps [simp]:
  "active_listener OIsInit = None" "active_listener OGet = None" "active_listener OGetRead = None"
  "active_listener (OWait wpc lo) = None" "active_listener (OInit pc s) = event_listener s"
  "active_listener (OGuardStore lo r) = lo" "active_listener (OGuardNotify lo r) = lo"
  "active_listener (ODropActive l r) = Some l" "active_listener (ODropPassive l r) = None"
  "active_listener (ODone r) = None"
  "passive_listener OIsInit = None" "passive_listener OGet = None" "passive_listener OGetRead = None"
  "passive_listener (OWait wpc lo) = lo" "passive_listener (OInit pc s) = None"
  "passive_listener (OGuardStore lo r) = None" "passive_listener (OGuardNotify lo r) = None"
  "passive_listener (ODropActive l r) = None" "passive_listener (ODropPassive l r) = Some l"
  "passive_listener (ODone r) = None"
  by (simp_all add: active_listener_def passive_listener_def)

lemma return_listeners [simp]:
  "active_listener (return_active lo r) = lo" "passive_listener (return_active lo r) = None"
  "passive_listener (return_passive lo r) = lo" "active_listener (return_passive lo r) = None"
  by (simp_all add: return_active_def return_passive_def split: option.split)

lemma wait_step_effects:
  assumes "wait_step ev dbg pc c lo = Next (c', t')" and "wait_wf pc lo"
  shows "ev_effect ev (passive_waiters c) lo (passive_waiters c') (passive_listener t')"
    and "active_initializers c' = active_initializers c \<and> active_listener t' = None"
  using assms
  by (cases pc; auto simp: once_op_defs wait_wf_def Let_def intro: ev_effect.intros
      split: option.splits prod.splits if_splits)+

lemma init_step_effects:
  assumes "init_step ev dbg pc c s = Next (c', t')" and "init_wf pc s"
  shows "ev_effect ev (active_initializers c) (event_listener s) (active_initializers c') (active_listener t')"
    and "(passive_waiters c' = passive_waiters c \<or>
        pc = InNotifyPassive \<and> passive_waiters c' = ev_notify_additional ev usize_MAX (passive_waiters c)) \<and>
      passive_listener t' = None"
  using assms
  by (cases pc; auto simp: once_op_defs init_wf_def is_try_set_def Let_def intro: ev_effect.intros
      split: option.splits prod.splits if_splits cell_state.splits call.splits)+

lemma once_step_active:
  assumes "once_step ev dbg i c t = Next (c', t')" and "once_wf t"
  shows "ev_effect ev (active_initializers c) (active_listener t) (active_initializers c') (active_listener t')"
  using assms
  by (cases t)
     (auto simp: once_step_def when_run_Next unchanged_Next closure_step_def guard_store_def
        guard_notify_def is_initialized_def
       dest: init_step_effects(1) dest!: wait_step_effects(2) intro: ev_effect.intros
       split: once_in.splits if_splits call.splits option.splits)

lemma once_step_passive:
  assumes "once_step ev dbg i c t = Next (c', t')" and "once_wf t"
  shows "ev_effect ev (passive_waiters c) (passive_listener t) (passive_waiters c') (passive_listener t')"
  using assms
  by (cases t)
     (auto simp: once_step_def when_run_Next unchanged_Next closure_step_def guard_store_def
        guard_notify_def is_initialized_def
       dest: wait_step_effects(1) dest!: init_step_effects(2) intro: ev_effect.intros
       split: once_in.splits if_splits call.splits option.splits)

subsection \<open>What awaiting guarantees\<close>

text \<open>The task has been woken in \<open>wait\<close> and will read without looking at the state.\<close>

definition awaited :: "('a, 'l) once \<Rightarrow> bool" where
  "awaited t = (case t of OWait pc lo \<Rightarrow> pc = WtAssert \<or> pc = WtRead | _ \<Rightarrow> False)"

text \<open>The content behind the reference that a call returns.\<close>

definition res_ref :: "'a ores \<Rightarrow> 'a option option" where
  "res_ref r = (case r of RRef x \<Rightarrow> Some x | RSet x \<Rightarrow> Some x | _ \<Rightarrow> None)"

definition reference :: "('a, 'l) once \<Rightarrow> 'a option option" where
  "reference t = (case t of
     ODone r \<Rightarrow> res_ref r | ODropActive l r \<Rightarrow> res_ref r | ODropPassive l r \<Rightarrow> res_ref r
   | OGuardStore lo r \<Rightarrow> res_ref r | OGuardNotify lo r \<Rightarrow> res_ref r
   | _ \<Rightarrow> None)"

definition await_inv :: "('e, 'l) event_view \<Rightarrow> (('e, 'a) once_cell, ('a, 'l) once) sys \<Rightarrow> bool" where
  "await_inv vw S \<longleftrightarrow>
     (notified vw (passive_waiters (shared S)) \<noteq> {} \<longrightarrow> ostate (shared S) = 2) \<and>
     (\<forall>t \<in> set (tasks S). awaited t \<longrightarrow> ostate (shared S) = 2) \<and>
     (\<forall>t \<in> set (tasks S). \<forall>x. reference t = Some x \<longrightarrow> ostate (shared S) = 2 \<and> x = ovalue (shared S))"

text \<open>
  What a step of one task adds to this: a task is woken in \<open>wait\<close> only by a notification; a new
  reference is to the current content and the task had seen that the cell is initialised; and
  listeners are notified only by a task that has stored the state.
\<close>

lemma res_ref_simps [simp]:
  "res_ref (RRef x) = Some x" "res_ref (RSet x) = Some x" "res_ref RErr = None" "res_ref RNone = None"
  "res_ref (RBool b) = None" "res_ref RUnit = None" "res_ref (RRefused v) = None"
  "res_ref RCancelled = None" "res_ref RPanicked = None"
  by (simp_all add: res_ref_def)

lemma reference_simps [simp]:
  "reference (OWait pc lo) = None" "reference (OInit ipc s) = None" "reference OIsInit = None"
  "reference OGet = None" "reference OGetRead = None" "reference (ODone r) = res_ref r"
  "reference (ODropActive l r) = res_ref r" "reference (ODropPassive l r) = res_ref r"
  "reference (OGuardStore lo r) = res_ref r" "reference (OGuardNotify lo r) = res_ref r"
  "reference (return_active lo r) = res_ref r" "reference (return_passive lo r) = res_ref r"
  by (simp_all add: reference_def return_active_def return_passive_def split: option.split)

lemma awaited_simps [simp]:
  "awaited OIsInit = False" "awaited OGet = False" "awaited OGetRead = False"
  "awaited (OWait pc lo) \<longleftrightarrow> pc = WtAssert \<or> pc = WtRead" "awaited (OInit ipc s) = False"
  "awaited (OGuardStore lo r) = False" "awaited (OGuardNotify lo r) = False"
  "awaited (ODropActive l r) = False" "awaited (ODropPassive l r) = False" "awaited (ODone r) = False"
  "awaited (return_active lo r) = False" "awaited (return_passive lo r) = False"
  by (simp_all add: awaited_def return_active_def return_passive_def split: option.split)

lemma init_result_reference: "res_ref (init_result c s) = Some x \<Longrightarrow> x = ovalue c"
  by (auto simp: init_result_def get_unchecked_def split: call.splits if_splits)

lemma wait_step_ref:
  assumes "wait_step ev dbg pc c lo = Next (c', t')" and "reference t' = Some x"
  shows "x = ovalue c' \<and> (has_seen (OWait pc lo) \<or> awaited (OWait pc lo))"
  using assms
  by (cases pc)
     (auto simp: unchanged_Next is_initialized_def debug_assert_initialized_def get_unchecked_def
       has_seen_def [of "OWait _ _"] Let_def split: option.splits prod.splits if_splits)

lemma wait_step_awaited:
  assumes "wait_step ev dbg pc c lo = Next (c', t')" and "awaited t'"
  shows "awaited (OWait pc lo) \<or>
    (\<exists>l. lo = Some l \<and> ev_poll ev l (passive_waiters c) = (True, passive_waiters c'))"
proof (cases pc)
  case WtPoll
  with assms show ?thesis by (auto split: option.splits prod.splits if_splits)
qed (use assms in \<open>auto simp: unchanged_Next is_initialized_def debug_assert_initialized_def Let_def
       split: option.splits prod.splits if_splits\<close>)

lemma init_match_not_awaited: "init_match w s = Next t' \<Longrightarrow> \<not> awaited t' \<and> reference t' = None"
  by (auto simp: init_match_def split: option.splits cell_state.splits)

lemma publish_done_not_awaited: "\<not> awaited (publish_done s)" "reference (publish_done s) = None"
  by (simp_all add: publish_done_def split: call.split)

lemma init_step_awaited: "init_step ev dbg pc c s = Next (c', t') \<Longrightarrow> \<not> awaited t'"
  by (cases pc)
     (auto simp: unchanged_Next is_initialized_def init_cas_def debug_assert_initialized_def
       publish_done_not_awaited Let_def
       dest: init_match_not_awaited split: option.splits prod.splits if_splits)

lemma init_step_ref:
  assumes "init_step ev dbg pc c s = Next (c', t')" and "reference t' = Some x"
  shows "x = ovalue c' \<and> has_seen (OInit pc s)"
proof (cases "pc = InGetRead \<or> pc = InRead")
  case True
  with assms init_result_reference [of c s x] show ?thesis by (auto simp: has_seen_def)
next
  case False
  with assms(1) have "reference t' = None"
    by (cases pc)
       (auto simp: unchanged_Next is_initialized_def init_cas_def debug_assert_initialized_def
         publish_done_not_awaited Let_def
         dest: init_match_not_awaited split: option.splits prod.splits if_splits)
  with assms(2) show ?thesis by simp
qed


lemma once_step_awaited:
  assumes "once_step ev dbg i c t = Next (c', t')" and "awaited t'"
  shows "awaited t \<or>
    (\<exists>l. passive_listener t = Some l \<and> ev_poll ev l (passive_waiters c) = (True, passive_waiters c'))"
proof (cases t)
  case (OWait pc lo)
  with assms show ?thesis
    by (auto simp: once_step_def when_run_Next dest: wait_step_awaited split: once_in.splits if_splits)
qed (use assms in \<open>auto simp: once_step_def when_run_Next unchanged_Next is_initialized_def
       closure_step_def dest: init_step_awaited
       split: once_in.splits if_splits call.splits option.splits\<close>)

lemma once_step_ref:
  assumes "once_step ev dbg i c t = Next (c', t')" and "reference t' = Some x"
  shows "reference t = Some x \<or> x = ovalue c' \<and> (has_seen t \<or> awaited t)"
proof (cases t)
  case OGetRead
  with assms show ?thesis by (auto simp: once_step_def when_run_Next get_unchecked_def has_seen_def)
next
  case (OWait pc lo)
  with assms show ?thesis
    by (auto simp: once_step_def when_run_Next dest: wait_step_ref split: once_in.splits if_splits)
next
  case (OInit pc s)
  with assms show ?thesis
    by (auto simp: once_step_def when_run_Next unchanged_Next closure_step_def dest: init_step_ref
       split: once_in.splits if_splits call.splits)
qed (use assms in \<open>auto simp: once_step_def when_run_Next unchanged_Next is_initialized_def
       split: option.splits if_splits\<close>)

lemma wait_step_silent:
  assumes "wait_step ev dbg pc c lo = Next (c', t')" and "wait_wf pc lo"
  shows "ev_silent ev (passive_waiters c) lo (passive_waiters c') (passive_listener t')"
  using assms
  by (cases pc; auto simp: once_op_defs wait_wf_def ev_silent_def Let_def
      split: option.splits prod.splits if_splits)

lemma once_step_silent:
  assumes "once_step ev dbg i c t = Next (c', t')" and "once_wf t"
  shows "ev_silent ev (passive_waiters c) (passive_listener t) (passive_waiters c') (passive_listener t')
    \<or> has_seen t"
proof (cases t)
  case (OWait pc lo)
  with assms show ?thesis
    by (auto simp: once_step_def when_run_Next ev_silent_same dest: wait_step_silent split: once_in.splits if_splits)
next
  case (OInit pc s)
  with assms show ?thesis
    by (auto simp: once_step_def when_run_Next unchanged_Next closure_step_def ev_silent_def has_seen_def
        dest!: init_step_effects(2) split: once_in.splits if_splits call.splits)
qed (use assms in \<open>auto simp: once_step_def when_run_Next unchanged_Next ev_silent_def is_initialized_def
       guard_store_def guard_notify_def split: option.splits if_splits\<close>)

lemma once_step_stable:
  assumes inv: "counting_inv once_wt once_wf once_good S" and k: "k < length (tasks S)"
    and step: "once_step ev dbg i (shared S) (tasks S ! k) = Next (c', t')"
    and two: "ostate (shared S) = 2"
  shows "ostate c' = 2 \<and> ovalue c' = ovalue (shared S)"
proof -
  have "\<not> claims (tasks S ! k)"
    using inv claims_single [of "shared S" "tasks S" k] k two by (auto simp: counting_inv_def)
  moreover have "once_wf (tasks S ! k)" using inv k by (simp add: counting_inv_def)
  ultimately show ?thesis using once_step_move [OF step] two by (auto elim: once_move.cases)
qed

definition once_await_ok :: "('e, 'l) event_view \<Rightarrow> (('e, 'a) once_cell, ('a, 'l) once) sys \<Rightarrow> bool" where
  "once_await_ok vw S \<longleftrightarrow> counting_inv once_wt once_wf once_good S \<and>
     own_inv vw active_listener (active_initializers (shared S)) (tasks S) \<and>
     own_inv vw passive_listener (passive_waiters (shared S)) (tasks S) \<and>
     await_inv vw S"

lemma seen_initialized:
  assumes "counting_inv once_wt once_wf once_good S" and "k < length (tasks S)" and "has_seen (tasks S ! k)"
  shows "ostate (shared S) = 2"
proof -
  have "0 < totals once_wt (tasks S) KSeen"
    using totals_member_le [OF assms(2), of once_wt KSeen] assms(3) by (simp add: once_wt_def)
  with assms(1) show ?thesis by (simp add: counting_inv_def once_good_def)
qed

lemma await_inv_act:
  assumes laws: "event_laws ev vw" and ok: "once_await_ok vw S" and k: "k < length (tasks S)"
    and step: "once_step ev dbg i (shared S) (tasks S ! k) = Next (c', t')"
  shows "await_inv vw \<lparr>shared = c', tasks = (tasks S)[k := t']\<rparr>"
proof -
  let ?c = "shared S" and ?t = "tasks S ! k"
  have cnt: "counting_inv once_wt once_wf once_good S" and aw: "await_inv vw S"
    and own: "own_inv vw passive_listener (passive_waiters ?c) (tasks S)"
    using ok by (simp_all add: once_await_ok_def)
  have wf: "once_wf ?t" using cnt k by (simp add: counting_inv_def)
  note stable = once_step_stable [OF cnt k step]
  note seen = seen_initialized [OF cnt k]
  have act: "l \<in> active vw (passive_waiters ?c)" if "passive_listener ?t = Some l" for l
    by (rule own_inv_active [OF own k that])
  have 1: "ostate c' = 2" if "notified vw (passive_waiters c') \<noteq> {}"
    using once_step_silent [OF step wf]
  proof
    assume "ev_silent ev (passive_waiters ?c) (passive_listener ?t) (passive_waiters c') (passive_listener t')"
    from ev_silent_notified [OF laws this act that] aw stable show ?thesis by (simp add: await_inv_def)
  qed (use seen stable in simp)
  have old: "awaited ?t \<Longrightarrow> ostate ?c = 2"
    "reference ?t = Some x \<Longrightarrow> ostate ?c = 2 \<and> x = ovalue ?c" for x
    using aw nth_mem [OF k] unfolding await_inv_def by blast+
  have 2: "ostate c' = 2" if "awaited t'"
    using once_step_awaited [OF step that]
  proof (elim disjE exE conjE)
    fix l assume l: "passive_listener ?t = Some l"
      and poll: "ev_poll ev l (passive_waiters ?c) = (True, passive_waiters c')"
    from pollD(1) [OF laws act [OF l] poll] aw have "ostate ?c = 2" by (auto simp: await_inv_def)
    with stable show ?thesis by simp
  qed (use old stable in simp)
  have 3: "ostate c' = 2 \<and> x = ovalue c'" if "reference t' = Some x" for x
    using once_step_ref [OF step that] old(1) old(2) [of x] seen stable by metis
  have new: "(awaited t \<longrightarrow> ostate c' = 2) \<and> (\<forall>x. reference t = Some x \<longrightarrow> ostate c' = 2 \<and> x = ovalue c')"
    if t: "t \<in> set ((tasks S)[k := t'])" for t
  proof (cases "t = t'")
    case True
    with 2 3 show ?thesis by blast
  next
    case False
    with t have "t \<in> set (tasks S)" by (auto dest: set_update_subset_insert [THEN subsetD])
    then have "awaited t \<Longrightarrow> ostate ?c = 2" "reference t = Some x \<Longrightarrow> ostate ?c = 2 \<and> x = ovalue ?c" for x
      using aw unfolding await_inv_def by blast+
    with stable show ?thesis by metis
  qed
  with 1 show ?thesis by (simp add: await_inv_def)
qed

lemma once_await_ok_act:
  assumes laws: "event_laws ev vw" and ok: "once_await_ok vw S" and k: "k < length (tasks S)"
    and step: "once_step ev dbg i (shared S) (tasks S ! k) = Next (c', t')"
  shows "once_await_ok vw \<lparr>shared = c', tasks = (tasks S)[k := t']\<rparr>"
proof -
  have cnt: "counting_inv once_wt once_wf once_good S"
    and own: "own_inv vw active_listener (active_initializers (shared S)) (tasks S)"
      "own_inv vw passive_listener (passive_waiters (shared S)) (tasks S)"
    using ok by (simp_all add: once_await_ok_def)
  have wf: "once_wf (tasks S ! k)" using cnt k by (simp add: counting_inv_def)
  show ?thesis
    unfolding once_await_ok_def
    using once.inv_act [OF cnt k step] await_inv_act [OF laws ok k step]
      own_inv_effect [OF laws own(1) k once_step_active [OF step wf]]
      own_inv_effect [OF laws own(2) k once_step_passive [OF step wf]] by simp
qed

lemma fresh_listeners:
  "once_fresh t \<Longrightarrow> active_listener t = None \<and> passive_listener t = None \<and> \<not> awaited t \<and> reference t = None"
  by (auto simp: once_fresh_def initializer_new_def)

interpretation once_await: inv_system "once_step ev dbg" once_fresh "once_start (fresh_event vw)"
    "\<lambda>S. event_laws ev vw \<longrightarrow> once_await_ok vw S"
  for ev :: "('e, 'l) event_ops" and dbg vw
proof
  fix c :: "('e, 'a) once_cell"
  assume start: "once_start (fresh_event vw) c"
  show "event_laws ev vw \<longrightarrow> once_await_ok vw \<lparr>shared = c, tasks = []\<rparr>"
    using once.inv_init [OF start] start
    by (auto simp: once_await_ok_def await_inv_def once_start_def event_lawsD(1) fresh_event_notified
        intro: own_inv_Nil)
next
  fix S :: "(('e, 'a) once_cell, ('a, 'l) once) sys" and t :: "('a, 'l) once"
  assume "event_laws ev vw \<longrightarrow> once_await_ok vw S" and t: "once_fresh t"
  then show "event_laws ev vw \<longrightarrow> once_await_ok vw (S\<lparr>tasks := tasks S @ [t]\<rparr>)"
    using once.inv_spawn [of S t] fresh_listeners [OF t]
    by (auto simp: once_await_ok_def await_inv_def intro!: own_inv_snoc)
next
  fix S :: "(('e, 'a) once_cell, ('a, 'l) once) sys" and k i c' t'
  assume "event_laws ev vw \<longrightarrow> once_await_ok vw S" and "k < length (tasks S)"
    and "once_step ev dbg i (shared S) (tasks S ! k) = Next (c', t')"
  then show "event_laws ev vw \<longrightarrow> once_await_ok vw \<lparr>shared = c', tasks = (tasks S)[k := t']\<rparr>"
    using once_await_ok_act by blast
qed

subsection \<open>Initialisers\<close>

definition init_waits :: "('a, 'l) once \<Rightarrow> bool" where
  "init_waits t = (case t of OInit pc s \<Rightarrow> pc = InSleep \<or> pc = InWait | _ \<Rightarrow> False)"

definition init_carries :: "('a, 'l) once \<Rightarrow> bool" where
  "init_carries t = (case t of
     OInit pc s \<Rightarrow> pc = InLoad \<or> pc = InListen \<or> pc = InCas | OGuardNotify lo r \<Rightarrow> True | _ \<Rightarrow> False)"

interpretation once_duty: wakeup_duty active_listener init_waits init_carries once_wf
  by unfold_locales (auto simp: init_waits_def init_wf_def split: once.splits)

lemma init_flags [simp]:
  "init_waits (return_active lo r) = False" "init_carries (return_active lo r) = False"
  "init_waits (return_passive lo r) = False" "init_carries (return_passive lo r) = False"
  "init_waits (OWait wpc lo) = False" "init_carries (OWait wpc lo) = False"
  "init_waits (ODone r) = False" "init_carries (ODone r) = False"
  "init_waits (OGuardStore lo r) = False" "init_carries (OGuardStore lo r) = False"
  "init_waits (OInit pc s) \<longleftrightarrow> pc = InSleep \<or> pc = InWait"
  "init_carries (OInit pc s) \<longleftrightarrow> pc = InLoad \<or> pc = InListen \<or> pc = InCas"
  by (simp_all add: init_waits_def init_carries_def return_active_def return_passive_def
      split: option.split)

lemma wait_step_not_init:
  "wait_step ev dbg pc c lo = Next (c', t') \<Longrightarrow>
   \<not> init_waits t' \<and> ostate c' = ostate c \<and> active_initializers c' = active_initializers c"
  by (cases pc) (auto simp: once_op_defs Let_def split: option.splits prod.splits if_splits)

lemma init_step_duty:
  assumes "init_step ev dbg pc c s = Next (c', t')" and "init_wf pc s" and "\<not> init_carries t'"
  shows "ostate c' \<noteq> 0 \<or> has_seen (OInit pc s) \<or>
    (\<not> init_carries (OInit pc s) \<and> (init_waits t' \<longrightarrow> init_waits (OInit pc s)) \<and> ostate c' = ostate c \<and>
      ev_calm ev (active_initializers c) (event_listener s) (active_initializers c') (active_listener t'))"
  using assms
  by (cases pc)
     (auto simp: once_op_defs init_wf_def is_try_set_def ev_calm_def has_seen_def Let_def
       split: option.splits prod.splits if_splits cell_state.splits call.splits)

text \<open>
  What a step does to the duty, if its task does not carry afterwards: the cell is claimed or
  initialised; or it has just notified; or it is calm and did not carry.
\<close>

lemma once_step_duty:
  assumes "once_step ev dbg i c t = Next (c', t')" and "once_wf t" and "\<not> init_carries t'"
  shows "ostate c' \<noteq> 0 \<or> has_seen t \<or> active_initializers c' = ev_notify ev 1 (active_initializers c) \<or>
    (\<not> init_carries t \<and> (init_waits t' \<longrightarrow> init_waits t) \<and> ostate c' = ostate c \<and>
      ev_calm ev (active_initializers c) (active_listener t) (active_initializers c') (active_listener t'))"
proof (cases t)
  case (OWait pc lo)
  with assms wait_step_effects(2) [of ev dbg pc c lo c' t'] show ?thesis
    by (auto simp: once_step_def when_run_Next ev_calm_def dest!: wait_step_not_init
        split: once_in.splits if_splits)
next
  case (OInit pc s)
  with assms show ?thesis
    by (auto simp: once_step_def when_run_Next unchanged_Next closure_step_def ev_calm_same
        dest: init_step_duty split: once_in.splits if_splits call.splits)
qed (use assms in \<open>auto simp: once_step_def when_run_Next unchanged_Next is_initialized_def
       guard_store_def guard_notify_def ev_calm_def init_carries_def init_waits_def
       split: option.splits if_splits\<close>)

definition once_duty_ok :: "('e, 'l) event_view \<Rightarrow> (('e, 'a) once_cell, ('a, 'l) once) sys \<Rightarrow> bool" where
  "once_duty_ok vw S \<longleftrightarrow> once_await_ok vw S \<and>
     (ostate (shared S) = 0 \<longrightarrow>
       duty_done vw active_listener init_waits init_carries (active_initializers (shared S)) (tasks S))"

lemma once_duty_act:
  assumes laws: "event_laws ev vw" and inv: "once_duty_ok vw S" and k: "k < length (tasks S)"
    and step: "once_step ev dbg i (shared S) (tasks S ! k) = Next (c', t')"
  shows "once_duty_ok vw \<lparr>shared = c', tasks = (tasks S)[k := t']\<rparr>"
proof -
  let ?e = "active_initializers (shared S)" and ?ts' = "(tasks S)[k := t']" and ?t = "tasks S ! k"
  have ok: "once_await_ok vw S" using inv by (simp add: once_duty_ok_def)
  then have cnt: "counting_inv once_wt once_wf once_good S"
    and own: "own_inv vw active_listener ?e (tasks S)"
    by (simp_all add: once_await_ok_def)
  have wf: "once_wf ?t" using cnt k by (simp add: counting_inv_def)
  have ok': "once_await_ok vw \<lparr>shared = c', tasks = ?ts'\<rparr>" by (rule once_await_ok_act [OF laws ok k step])
  then have own': "own_inv vw active_listener (active_initializers c') ?ts'" by (simp add: once_await_ok_def)
  have "duty_done vw active_listener init_waits init_carries (active_initializers c') ?ts'"
    if zero: "ostate c' = 0"
  proof (cases "init_carries t'")
    case True
    with k show ?thesis by (rule once_duty.duty_carrier)
  next
    case False
    have "\<not> has_seen ?t"
      using seen_initialized [OF cnt k] once_step_stable [OF cnt k step] zero by auto
    with once_step_duty [OF step wf False] zero consider
        "active_initializers c' = ev_notify ev 1 ?e"
      | "\<not> init_carries ?t" "init_waits t' \<longrightarrow> init_waits ?t" "ostate (shared S) = 0"
        "ev_calm ev ?e (active_listener ?t) (active_initializers c') (active_listener t')" by metis
    then show ?thesis
    proof cases
      case 1
      with once_duty.duty_notify [OF laws, of 1 ?e ?ts'] own' show ?thesis by simp
    next
      case 2
      have "duty_done vw active_listener init_waits init_carries ?e (tasks S)"
        using inv 2(3) by (simp add: once_duty_ok_def)
      from once_duty.duty_frame [OF laws own own' k 2(4) this wf 2(1,2)] show ?thesis .
    qed
  qed
  with ok' show ?thesis by (simp add: once_duty_ok_def)
qed

subsection \<open>Everybody, once the cell is initialised\<close>

definition passive_waits :: "('a, 'l) once \<Rightarrow> bool" where
  "passive_waits t = (case t of OWait pc lo \<Rightarrow> pc = WtSleep \<or> pc = WtPoll | _ \<Rightarrow> False)"

text \<open>The task that has stored the state and has notifications to make.\<close>

definition active_due :: "('a, 'l) once \<Rightarrow> bool" where
  "active_due t = (case t of OInit pc s \<Rightarrow> pc = InNotifyActive | _ \<Rightarrow> False)"

definition passive_due :: "('a, 'l) once \<Rightarrow> bool" where
  "passive_due t = (case t of OInit pc s \<Rightarrow> pc = InNotifyActive \<or> pc = InNotifyPassive | _ \<Rightarrow> False)"

lemma due_flags [simp]:
  "passive_waits (return_active lo r) = False" "passive_waits (return_passive lo r) = False"
  "passive_waits (OInit pc s) = False" "passive_waits (ODone r) = False"
  "passive_waits (OGuardStore lo r) = False" "passive_waits (OGuardNotify lo r) = False"
  "passive_waits (OWait wpc lo) \<longleftrightarrow> wpc = WtSleep \<or> wpc = WtPoll"
  "active_due (return_active lo r) = False" "active_due (return_passive lo r) = False"
  "active_due (OInit pc s) \<longleftrightarrow> pc = InNotifyActive" "active_due (OWait wpc lo) = False"
  "passive_due (return_active lo r) = False" "passive_due (return_passive lo r) = False"
  "passive_due (OInit pc s) \<longleftrightarrow> pc = InNotifyActive \<or> pc = InNotifyPassive"
  "passive_due (OWait wpc lo) = False" "init_waits OGetRead = False" "passive_waits OGetRead = False"
  "active_due OIsInit = False" "active_due OGet = False" "active_due OGetRead = False"
  "active_due (OGuardStore lo r) = False" "active_due (OGuardNotify lo r) = False"
  "active_due (ODropActive l r) = False" "active_due (ODropPassive l r) = False"
  "passive_due OIsInit = False" "passive_due OGet = False" "passive_due OGetRead = False"
  "passive_due (OGuardStore lo r) = False" "passive_due (OGuardNotify lo r) = False"
  "passive_due (ODropActive l r) = False" "passive_due (ODropPassive l r) = False"
  by (simp_all add: init_waits_def passive_waits_def active_due_def passive_due_def return_active_def
      return_passive_def split: option.split)

lemma wait_step_due:
  assumes "wait_step ev dbg pc c lo = Next (c', t')" and "ostate c' = 2"
  shows "ostate c = 2 \<and> \<not> init_waits t' \<and>
    (passive_waits t' \<longrightarrow> passive_waits (OWait pc lo) \<and> passive_listener t' = lo)"
  using assms
  by (cases pc) (auto simp: once_op_defs Let_def split: option.splits prod.splits if_splits)

lemma init_step_due:
  assumes "init_step ev dbg pc c s = Next (c', t')" and "ostate c' = 2" and "init_wf pc s"
  shows "\<not> passive_waits t' \<and>
    (active_due t' \<or>
     active_initializers c' = ev_notify_additional ev usize_MAX (active_initializers c) \<or>
     ostate c = 2 \<and> \<not> active_due (OInit pc s) \<and>
       (init_waits t' \<longrightarrow> init_waits (OInit pc s) \<and> active_listener t' = event_listener s)) \<and>
    (passive_due t' \<or>
     passive_waiters c' = ev_notify_additional ev usize_MAX (passive_waiters c) \<or>
     ostate c = 2 \<and> \<not> passive_due (OInit pc s))"
  using assms
  by (cases pc)
     (auto simp: once_op_defs init_wf_def is_try_set_def Let_def
       split: option.splits prod.splits if_splits cell_state.splits call.splits)

lemma once_step_due:
  assumes step: "once_step ev dbg i c t = Next (c', t')" and "ostate c' = 2" and "once_wf t"
  shows "active_due t' \<or>
     active_initializers c' = ev_notify_additional ev usize_MAX (active_initializers c) \<or>
     ostate c = 2 \<and> \<not> active_due t \<and>
       (init_waits t' \<longrightarrow> init_waits t \<and> active_listener t' = active_listener t)" (is ?active)
    and "passive_due t' \<or>
     passive_waiters c' = ev_notify_additional ev usize_MAX (passive_waiters c) \<or>
     ostate c = 2 \<and> \<not> passive_due t \<and>
       (passive_waits t' \<longrightarrow> passive_waits t \<and> passive_listener t' = passive_listener t)" (is ?passive)
proof -
  have "?active \<and> ?passive"
  proof (cases t)
    case (OWait pc lo)
    with assms show ?thesis
      by (auto simp: once_step_def when_run_Next dest: wait_step_due split: once_in.splits if_splits)
  next
    case (OInit pc s)
    show ?thesis
    proof (cases "pc = InSleep \<or> pc = InClosure")
      case True
      with assms OInit show ?thesis
        by (auto simp: once_step_def unchanged_Next closure_step_def
            split: once_in.splits if_splits call.splits)
    next
      case False
      with assms OInit have "init_step ev dbg pc c s = Next (c', t')" and "init_wf pc s"
        by (simp_all add: once_step_def when_run_Next)
      from init_step_due [OF this(1) assms(2) this(2)] OInit show ?thesis by simp
    qed
  qed (use assms in \<open>auto simp: once_step_def when_run_Next unchanged_Next is_initialized_def
       guard_store_def guard_notify_def state_words
       split: option.splits if_splits\<close>)
  then show ?active ?passive by simp_all
qed

definition once_all_ok :: "('e, 'l) event_view \<Rightarrow> (('e, 'a) once_cell, ('a, 'l) once) sys \<Rightarrow> bool" where
  "once_all_ok vw S \<longleftrightarrow> once_duty_ok vw S \<and>
     (length (tasks S) < 2 ^ 64 \<longrightarrow> ostate (shared S) = 2 \<longrightarrow>
       all_or_due vw active_listener init_waits active_due (active_initializers (shared S)) (tasks S) \<and>
       all_or_due vw passive_listener passive_waits passive_due (passive_waiters (shared S)) (tasks S))"

lemma notify_additional_everybody:
  assumes laws: "event_laws ev vw" and own: "own_inv vw lst e ts" and few: "length ts < 2 ^ 64"
    and e': "e' = ev_notify_additional ev usize_MAX e"
  shows "notified vw e' = active vw e'"
proof -
  have "card (active vw e) \<le> unat usize_MAX"
    using own_inv_card [OF own] few by (simp add: unat_usize_MAX)
  from notify_additional_all [OF laws this] e' notify_additional_active [OF laws] show ?thesis by simp
qed

lemma once_all_act:
  assumes laws: "event_laws ev vw" and inv: "once_all_ok vw S" and k: "k < length (tasks S)"
    and step: "once_step ev dbg i (shared S) (tasks S ! k) = Next (c', t')"
  shows "once_all_ok vw \<lparr>shared = c', tasks = (tasks S)[k := t']\<rparr>"
proof -
  let ?ts' = "(tasks S)[k := t']" and ?t = "tasks S ! k" and ?c = "shared S"
  have ok: "once_duty_ok vw S" using inv by (simp add: once_all_ok_def)
  then have cnt: "counting_inv once_wt once_wf once_good S"
    and own: "own_inv vw active_listener (active_initializers ?c) (tasks S)"
      "own_inv vw passive_listener (passive_waiters ?c) (tasks S)"
    by (simp_all add: once_duty_ok_def once_await_ok_def)
  have wf: "once_wf ?t" using cnt k by (simp add: counting_inv_def)
  have ok': "once_duty_ok vw \<lparr>shared = c', tasks = ?ts'\<rparr>" by (rule once_duty_act [OF laws ok k step])
  then have wf': "once_wf t" if "t \<in> set ?ts'" for t
    using that by (simp add: once_duty_ok_def once_await_ok_def counting_inv_def)
  have lst: "active_listener t \<noteq> None" if "t \<in> set ?ts'" "init_waits t" for t
    using once_duty.waits_listener [OF wf' [OF that(1)] that(2)] .
  have lstp: "passive_listener t \<noteq> None" if "t \<in> set ?ts'" "passive_waits t" for t
    using wf' [OF that(1)] that(2) by (auto simp: passive_waits_def wait_wf_def split: once.splits)
  have "all_or_due vw active_listener init_waits active_due (active_initializers c') ?ts' \<and>
      all_or_due vw passive_listener passive_waits passive_due (passive_waiters c') ?ts'"
    if few: "length ?ts' < 2 ^ 64" and two: "ostate c' = 2"
  proof
    note everybody = notify_additional_everybody [OF laws _ few [unfolded length_list_update]]
    have old: "all_or_due vw active_listener init_waits active_due (active_initializers ?c) (tasks S)"
      "all_or_due vw passive_listener passive_waits passive_due (passive_waiters ?c) (tasks S)"
      if "ostate ?c = 2"
      using inv few that by (simp_all add: once_all_ok_def)
    show "all_or_due vw active_listener init_waits active_due (active_initializers c') ?ts'"
      by (rule all_or_due_act [OF laws own(1) k once_step_active [OF step wf] lst])
         (use once_step_due(1) [OF step two wf] everybody [OF own(1)] old(1) in blast)+
    show "all_or_due vw passive_listener passive_waits passive_due (passive_waiters c') ?ts'"
      by (rule all_or_due_act [OF laws own(2) k once_step_passive [OF step wf] lstp])
         (use once_step_due(2) [OF step two wf] everybody [OF own(2)] old(2) in blast)+
  qed
  with ok' show ?thesis by (simp add: once_all_ok_def)
qed

interpretation once_wake: inv_system "once_step ev dbg" once_fresh "once_start (fresh_event vw)"
    "\<lambda>S. event_laws ev vw \<longrightarrow> once_all_ok vw S"
  for ev :: "('e, 'l) event_ops" and dbg vw
proof
  fix c :: "('e, 'a) once_cell"
  assume "once_start (fresh_event vw) c"
  from once_await.inv_init [OF this, of ev]
  show "event_laws ev vw \<longrightarrow> once_all_ok vw \<lparr>shared = c, tasks = []\<rparr>"
    by (simp add: once_all_ok_def once_duty_ok_def once_duty.duty_Nil all_or_due_Nil)
next
  fix S :: "(('e, 'a) once_cell, ('a, 'l) once) sys" and t :: "('a, 'l) once"
  assume inv: "event_laws ev vw \<longrightarrow> once_all_ok vw S" and t: "once_fresh t"
  have flags: "\<not> init_waits t" "\<not> init_carries t" "\<not> passive_waits t"
    using t by (auto simp: once_fresh_def init_waits_def init_carries_def passive_waits_def)
  from inv once_await.inv_spawn [of ev vw S t] t
  show "event_laws ev vw \<longrightarrow> once_all_ok vw (S\<lparr>tasks := tasks S @ [t]\<rparr>)"
    by (auto simp: once_all_ok_def once_duty_ok_def once_duty.duty_snoc [OF flags(1,2)]
        intro: all_or_due_snoc [of init_waits, OF flags(1)] all_or_due_snoc [of passive_waits, OF flags(3)])
next
  fix S :: "(('e, 'a) once_cell, ('a, 'l) once) sys" and k i c' t'
  assume "event_laws ev vw \<longrightarrow> once_all_ok vw S" and "k < length (tasks S)"
    and "once_step ev dbg i (shared S) (tasks S ! k) = Next (c', t')"
  then show "event_laws ev vw \<longrightarrow> once_all_ok vw \<lparr>shared = c', tasks = (tasks S)[k := t']\<rparr>"
    using once_all_act by blast
qed

subsection \<open>Properties\<close>

text \<open>What rules out every panic of a step: the state word is one of the three, and who relies on the cell being initialised is right.\<close>

definition once_no_panic :: "('e, 'a) once_cell \<Rightarrow> ('a, 'l) once \<Rightarrow> bool" where
  "once_no_panic c t \<longleftrightarrow> (ostate c = 0 \<or> ostate c = 1 \<or> ostate c = 2) \<and>
     (has_seen t \<or> awaited t \<longrightarrow> ostate c = 2)"

lemma wait_step_total:
  assumes "once_no_panic c (OWait pc lo)" and "wait_wf pc lo"
  shows "wait_step ev dbg pc c lo \<noteq> Panic \<and> wait_step ev dbg pc c lo \<noteq> Abort"
  using assms
  by (cases pc)
     (auto simp: once_no_panic_def once_op_defs wait_wf_def Let_def
       split: option.splits prod.splits if_splits)

lemma init_step_total:
  assumes "once_no_panic c (OInit pc s)" and "init_wf pc s"
  shows "init_step ev dbg pc c s \<noteq> Panic \<and> init_step ev dbg pc c s \<noteq> Abort"
  using assms
  by (cases pc)
     (auto simp: once_no_panic_def once_op_defs init_wf_def has_seen_def Let_def
       split: option.splits prod.splits if_splits cell_state.splits)

lemma once_step_total:
  assumes "once_no_panic c t" and "once_wf t"
  shows "once_step ev dbg i c t \<noteq> Panic \<and> once_step ev dbg i c t \<noteq> Abort"
proof (cases t)
  case (OWait pc lo)
  with assms wait_step_total [of c pc lo ev dbg] show ?thesis
    by (auto simp: once_step_def when_run_def split: once_in.splits)
next
  case (OInit pc s)
  with assms init_step_total [of c pc s ev dbg] show ?thesis
    by (auto simp: once_step_def when_run_def unchanged_def closure_step_def
        split: once_in.splits call.splits)
qed (use assms in \<open>auto simp: once_step_def when_run_def unchanged_def is_initialized_def
       state_from_def once_no_panic_def split: once_in.splits\<close>)

lemma once_await_no_panic:
  assumes ok: "once_await_ok vw S" and k: "k < length (tasks S)"
  shows "once_no_panic (shared S) (tasks S ! k)"
proof -
  from ok have cnt: "counting_inv once_wt once_wf once_good S" and aw: "await_inv vw S"
    by (simp_all add: once_await_ok_def)
  with nth_mem [OF k] seen_initialized [OF cnt k] show ?thesis
    unfolding once_no_panic_def counting_inv_def once_good_def await_inv_def by blast
qed

text \<open>A task at rest: it has not started, is suspended, or has finished.\<close>

definition once_at_rest :: "('a, 'l) once \<Rightarrow> bool" where
  "once_at_rest t = (case t of
     OIsInit \<Rightarrow> True | OGet \<Rightarrow> True
   | OWait pc lo \<Rightarrow> pc = WtGet \<or> pc = WtSleep
   | OInit pc s \<Rightarrow> (case pc of InGet \<Rightarrow> True | InTryCas v \<Rightarrow> True | InSleep \<Rightarrow> True
       | InClosure \<Rightarrow> True | _ \<Rightarrow> False)
   | ODone r \<Rightarrow> True | _ \<Rightarrow> False)"

text \<open>
  C26: uninitialised memory is never read. Whatever reference a finished call has returned
  (\<open>get\<close>, \<open>wait\<close>, which reads without looking at the state again, \<open>get_or_try_init\<close>, \<open>set\<close>), the
  cell is initialised, and the reference is to its value.
\<close>

theorem once_reads_initialized:
  assumes "event_laws ev vw" and "once_reachable ev dbg (fresh_event vw) S" and "k < length (tasks S)"
    and "tasks S ! k = ODone (RRef x) \<or> tasks S ! k = ODone (RSet x)"
  shows "ostate (shared S) = state_word Initialized \<and> x = ovalue (shared S) \<and> x \<noteq> None"
proof -
  have ok: "once_await_ok vw S" using once_await.reachable_inv [OF assms(2)] assms(1) by blast
  have "reference (tasks S ! k) = Some x" using assms(4) by auto
  with ok nth_mem [OF assms(3)] have *: "ostate (shared S) = 2 \<and> x = ovalue (shared S)"
    unfolding once_await_ok_def await_inv_def by blast
  with ok have "ovalue (shared S) \<noteq> None"
    by (simp add: once_await_ok_def counting_inv_def once_good_def)
  with * show ?thesis by (simp add: state_words)
qed

text \<open>
  No call panics by itself. The \<open>unreachable!\<close> of the state conversion, the \<open>unwrap\<close>s of the
  listener and of the closure, and the debug assertions are never reached (a panic of the
  initialiser is an input, and is handled).
\<close>

theorem once_never_panics:
  assumes laws: "event_laws ev vw" and reach: "once_reachable ev dbg (fresh_event vw) S"
    and k: "k < length (tasks S)"
  shows "once_step ev dbg i (shared S) (tasks S ! k) \<noteq> Panic \<and>
    once_step ev dbg i (shared S) (tasks S ! k) \<noteq> Abort"
proof -
  have ok: "once_await_ok vw S" using once_await.reachable_inv [OF reach] laws by blast
  then have "once_wf (tasks S ! k)" using k by (simp add: once_await_ok_def counting_inv_def)
  with once_step_total [OF once_await_no_panic [OF ok k]] show ?thesis by blast
qed

text \<open>
  While the cell is uninitialised, no initialiser sleeps for ever: when every task is at rest
  and some call that wants to initialise is suspended, the listener of one of them has been
  notified. A failing, panicking or cancelled initialiser passes the turn on.
\<close>

lemma vacant_notified:
  assumes laws: "event_laws ev vw" and reach: "once_reachable ev dbg (fresh_event vw) S"
    and rest: "\<forall>t \<in> set (tasks S). once_at_rest t"
    and vacant: "ostate (shared S) = state_word Uninitialized"
    and susp: "k < length (tasks S)" "tasks S ! k = OInit InSleep s"
  shows "\<exists>j < length (tasks S). \<exists>s x. tasks S ! j = OInit InSleep s \<and> event_listener s = Some x \<and>
    x \<in> notified vw (active_initializers (shared S))"
proof -
  have "once_all_ok vw S" using once_wake.reachable_inv [OF reach] laws by blast
  with vacant have duty: "duty_done vw active_listener init_waits init_carries
      (active_initializers (shared S)) (tasks S)" and ok: "once_await_ok vw S"
    by (simp_all add: once_all_ok_def once_duty_ok_def state_words)
  then have cnt: "counting_inv once_wt once_wf once_good S"
    and own: "own_inv vw active_listener (active_initializers (shared S)) (tasks S)"
    by (simp_all add: once_await_ok_def)
  have "\<forall>t \<in> set (tasks S). \<not> init_carries t"
    using rest by (auto simp: once_at_rest_def init_carries_def split: once.splits)
  moreover have "once_wf (tasks S ! k)" using cnt susp(1) by (simp add: counting_inv_def)
  ultimately obtain j x where j: "j < length (tasks S)" "active_listener (tasks S ! j) = Some x"
    and x: "x \<in> notified vw (active_initializers (shared S))"
    using once_duty.duty_rest [OF laws own duty _ susp(1)] susp(2) by auto
  have "\<not> claims (tasks S ! j)"
    using claims_single(1) [of "shared S" "tasks S" j] cnt j(1) vacant
    by (auto simp: counting_inv_def state_words)
  moreover have "once_at_rest (tasks S ! j)" and "once_wf (tasks S ! j)"
    using rest j(1) cnt by (simp_all add: counting_inv_def)
  ultimately have "\<exists>s. tasks S ! j = OInit InSleep s \<and> event_listener s = Some x"
    using j(2) by (auto simp: once_at_rest_def claims_def init_wf_def active_listener_def
        split: once.splits init_pc.splits)
  with j(1) x show ?thesis by blast
qed

text \<open>
  Once the cell is initialised everybody is woken. (The notification counts are \<open>usize::MAX\<close>; there
  are fewer tasks than that.)
\<close>

lemma initialized_notified:
  assumes laws: "event_laws ev vw" and reach: "once_reachable ev dbg (fresh_event vw) S"
    and few: "length (tasks S) < 2 ^ 64"
    and rest: "\<forall>t \<in> set (tasks S). once_at_rest t"
    and init: "ostate (shared S) = state_word Initialized" and k: "k < length (tasks S)"
  shows "(tasks S ! k = OWait WtSleep (Some l) \<longrightarrow> l \<in> notified vw (passive_waiters (shared S))) \<and>
    (tasks S ! k = OInit InSleep s \<longrightarrow>
      (\<exists>l. event_listener s = Some l \<and> l \<in> notified vw (active_initializers (shared S))))"
proof -
  have "once_all_ok vw S" using once_wake.reachable_inv [OF reach] laws by blast
  moreover have "\<not> active_due t \<and> \<not> passive_due t" if "t \<in> set (tasks S)" for t
    using rest that by (auto simp: once_at_rest_def active_due_def passive_due_def split: once.splits)
  ultimately have
    "all_notified vw active_listener init_waits (active_initializers (shared S)) (tasks S)"
    "all_notified vw passive_listener passive_waits (passive_waiters (shared S)) (tasks S)"
    using few init by (auto simp: once_all_ok_def all_or_due_def state_words)
  with k show ?thesis by (auto simp: all_notified_def)
qed

text \<open>
  C29: no wake-up of the cell is lost. When every task is at rest: while the cell is uninitialised
  and some call that wants to initialise is suspended, the listener of one of them has been
  notified (a failing, panicking or cancelled initialiser passes the turn on); once it is
  initialised, each suspended \<open>wait\<close> and each suspended call that wanted to initialise has been
  notified.
\<close>

theorem once_wakes:
  assumes "event_laws ev vw" and "once_reachable ev dbg (fresh_event vw) S"
    and "length (tasks S) < 2 ^ 64" and "\<forall>t \<in> set (tasks S). once_at_rest t" and "k < length (tasks S)"
  shows "(\<forall>s. ostate (shared S) = state_word Uninitialized \<and> tasks S ! k = OInit InSleep s \<longrightarrow>
      (\<exists>j < length (tasks S). \<exists>s x. tasks S ! j = OInit InSleep s \<and> event_listener s = Some x \<and>
        x \<in> notified vw (active_initializers (shared S)))) \<and>
    (\<forall>s. ostate (shared S) = state_word Initialized \<and> tasks S ! k = OInit InSleep s \<longrightarrow>
      (\<exists>x. event_listener s = Some x \<and> x \<in> notified vw (active_initializers (shared S)))) \<and>
    (\<forall>l. ostate (shared S) = state_word Initialized \<and> tasks S ! k = OWait WtSleep (Some l) \<longrightarrow>
      l \<in> notified vw (passive_waiters (shared S)))"
  using vacant_notified [OF assms(1,2,4) _ assms(5)] initialized_notified [OF assms(1-4) _ assms(5)]
  by blast

text \<open>After the initialisation of \<open>demo_busy\<close> failed: the suspended \<open>set\<close> is notified.\<close>

definition demo_failed :: "((qevent, nat) once_cell, (nat, nat) once) sys" where
  "demo_failed =
     \<lparr>shared = \<lparr>active_initializers = [Some True], passive_waiters = [Some False], ostate = 0,
        ovalue = None\<rparr>,
      tasks = [ODone RErr, OWait WtSleep (Some 0),
        OInit InSleep \<lparr>icall = SetValue 5, event_listener = Some 0, closure = True\<rparr>]\<rparr>"

lemma demo_failed_run:
  "exec (once_step queue_events True) once_fresh [Act 0 OcErr, Act 0 OcRun, Act 0 OcRun] demo_busy =
     Next demo_failed"
  by (simp add: once_run_simps demo_busy_def demo_failed_def)

lemma demo_failed_reachable: "once_reachable queue_events True (fresh_event queue_view) demo_failed"
  by (rule exec_reachable [OF demo_failed_run demo_busy_reachable])

theorem once_reads_initialized_witness:
  "ostate (shared demo_set) = state_word Initialized \<and> Some 5 = ovalue (shared demo_set) \<and>
   Some (5::nat) \<noteq> None"
  using once_reads_initialized [OF queue_events_laws demo_set_reachable, of 2 "Some 5"]
  by (simp add: demo_set_def)

theorem once_never_panics_witness:
  "once_step queue_events True OcRun (shared demo_busy) (tasks demo_busy ! 0) \<noteq> Panic \<and>
   once_step queue_events True OcRun (shared demo_busy) (tasks demo_busy ! 0) \<noteq> Abort"
  by (rule once_never_panics [OF queue_events_laws demo_busy_reachable]) (simp add: demo_busy_def)

theorem once_wakes_witness:
  "(\<exists>j < length (tasks demo_failed). \<exists>s x. tasks demo_failed ! j = OInit InSleep s \<and>
     event_listener s = Some x \<and> x \<in> notified queue_view (active_initializers (shared demo_failed))) \<and>
   0 \<in> notified queue_view (passive_waiters (shared demo_set))"
proof -
  have "\<forall>t \<in> set (tasks demo_failed). once_at_rest t" "\<forall>t \<in> set (tasks demo_set). once_at_rest t"
    by (simp_all add: demo_failed_def demo_set_def once_at_rest_def)
  with once_wakes [OF queue_events_laws demo_failed_reachable, of 2]
    once_wakes [OF queue_events_laws demo_set_reachable, of 1]
  show ?thesis by (simp add: demo_failed_def demo_set_def state_words)
qed

end
