(* ===== verification/OnceCell_Solo.thy ===== *)
theory OnceCell_Solo
  imports OnceCell_Wakeup Solo_Run
begin

text \<open>
  Termination of the calls of the cell: a call, or a later poll of a suspended one, that runs alone
  returns or is suspended within eleven actions. It is suspended only in its listener or in the
  initialiser the caller has given.
\<close>

definition once_busy :: "('a, 'l) once \<Rightarrow> bool" where
  "once_busy t = (case t of
     OWait pc lo \<Rightarrow> pc \<noteq> WtSleep
   | OInit pc s \<Rightarrow> (case pc of
         InSleep \<Rightarrow> False
       | InClosure \<Rightarrow> (case icall s of SetValue v \<Rightarrow> True | _ \<Rightarrow> False)
       | _ \<Rightarrow> True)
   | ODone r \<Rightarrow> False | _ \<Rightarrow> True)"

subsection \<open>The rank\<close>

text \<open>
  The actions still to come, less one, from the load at the head of the loop of
  \<open>initialize_or_wait\<close>, in state \<open>w\<close>, with the listener \<open>lo\<close>.
\<close>

definition load_rank :: "('e, 'l) event_view \<Rightarrow> 'e \<Rightarrow> usize \<Rightarrow> 'l option \<Rightarrow> nat" where
  "load_rank vw e w lo =
     (if w = 0 then 9 else if w = 2 then 3
      else if lo = None then 3 else if heard vw e lo then 5 else 1)"

definition init_rank ::
    "('e, 'l) event_view \<Rightarrow> ('e, 'a) once_cell \<Rightarrow> 'a init_pc \<Rightarrow> ('a, 'l) initializer \<Rightarrow> nat" where
  "init_rank vw c pc s =
     (let load = load_rank vw (active_initializers c) (ostate c) in case pc of
        InGet \<Rightarrow> Suc (load None) | InGetRead \<Rightarrow> 0
      | InLoad \<Rightarrow> load (event_listener s)
      | InListen \<Rightarrow> if ostate c = 1 then 2 else Suc (load None)
      | InWait \<Rightarrow> if heard vw (active_initializers c) (event_listener s) then Suc (load None) else 0
      | InCas \<Rightarrow> if ostate c = 0 then 8 else Suc (load (event_listener s))
      | InClosure \<Rightarrow> 7 | InTryCas v \<Rightarrow> 7 | InWrite v \<Rightarrow> 6 | InStore \<Rightarrow> 5
      | InNotifyActive \<Rightarrow> 4 | InNotifyPassive \<Rightarrow> 3 | InDrop \<Rightarrow> 2 | InAssert \<Rightarrow> 1 | _ \<Rightarrow> 0)"

definition wait_rank :: "wait_pc \<Rightarrow> nat" where
  "wait_rank pc = (case pc of WtGet \<Rightarrow> 6 | WtListen \<Rightarrow> 5 | WtAgain \<Rightarrow> 4 | WtPoll \<Rightarrow> 3 | WtAssert \<Rightarrow> 2
     | WtGetRead \<Rightarrow> 1 | WtAgainRead \<Rightarrow> 1 | WtRead \<Rightarrow> 1 | WtSleep \<Rightarrow> 0)"

definition once_rank :: "('e, 'l) event_view \<Rightarrow> ('e, 'a) once_cell \<Rightarrow> ('a, 'l) once \<Rightarrow> nat" where
  "once_rank vw c t = (case t of
     OGet \<Rightarrow> 1 | OWait pc lo \<Rightarrow> wait_rank pc | OInit pc s \<Rightarrow> init_rank vw c pc s
   | OGuardStore lo r \<Rightarrow> 2 | OGuardNotify lo r \<Rightarrow> 1 | _ \<Rightarrow> 0)"

lemma once_rank_le: "once_rank vw c t \<le> 10"
  by (auto simp: once_rank_def wait_rank_def init_rank_def load_rank_def Let_def
      split: once.split wait_pc.split init_pc.split)

lemma once_rank_return [simp]:
  "once_rank vw c (return_active lo r) = 0" "once_rank vw c (return_passive lo r) = 0"
  by (simp_all add: once_rank_def return_active_def return_passive_def split: option.split)

subsection \<open>Progress\<close>

lemma wait_progress:
  assumes "once_no_panic c (OWait pc lo)" and "wait_wf pc lo" and "pc \<noteq> WtSleep"
  shows "goes_on once_busy (once_rank vw) (wait_rank pc) (wait_step ev dbg pc c lo)"
  using assms
  by (cases pc)
     (auto simp: once_no_panic_def once_op_defs wait_wf_def Let_def wait_rank_def
       once_rank_def [of _ _ "OWait _ _"] once_busy_def [of "OWait _ _"]
       split: option.splits prod.splits if_splits)

lemma init_progress:
  assumes laws: "event_laws ev vw" and good: "once_no_panic c (OInit pc s)" and wf: "init_wf pc s"
    and pc: "pc \<noteq> InSleep" "pc \<noteq> InClosure"
    and act: "\<And>x. event_listener s = Some x \<Longrightarrow> x \<in> active vw (active_initializers c)"
  shows "goes_on once_busy (once_rank vw) (init_rank vw c pc s) (init_step ev dbg pc c s)"
proof (cases pc)
  case InListen
  obtain l e where l: "ev_listen ev (active_initializers c) = (l, e)" by fastforce
  with listen_untold [OF laws l] InListen show ?thesis
    by (simp add: init_rank_def once_rank_def load_rank_def)
next
  case InWait
  with wf obtain l where s: "event_listener s = Some l" by (auto simp: init_wf_def)
  obtain r e where p: "ev_poll ev l (active_initializers c) = (r, e)" by fastforce
  from pollD(1) [OF laws act [OF s] p] p s InWait show ?thesis
    by (simp add: init_rank_def once_rank_def load_rank_def once_busy_def)
qed (use good wf pc in \<open>auto simp: once_no_panic_def once_op_defs init_wf_def has_seen_def Let_def
       init_rank_def once_rank_def load_rank_def once_busy_def
       split: option.splits prod.splits if_splits cell_state.splits call.splits\<close>)

lemma once_progress:
  assumes laws: "event_laws ev vw" and good: "once_no_panic c t" and wf: "once_wf t" and busy: "once_busy t"
    and act: "\<And>x. active_listener t = Some x \<Longrightarrow> x \<in> active vw (active_initializers c)"
  shows "goes_on once_busy (once_rank vw) (once_rank vw c t) (once_step ev dbg OcRun c t)"
proof (cases t)
  case (OWait pc lo)
  with good wf busy wait_progress [of c pc lo vw ev dbg] show ?thesis
    by (simp add: once_step_def once_rank_def when_run_def once_busy_def)
next
  case (OInit pc s)
  show ?thesis
  proof (cases "pc = InClosure")
    case True
    with OInit busy show ?thesis
      by (auto simp: once_step_def closure_step_def unchanged_def once_rank_def init_rank_def once_busy_def
          split: call.splits)
  next
    case False
    with OInit good wf busy act init_progress [OF laws, of c pc s dbg] show ?thesis
      by (auto simp: once_step_def once_rank_def when_run_def once_busy_def)
  qed
next
  case (OGuardNotify lo r)
  then show ?thesis
    by (simp add: once_step_def when_run_def once_rank_def [of _ _ "OGuardNotify _ _"])
qed (use good busy in \<open>auto simp: once_step_def once_rank_def when_run_def unchanged_def is_initialized_def
       state_from_def once_no_panic_def once_busy_def\<close>)

interpretation once_solo: solo_system "once_step ev dbg" once_busy "\<lambda>i. i = OcRun"
    "\<lambda>S. event_laws ev vw \<and> once_await_ok vw S" "once_rank vw"
  for ev :: "('e, 'l) event_ops" and dbg vw
proof
  fix S :: "(('e, 'a) once_cell, ('a, 'l) once) sys" and k i s' t'
  assume "event_laws ev vw \<and> once_await_ok vw S" and "k < length (tasks S)"
    and "once_step ev dbg i (shared S) (tasks S ! k) = Next (s', t')"
  then show "event_laws ev vw \<and> once_await_ok vw \<lparr>shared = s', tasks = (tasks S)[k := t']\<rparr>"
    using once_await_ok_act by blast
next
  fix S :: "(('e, 'a) once_cell, ('a, 'l) once) sys" and k and i :: "'a once_in"
  assume ok: "event_laws ev vw \<and> once_await_ok vw S" and k: "k < length (tasks S)"
    and busy: "once_busy (tasks S ! k)" and i: "i = OcRun"
  from ok have laws: "event_laws ev vw" and await: "once_await_ok vw S" by simp_all
  then have own: "own_inv vw active_listener (active_initializers (shared S)) (tasks S)"
    and wf: "once_wf (tasks S ! k)"
    using k by (simp_all add: once_await_ok_def counting_inv_def)
  from once_progress [OF laws once_await_no_panic [OF await k] wf busy own_inv_active [OF own k]]
  show "goes_on once_busy (once_rank vw) (once_rank vw (shared S) (tasks S ! k))
      (once_step ev dbg i (shared S) (tasks S ! k))"
    by (simp add: i)
qed

subsection \<open>The property\<close>

text \<open>
  C30: every call on a cell returns when it runs alone. From any reachable state, with the other
  tasks stopped at any point, a \<open>get\<close>, a \<open>try_set\<close>, a first or later poll of a \<open>wait\<close>, \<open>set\<close> or
  \<open>get_or_try_init\<close> future, or the end of a failed initialisation comes to its end, to its
  listener or to the caller's initialiser within eleven of its own actions: it does not loop or panic.
\<close>

theorem once_call_returns:
  assumes "event_laws ev vw" and "once_reachable ev dbg (fresh_event vw) S" and "k < length (tasks S)"
  shows "\<exists>S'. solo (once_step ev dbg) once_busy k (replicate 11 OcRun) S = Next S' \<and>
    \<not> once_busy (tasks S' ! k)"
proof (rule once_solo.solo_returns [where vw = vw])
  show "event_laws ev vw \<and> once_await_ok vw S"
    using once_await.reachable_inv [OF assms(2)] assms(1) by blast
  show "once_rank vw (shared S) (tasks S ! k) < length (replicate 11 OcRun)"
    using once_rank_le [of vw "shared S" "tasks S ! k"] by simp
qed (use assms(3) in auto)

text \<open>The suspended \<open>set\<close> of \<open>demo_failed\<close>, whose turn it is to initialise, has been polled.\<close>

definition demo_taking :: "((qevent, nat) once_cell, (nat, nat) once) sys" where
  "demo_taking = \<lparr>shared = shared demo_failed, tasks = (tasks demo_failed)
     [2 := OInit InWait \<lparr>icall = SetValue 5, event_listener = Some 0, closure = True\<rparr>]\<rparr>"

lemma demo_taking_reachable: "once_reachable queue_events True (fresh_event queue_view) demo_taking"
proof (rule exec_reachable [OF _ demo_failed_reachable])
  show "exec (once_step queue_events True) once_fresh [Act 2 OcPoll] demo_failed = Next demo_taking"
    by (simp add: once_run_simps demo_taking_def demo_failed_def)
qed

theorem once_call_returns_witness:
  "\<exists>S'. solo (once_step queue_events True) once_busy 2 (replicate 11 OcRun) demo_taking = Next S' \<and>
     \<not> once_busy (tasks S' ! 2)"
  by (rule once_call_returns [OF queue_events_laws demo_taking_reachable])
     (simp add: demo_taking_def demo_failed_def)

end
