(* ===== verification/Barrier_Solo.thy ===== *)
theory Barrier_Solo
  imports Barrier_Props Mutex_Solo
begin

text \<open>
  Termination of the polls of the barrier: a first or later poll of a \<open>BarrierWait\<close> that runs alone
  returns or is suspended within 23 actions, including the lock operations it goes through.
\<close>

definition bar_busy :: "'l barrier_wait \<Rightarrow> bool" where
  "bar_busy t = (case t of
     BLock ws l \<Rightarrow> lock_busy l \<or> (\<exists>x. l = LDone (Some x))
   | BSleep g l \<Rightarrow> False | BDone ws leader \<Rightarrow> False | BCancelled ws \<Rightarrow> False | _ \<Rightarrow> True)"

subsection \<open>The rank\<close>

text \<open>
  The actions still to come, less one. A listener that has been notified leads through the lock
  and the checks to a new listener, which the call, alone, does not notify.
\<close>

definition after_rank :: "('e, 'l) event_view \<Rightarrow> 'e barrier \<Rightarrow> 'l after \<Rightarrow> nat" where
  "after_rank vw b a = (case a of
     Loop g l \<Rightarrow> if l \<in> notified vw (bevent b) then 21 else 1 | Ret ws leader \<Rightarrow> 0)"

definition bar_rank :: "('e, 'l) event_view \<Rightarrow> 'e barrier \<Rightarrow> 'l barrier_wait \<Rightarrow> nat" where
  "bar_rank vw b t = (case t of
     BPoll g l \<Rightarrow> if l \<in> notified vw (bevent b) then 20 else 0
   | BLock ws l \<Rightarrow> if lock_busy l then lock_rank vw (bstate b) l + 10 else 0
   | BDropFut ws l \<Rightarrow> 9 | BGuard ws \<Rightarrow> 8 | BCount g \<Rightarrow> 7 | BIncr g c \<Rightarrow> 6 | BTest g \<Rightarrow> 5
   | BCheck g \<Rightarrow> 4 | BReset \<Rightarrow> 4 | BBump \<Rightarrow> 3 | BListen g \<Rightarrow> 3 | BNotify \<Rightarrow> 2
   | BUnlock a \<Rightarrow> Suc (after_rank vw b a) | BUnlockNotify a \<Rightarrow> after_rank vw b a | _ \<Rightarrow> 0)"

lemma bar_rank_le: "bar_rank vw b t \<le> 22"
proof (cases t)
  case (BLock ws l)
  with lock_rank_le [of vw "bstate b" l] show ?thesis by (simp add: bar_rank_def)
qed (simp_all add: bar_rank_def after_rank_def split: after.split)

lemma bar_locked_rank:
  assumes "bar_busy (bar_locked ws l')" and "lock_busy l' \<Longrightarrow> lock_rank vw (bstate b') l' < r"
  shows "bar_rank vw b' (bar_locked ws l') < r + 10"
  using assms
  by (auto simp: bar_locked_def bar_busy_def bar_rank_def lock_busy_def lock_rank_def
      split: lock.splits option.splits)

subsection \<open>Progress\<close>

lemma bar_lock_progress:
  assumes laws: "event_laws ev vw" and wf: "lock_wf l" and busy: "bar_busy (BLock ws l)"
    and act: "\<And>x. lock_listener l = Some x \<Longrightarrow> x \<in> active vw (lock_ops (bstate b))"
    and no_abort: "lock_step ev (Run now) (bstate b) l \<noteq> Abort"
  shows "goes_on bar_busy (bar_rank vw) (bar_rank vw b (BLock ws l)) (bar_lock_step ev (BaRun now) b ws l)"
proof (cases "lock_busy l")
  case True
  from lock_progress [OF laws wf True act no_abort] obtain m' l' where
    step: "lock_step ev (Run now) (bstate b) l = Next (m', l')"
    and rank: "lock_busy l' \<longrightarrow> lock_rank vw m' l' < lock_rank vw (bstate b) l" by (rule goes_onE)
  have "bar_lock_in (BaRun now) l = Run now"
    using True by (auto simp: bar_lock_in_def lock_busy_def split: lock.split)
  with True step rank bar_locked_rank [of ws l' vw "b\<lparr>bstate := m'\<rparr>" "lock_rank vw (bstate b) l"]
  show ?thesis by (simp add: bar_lock_step_def bar_rank_def [of vw b])
next
  case False
  with busy obtain x where "l = LDone (Some x)" by (auto simp: bar_busy_def)
  then show ?thesis
    by (simp add: bar_lock_step_def bar_lock_in_def lock_step_def drop_listener_def bar_locked_def
        bar_busy_def)
qed

lemma bar_progress:
  assumes laws: "event_laws ev vw" and wf: "bar_wf t" and busy: "bar_busy t"
    and on_lock: "\<And>x. lock_listener (bar_lock t) = Some x \<Longrightarrow> x \<in> active vw (lock_ops (bstate b))"
    and on_event: "\<And>x. bar_listener t = Some x \<Longrightarrow> x \<in> active vw (bevent b)"
    and no_abort: "lock_step ev (Run now) (bstate b) (bar_lock t) \<noteq> Abort"
    and no_panic: "bar_step ev (BaRun now) b t \<noteq> Panic"
  shows "goes_on bar_busy (bar_rank vw) (bar_rank vw b t) (bar_step ev (BaRun now) b t)"
proof (cases t)
  case (BLock ws l)
  with bar_lock_progress [OF laws, of l ws b now] wf busy on_lock no_abort show ?thesis
    by (simp add: bar_step_def)
next
  case (BListen g)
  obtain l e where l: "ev_listen ev (bevent b) = (l, e)" by fastforce
  with listen_untold [OF laws l] BListen show ?thesis
    by (simp add: bar_step_def bar_run_def bar_listen_def bar_rank_def after_rank_def)
next
  case (BPoll g l)
  obtain r e where p: "ev_poll ev l (bevent b) = (r, e)" by fastforce
  from BPoll pollD(1) [OF laws on_event p] p show ?thesis
    by (auto simp: bar_step_def bar_run_def bar_poll_def bar_rank_def bar_busy_def lock_rank_def)
next
  case (BGuard ws)
  with wf show ?thesis
    by (auto simp: bar_step_def bar_run_def bar_guard_def bar_rank_def after_rank_def
        split: wait_state.split)
next
  case (BUnlockNotify a)
  then show ?thesis
    by (cases a) (auto simp: bar_step_def bar_run_def bar_after_def bar_rank_def after_rank_def bar_busy_def)
next
  case (BUnlock a)
  then show ?thesis
    by (simp add: bar_step_def bar_run_def bar_rank_def after_rank_def split: after.split)
qed (use busy no_panic in \<open>auto simp: bar_step_def bar_run_def bar_rank_def after_rank_def bar_busy_def
       bar_incr_def bar_test_def bar_check_def\<close>)

text \<open>What the progress of a call rests on.\<close>

definition bar_solo_ok ::
    "('e, 'l) event_ops \<Rightarrow> ('e, 'l) event_view \<Rightarrow> usize \<Rightarrow> ('e barrier, 'l barrier_wait) sys \<Rightarrow> bool" where
  "bar_solo_ok ev vw n S \<longleftrightarrow> event_laws ev vw \<and> bar_wake_inv vw n S \<and>
     client_wake vw bstate bar_lock bar_wf S \<and> length (tasks S) \<le> 2 ^ 62"

definition is_bar_run :: "bar_in \<Rightarrow> bool" where
  "is_bar_run i = (case i of BaRun now \<Rightarrow> True | _ \<Rightarrow> False)"

interpretation bar_solo: solo_system "bar_step ev" bar_busy is_bar_run "bar_solo_ok ev vw n" "bar_rank vw"
  for ev :: "('e, 'l) event_ops" and vw n
proof
  fix S :: "('e barrier, 'l barrier_wait) sys" and k i s' t'
  assume "bar_solo_ok ev vw n S" and "k < length (tasks S)"
    and "bar_step ev i (shared S) (tasks S ! k) = Next (s', t')"
  then show "bar_solo_ok ev vw n \<lparr>shared = s', tasks = (tasks S)[k := t']\<rparr>"
    by (auto simp: bar_solo_ok_def intro: bar_wake_act bar.client_wake_act)
next
  fix S :: "('e barrier, 'l barrier_wait) sys" and k i
  assume ok: "bar_solo_ok ev vw n S" and k: "k < length (tasks S)" and busy: "bar_busy (tasks S ! k)"
    and "is_bar_run i"
  then obtain now where i: "i = BaRun now" by (auto simp: is_bar_run_def split: bar_in.splits)
  let ?P = "lock_part bstate bar_lock S"
  from ok have laws: "event_laws ev vw" and few: "length (tasks S) \<le> 2 ^ 62"
    and bi: "bar_inv n S" and own: "own_inv vw bar_listener (bevent (shared S)) (tasks S)"
    and ownP: "own_inv vw lock_listener (lock_ops (shared ?P)) (tasks ?P)"
    by (simp_all add: bar_solo_ok_def bar_wake_inv_def client_wake_def wake_inv_def)
  from bi have cok: "client_ok bstate bar_lock bar_wf S" by (simp add: bar_inv_def)
  then have wf: "bar_wf (tasks S ! k)" using k by (simp add: client_ok_def)
  have kP: "k < length (tasks ?P)" using k by simp
  show "goes_on bar_busy (bar_rank vw) (bar_rank vw (shared S) (tasks S ! k)) (bar_step ev i (shared S) (tasks S ! k))"
    unfolding i
  proof (rule bar_progress [OF laws wf busy])
    show "x \<in> active vw (lock_ops (bstate (shared S)))"
      if "lock_listener (bar_lock (tasks S ! k)) = Some x" for x
      using own_inv_active [OF ownP kP] that k by simp
    show "x \<in> active vw (bevent (shared S))" if "bar_listener (tasks S ! k) = Some x" for x
      by (rule own_inv_active [OF own k that])
    show "lock_step ev (Run now) (bstate (shared S)) (bar_lock (tasks S ! k)) \<noteq> Abort"
      by (rule client_no_abort [OF cok k few])
    show "bar_step ev (BaRun now) (shared S) (tasks S ! k) \<noteq> Panic" by (rule bar_inv_no_panic [OF bi k])
  qed
qed

subsection \<open>The property\<close>

text \<open>
  C35: every poll of a \<open>BarrierWait\<close> returns when it runs alone. From any reachable state, with the
  other tasks stopped at any point, a first or later poll, or the drop of the future, comes to its
  end (ready, or suspended in the lock or in the listener) within 23 of its own actions, for any
  readings of the clock: it does not loop, panic or abort.
\<close>

theorem barrier_call_returns:
  assumes "event_laws ev vw" and "bar_reachable ev (fresh_event vw) n S"
    and "length (tasks S) \<le> 2 ^ 62" and "k < length (tasks S)" and "length clock = 23"
  shows "\<exists>S'. solo (bar_step ev) bar_busy k (map BaRun clock) S = Next S' \<and> \<not> bar_busy (tasks S' ! k)"
proof (rule bar_solo.solo_returns [where vw = vw])
  show "bar_solo_ok ev vw n S"
    using bar_wake.reachable_inv [OF assms(2)] bar.client_wake.reachable_inv [OF assms(2)] assms(1,3)
    by (simp add: bar_solo_ok_def)
  show "bar_rank vw (shared S) (tasks S ! k) < length (map BaRun clock)"
    using bar_rank_le [of vw "shared S" "tasks S ! k"] assms(5) by simp
qed (use assms(4) in \<open>auto simp: is_bar_run_def\<close>)

text \<open>The sleeper of \<open>demo_met\<close>, whose generation is over, has been polled.\<close>

definition demo_released :: "(qevent barrier, nat barrier_wait) sys" where
  "demo_released = \<lparr>shared = shared demo_met, tasks = (tasks demo_met)[0 := BPoll 0 0]\<rparr>"

lemma demo_released_reachable: "bar_reachable queue_events (fresh_event queue_view) 2 demo_released"
proof (rule exec_reachable [OF _ demo_met_reachable])
  show "exec (bar_step queue_events) bar_fresh [Act 0 (BaPoll 0)] demo_met = Next demo_released"
    by (simp add: bar_run_simps demo_met_def demo_released_def)
qed

theorem barrier_call_returns_witness:
  "\<exists>S'. solo (bar_step queue_events) bar_busy 0 (map BaRun (replicate 23 0)) demo_released = Next S' \<and>
     \<not> bar_busy (tasks S' ! 0)"
  by (rule barrier_call_returns [OF queue_events_laws demo_released_reachable])
     (simp_all add: demo_released_def demo_met_def)

end
