(* ===== verification/Barrier_Spec.thy ===== *)
theory Barrier_Spec
  imports Barrier_Props
begin

text \<open>
  The barrier implements an abstract barrier. A task that arrives gets a ticket with the number of
  the current group, unless it completes the group: then it is the leader and the next group
  begins. A task with a ticket returns only when its group is complete.
\<close>

subsection \<open>Specification\<close>

record abs_barrier =
  tickets :: "nat \<rightharpoonup> nat"
  completed :: nat
  leaders :: "nat set"
  returned :: "nat set"

definition crowd :: "abs_barrier \<Rightarrow> nat set" where
  "crowd a = {k. tickets a k = Some (completed a)}"

inductive abs_bar_step :: "nat \<Rightarrow> abs_barrier \<Rightarrow> abs_barrier \<Rightarrow> bool" for size where
  arrive: "k \<notin> dom (tickets a) \<Longrightarrow> k \<notin> leaders a \<Longrightarrow> card (crowd a) + 1 < size \<Longrightarrow>
    abs_bar_step size a (a\<lparr>tickets := (tickets a)(k \<mapsto> completed a)\<rparr>)"
| complete: "k \<notin> dom (tickets a) \<Longrightarrow> k \<notin> leaders a \<Longrightarrow> card (crowd a) + 1 = size \<Longrightarrow>
    abs_bar_step size a (a\<lparr>completed := Suc (completed a), leaders := insert k (leaders a)\<rparr>)"
| return: "tickets a k = Some i \<Longrightarrow> i < completed a \<Longrightarrow>
    abs_bar_step size a (a\<lparr>returned := insert k (returned a)\<rparr>)"

subsection \<open>Tickets\<close>

text \<open>\<open>local_gen\<close> of a task that has arrived and is not the leader, also after it has returned or been cancelled.\<close>

definition ticket :: "'l barrier_wait \<Rightarrow> u64 option" where
  "ticket t = (case t of
     BCancelled ws \<Rightarrow> state_gen ws
   | _ \<Rightarrow> (case wait_gen t of Some g \<Rightarrow> Some g | None \<Rightarrow> ret_gen t))"

lemma ticket_simps [simp]:
  "ticket (BLock ws l) = state_gen ws" "ticket (BDropFut ws x) = state_gen ws"
  "ticket (BGuard ws) = state_gen ws" "ticket (BCount g) = None" "ticket (BIncr g c) = None"
  "ticket (BTest g) = None" "ticket BReset = None" "ticket BBump = None" "ticket BNotify = None"
  "ticket (BCheck g) = Some g" "ticket (BListen g) = Some g" "ticket (BUnlock (Loop g x)) = Some g"
  "ticket (BUnlock (Ret ws b)) = state_gen ws" "ticket (BUnlockNotify a) = ticket (BUnlock a)"
  "ticket (bar_after a) = ticket (BUnlock a)" "ticket (BPoll g x) = Some g"
  "ticket (BSleep g x) = Some g" "ticket (BDone ws b) = state_gen ws"
  "ticket (BCancelled ws) = state_gen ws"
  by (auto simp: ticket_def bar_after_def split: option.split after.split)

lemma ticket_locked [simp]: "ticket (bar_locked ws l) = state_gen ws"
  by (simp add: bar_locked_def split: lock.split option.split)

lemma bar_step_ticket:
  assumes "bar_step ev i b t = Next (b', t')" and "bar_wf t"
  shows "ticket t' = ticket t \<or> (\<exists>g. t = BTest g \<and> t' = BListen g)"
    and "ret_gen t' = ret_gen t \<or> ret_gen t = None \<and> ret_gen t' = ticket t"
proof -
  have "(ticket t' = ticket t \<or> (\<exists>g. t = BTest g \<and> t' = BListen g)) \<and>
    (ret_gen t' = ret_gen t \<or> ret_gen t = None \<and> ret_gen t' = ticket t)"
  proof (cases t)
    case (BLock ws l)
    with assms show ?thesis by (auto simp: bar_step_def bar_locked_gen(2) elim!: bar_lock_stepE)
  next
    case (BGuard ws)
    with assms show ?thesis
      by (auto simp: bar_step_def bar_run_Next map_outcome_Next_iff elim!: bar_guard_cases)
  next
    case (BUnlock a)
    with assms show ?thesis by (cases a) (auto simp: bar_op_defs)
  next
    case (BUnlockNotify a)
    with assms show ?thesis by (cases a) (auto simp: bar_op_defs bar_after_def)
  qed (use assms in \<open>auto simp: bar_op_defs Let_def split: prod.splits if_splits bar_in.splits\<close>)
  then show "ticket t' = ticket t \<or> (\<exists>g. t = BTest g \<and> t' = BListen g)"
    and "ret_gen t' = ret_gen t \<or> ret_gen t = None \<and> ret_gen t' = ticket t" by simp_all
qed

subsection \<open>How many tasks wait in the current group\<close>

definition waiting_now :: "('e barrier, 'l barrier_wait) sys \<Rightarrow> nat set" where
  "waiting_now S = indices (\<lambda>t. ticket t = Some (generation_id (bar_data (shared S)))) (tasks S)"

text \<open>Every ticket is for the current group or an earlier one.\<close>

definition tickets_ok :: "('e barrier, 'l barrier_wait) sys \<Rightarrow> bool" where
  "tickets_ok S \<longleftrightarrow> (\<forall>t \<in> set (tasks S). \<forall>g. ticket t = Some g \<longrightarrow>
     (\<exists>i \<le> card (indices led (tasks S)). g = of_nat i))"

text \<open>
  Those who wait in the current group, and the task that is about to join or complete it, are as
  many as the count says; when the count has been reset, they are all but the leader.
\<close>

definition crowd_inv :: "('e barrier, 'l barrier_wait) sys \<Rightarrow> bool" where
  "crowd_inv S \<longleftrightarrow> card (waiting_now S) + card (indices counting (tasks S)) =
     unat (bcount (bar_data (shared S))) + (bar_size (shared S) - 1) * card (indices ((=) BBump) (tasks S))"

text \<open>The owner of the guard is the only one at a given point with the guard.\<close>

lemma only_owner:
  assumes inv: "bar_inv n S" and k: "k < length (tasks S)" and own: "lock_owner (bar_lock (tasks S ! k)) = 1"
    and P: "\<And>t. P t \<Longrightarrow> lock_owner (bar_lock t) = 1"
  shows "card (indices P (tasks S)) = of_bool (P (tasks S ! k))"
proof -
  have "client_ok bstate bar_lock bar_wf S" using inv by (simp add: bar_inv_def)
  have ok: "client_ok bstate bar_lock bar_wf S" using inv by (simp add: bar_inv_def)
  have "j = k" if "j < length (tasks S)" "P (tasks S ! j)" for j
    using client_owner_unique [OF ok that(1) k] P [OF that(2)] own by simp
  then have "indices P (tasks S) \<subseteq> {k}" unfolding indices_def by blast
  moreover have "k \<in> indices P (tasks S) \<longleftrightarrow> P (tasks S ! k)" using k by (simp add: indices_def)
  ultimately have "indices P (tasks S) = (if P (tasks S ! k) then {k} else {})" by auto
  then show ?thesis by simp
qed

lemma card_indices_le: "card (indices P ts) \<le> length ts"
  using card_mono [of "{..<length ts}" "indices P ts"] by (auto simp: indices_def)

lemma indices_same: "k < length ts \<Longrightarrow> P t = P (ts ! k) \<Longrightarrow> indices P (ts[k := t]) = indices P ts"
  by (auto simp: indices_def nth_list_update)

lemma tickets_act:
  assumes bi: "bar_inv n S" and ok: "tickets_ok S" and k: "k < length (tasks S)"
    and step: "bar_step ev i (shared S) (tasks S ! k) = Next (b', t')"
  shows "tickets_ok \<lparr>shared = b', tasks = (tasks S)[k := t']\<rparr>"
proof -
  let ?t = "tasks S ! k" and ?ts' = "(tasks S)[k := t']" and ?L = "card (indices led (tasks S))"
  from bi k have wf: "bar_wf ?t" and loc: "bar_local (shared S) ?t"
    and gen: "generation_id (bar_data (shared S)) = of_nat ?L"
    by (simp_all add: bar_inv_def client_ok_def bar_totals_def)
  have old: "\<exists>i \<le> ?L. g = of_nat i" if "t \<in> set (tasks S)" "ticket t = Some g" for t g
    using ok that unfolding tickets_ok_def by blast
  have new: "\<exists>i \<le> ?L. g = of_nat i" if g: "ticket t' = Some g" for g
    using bar_step_ticket(1) [OF step wf]
  proof
    assume "ticket t' = ticket ?t"
    with g old [OF nth_mem [OF k]] show ?thesis by simp
  next
    assume "\<exists>h. ?t = BTest h \<and> t' = BListen h"
    with g loc gen show ?thesis by (auto simp: bar_local_def)
  qed
  have "led ?t \<longrightarrow> led t'" using bar_step_move(1) [OF step wf loc] by cases simp_all
  then have mono: "?L \<le> card (indices led ?ts')"
    using card_indices_pos [OF k, of led] by (simp add: card_indices_update [OF k])
  have "\<exists>i \<le> card (indices led ?ts'). g = of_nat i" if t: "t \<in> set ?ts'" "ticket t = Some g" for t g
  proof -
    from t(1) have "t = t' \<or> t \<in> set (tasks S)" by (auto dest: set_update_subset_insert [THEN subsetD])
    with t(2) old new obtain i where "i \<le> ?L" "g = of_nat i" by blast
    with mono show ?thesis by (intro exI [of _ i]) simp
  qed
  then show ?thesis by (simp add: tickets_ok_def)
qed

text \<open>Nobody has a ticket for the group that the leader is about to begin.\<close>

lemma next_group_empty:
  assumes bi: "bar_inv n S" and ok: "tickets_ok S" and few: "length (tasks S) < 2 ^ 64"
    and k: "k < length (tasks S)" "tasks S ! k = BBump"
  shows "indices (\<lambda>t. ticket t = Some (generation_id (bar_data (shared S)) + 1)) (tasks S) = {}"
proof -
  let ?L = "card (indices led (tasks S))"
  have gen: "generation_id (bar_data (shared S)) = of_nat ?L" using bi by (simp add: bar_inv_def bar_totals_def)
  have "indices led (tasks S) \<subseteq> {..<length (tasks S)} - {k}" using k(2) by (auto simp: indices_def)
  then have "?L \<le> card ({..<length (tasks S)} - {k})" by (intro card_mono) simp_all
  with k few have less: "Suc ?L < 2 ^ 64" by simp
  have "ticket t \<noteq> Some (generation_id (bar_data (shared S)) + 1)" if "t \<in> set (tasks S)" for t
  proof
    assume "ticket t = Some (generation_id (bar_data (shared S)) + 1)"
    with ok that obtain i where i: "i \<le> ?L" "of_nat (Suc ?L) = (of_nat i :: u64)"
      unfolding tickets_ok_def gen by (metis of_nat_Suc add.commute)
    moreover have "unat (of_nat (Suc ?L) :: u64) = Suc ?L" "unat (of_nat i :: u64) = i"
      using i(1) less by (simp_all add: unat_of_nat del: of_nat_Suc)
    ultimately show False by simp
  qed
  then show ?thesis by (auto simp: indices_empty_iff)
qed

lemma crowd_act:
  assumes bi: "bar_inv n S" and ok: "tickets_ok S" and cr: "crowd_inv S" and few: "length (tasks S) < 2 ^ 64"
    and k: "k < length (tasks S)" and step: "bar_step ev i (shared S) (tasks S ! k) = Next (b', t')"
  shows "crowd_inv \<lparr>shared = b', tasks = (tasks S)[k := t']\<rparr>"
proof -
  let ?b = "shared S" and ?ts = "tasks S" and ?t = "tasks S ! k" and ?ts' = "(tasks S)[k := t']"
  from bi k have wf: "bar_wf ?t" and loc: "bar_local ?b ?t" by (simp_all add: bar_inv_def client_ok_def)
  note move = bar_step_move [OF step wf loc] and upd = card_indices_update [OF k]
  have size: "bar_size b' = bar_size ?b" by (simp add: bar_size_def move(2))
  have eq: "card (indices (\<lambda>t. ticket t = Some (generation_id (bar_data ?b))) ?ts) + card (indices counting ?ts) =
      unat (bcount (bar_data ?b)) + (bar_size ?b - 1) * card (indices ((=) BBump) ?ts)"
    using cr by (simp add: crowd_inv_def waiting_now_def)
  have pos: "1 \<le> card (indices counting ?ts)" if "counting ?t" using card_indices_pos [OF k, of counting] that by simp
  from move(1) have "card (indices (\<lambda>t. ticket t = Some (generation_id (bar_data b'))) ?ts') +
      card (indices counting ?ts') =
    unat (bcount (bar_data b')) + (bar_size ?b - 1) * card (indices ((=) BBump) ?ts')"
  proof cases
    case quiet
    then have "ticket t' = ticket ?t" and "(BBump = t') = (BBump = ?t)"
      using bar_step_ticket(1) [OF step wf] by (auto simp: has_reset_def)
    with quiet eq show ?thesis by (simp add: indices_same [OF k])
  next
    case (count c h)
    then have "unat c \<noteq> 2 ^ 64 - 1" by (simp add: usize_eq_iff unat_usize_MAX)
    moreover have "unat c < 2 ^ 64" using unsigned_less [of c] by simp
    ultimately have "unat (c + 1) = unat c + 1" by (simp add: unat_add_no_wrap)
    with count eq loc show ?thesis by (simp add: upd bar_local_def)
  next
    case (wait h)
    with eq loc pos show ?thesis by (simp add: upd bar_local_def)
  next
    case (full h)
    with eq pos show ?thesis by (simp add: upd)
  next
    case reset
    then have "unat (bcount (bar_data ?b)) = bar_size ?b" "1 \<le> bar_size ?b"
      using loc by (simp_all add: bar_local_def bar_size_def)
    with reset eq pos show ?thesis by (simp add: upd)
  next
    case bump
    then have own: "lock_owner (bar_lock ?t) = 1" by (simp add: lock_owner_def)
    have "card (indices ((=) BBump) ?ts) = 1" "card (indices counting ?ts) = 0"
      using only_owner [OF bi k own, of "(=) BBump"] only_owner [OF bi k own counting_owner] bump(1)
      by (auto simp: lock_owner_def)
    with bump loc next_group_empty [OF bi ok few k] show ?thesis by (simp add: upd bar_local_def)
  qed
  then show ?thesis by (simp add: crowd_inv_def waiting_now_def size)
qed

definition bar_crowd_inv :: "usize \<Rightarrow> ('e barrier, 'l barrier_wait) sys \<Rightarrow> bool" where
  "bar_crowd_inv n S \<longleftrightarrow> bar_gen_inv n S \<and> tickets_ok S \<and> (length (tasks S) < 2 ^ 64 \<longrightarrow> crowd_inv S)"

interpretation bar_crowd: inv_system "bar_step ev" bar_fresh "bar_start new_event n" "bar_crowd_inv n"
  for ev :: "('e, 'l) event_ops" and new_event n
proof
  fix b :: "'e barrier"
  assume start: "bar_start new_event n b"
  from bar_gen.inv_init [OF this] start show "bar_crowd_inv n \<lparr>shared = b, tasks = []\<rparr>"
    by (auto simp: bar_crowd_inv_def tickets_ok_def crowd_inv_def waiting_now_def bar_start_def barrier_new_def mutex_new_def
        bar_data_def)
next
  fix S :: "('e barrier, 'l barrier_wait) sys" and t :: "'l barrier_wait"
  assume inv: "bar_crowd_inv n S" and t: "bar_fresh t"
  then have "\<not> led t" "\<not> counting t" "BBump \<noteq> t" "ticket t = None"
    by (simp_all add: bar_fresh_def wait_future_def)
  with inv bar_gen.inv_spawn [OF _ t] show "bar_crowd_inv n (S\<lparr>tasks := tasks S @ [t]\<rparr>)"
    by (auto simp: bar_crowd_inv_def tickets_ok_def crowd_inv_def waiting_now_def indices_snoc)
next
  fix S :: "('e barrier, 'l barrier_wait) sys" and k i b' t'
  assume inv: "bar_crowd_inv n S" and k: "k < length (tasks S)"
    and step: "bar_step ev i (shared S) (tasks S ! k) = Next (b', t')"
  from inv have gi: "bar_gen_inv n S" and bi: "bar_inv n S" and ok: "tickets_ok S"
    by (simp_all add: bar_crowd_inv_def bar_gen_inv_def)
  from bar_gen_act [OF gi k step] tickets_act [OF bi ok k step] crowd_act [OF bi ok _ _ k step] inv
  show "bar_crowd_inv n \<lparr>shared = b', tasks = (tasks S)[k := t']\<rparr>"
    by (simp add: bar_crowd_inv_def)
qed

subsection \<open>Refinement\<close>

definition abs_bar :: "('e barrier, 'l barrier_wait) sys \<Rightarrow> abs_barrier" where
  "abs_bar S = \<lparr>tickets = (\<lambda>k. if k < length (tasks S) then map_option unat (ticket (tasks S ! k)) else None),
     completed = card (indices led (tasks S)), leaders = indices led (tasks S),
     returned = indices (\<lambda>t. ret_gen t \<noteq> None) (tasks S)\<rparr>"

lemma abs_bar_act:
  assumes k: "k < length (tasks S)"
  shows "abs_bar \<lparr>shared = b', tasks = (tasks S)[k := t']\<rparr> =
    \<lparr>tickets = (tickets (abs_bar S))(k := map_option unat (ticket t')),
     completed = completed (abs_bar S) - of_bool (led (tasks S ! k)) + of_bool (led t'),
     leaders = (if led t' then insert k (leaders (abs_bar S)) else leaders (abs_bar S) - {k}),
     returned = (if ret_gen t' \<noteq> None then insert k (returned (abs_bar S)) else returned (abs_bar S) - {k})\<rparr>"
proof (rule abs_barrier.equality)
  let ?S' = "\<lparr>shared = b', tasks = (tasks S)[k := t']\<rparr>"
  have "completed (abs_bar ?S') = completed (abs_bar S) - of_bool (led (tasks S ! k)) + of_bool (led t')"
    using card_indices_update [OF k, of led t'] by (simp add: abs_bar_def)
  then show "completed (abs_bar ?S') = completed \<lparr>tickets = (tickets (abs_bar S))(k := map_option unat (ticket t')),
     completed = completed (abs_bar S) - of_bool (led (tasks S ! k)) + of_bool (led t'),
     leaders = (if led t' then insert k (leaders (abs_bar S)) else leaders (abs_bar S) - {k}),
     returned = (if ret_gen t' \<noteq> None then insert k (returned (abs_bar S)) else returned (abs_bar S) - {k})\<rparr>"
    by simp
qed (use k in \<open>auto simp: abs_bar_def fun_eq_iff indices_update\<close>)

lemma abs_bar_same:
  assumes "k < length (tasks S)" and "ticket t' = ticket (tasks S ! k)" and "led t' = led (tasks S ! k)"
    and "(ret_gen t' = None) = (ret_gen (tasks S ! k) = None)"
  shows "abs_bar \<lparr>shared = b', tasks = (tasks S)[k := t']\<rparr> = abs_bar S"
  using assms indices_same [OF assms(1), of led t'] indices_same [OF assms(1), of "\<lambda>t. ret_gen t \<noteq> None" t']
  by (simp add: abs_bar_def fun_eq_iff nth_list_update)

text \<open>The crowd of the abstract barrier, while the task \<open>k\<close> has the guard.\<close>

lemma crowd_card:
  assumes inv: "bar_crowd_inv n S" and few: "length (tasks S) < 2 ^ 64"
    and k: "k < length (tasks S)" "lock_owner (bar_lock (tasks S ! k)) = 1"
  shows "card (crowd (abs_bar S)) + of_bool (counting (tasks S ! k)) =
    unat (bcount (bar_data (shared S))) + (bar_size (shared S) - 1) * of_bool (tasks S ! k = BBump)"
proof -
  from inv few have bi: "bar_inv n S" and cr: "crowd_inv S"
    by (simp_all add: bar_crowd_inv_def bar_gen_inv_def)
  then have gen: "generation_id (bar_data (shared S)) = of_nat (card (indices led (tasks S)))"
    by (simp add: bar_inv_def bar_totals_def)
  have less: "card (indices led (tasks S)) < 2 ^ 64" using few card_indices_le le_less_trans by blast
  have same: "unat g = card (indices led (tasks S)) \<longleftrightarrow> g = generation_id (bar_data (shared S))" for g :: u64
    using less by (simp add: gen usize_eq_iff unat_of_nat)
  have "crowd (abs_bar S) = waiting_now S"
    using same by (auto simp: crowd_def abs_bar_def waiting_now_def indices_def [of "\<lambda>t. ticket t = _"]
        split: if_splits)
  moreover have "card (indices counting (tasks S)) = of_bool (counting (tasks S ! k))"
    by (rule only_owner [OF bi k counting_owner])
  moreover have "card (indices ((=) BBump) (tasks S)) = of_bool (BBump = tasks S ! k)"
    by (rule only_owner [OF bi k]) (auto simp: lock_owner_def)
  ultimately show ?thesis using cr by (simp add: crowd_inv_def eq_commute)
qed

lemma abs_gen:
  assumes "bar_inv n S" and "length (tasks S) < 2 ^ 64"
  shows "generation_id (bar_data (shared S)) = of_nat (completed (abs_bar S))" and "completed (abs_bar S) < 2 ^ 64"
  using assms card_indices_le [of led "tasks S"]
  by (simp_all add: bar_inv_def bar_totals_def abs_bar_def)

lemma abs_members:
  assumes "k < length (tasks S)"
  shows "tickets (abs_bar S) k = map_option unat (ticket (tasks S ! k))"
    and "k \<in> leaders (abs_bar S) \<longleftrightarrow> led (tasks S ! k)"
    and "k \<in> returned (abs_bar S) \<longleftrightarrow> ret_gen (tasks S ! k) \<noteq> None"
  using assms by (simp_all add: abs_bar_def indices_def)

lemma abs_release:
  assumes inv: "bar_gen_inv n S" and few: "length (tasks S) < 2 ^ 64" and k: "k < length (tasks S)"
    and step: "bar_step ev i (shared S) (tasks S ! k) = Next (b', t')"
    and tick: "ticket t' = ticket (tasks S ! k)" and led: "led t' = led (tasks S ! k)"
    and ret: "ret_gen t' = Some g" "ticket (tasks S ! k) = Some g"
  shows "abs_bar_step m (abs_bar S) (abs_bar \<lparr>shared = b', tasks = (tasks S)[k := t']\<rparr>)"
proof -
  let ?a = "abs_bar S" and ?S' = "\<lparr>shared = b', tasks = (tasks S)[k := t']\<rparr>"
  have bi: "bar_inv n S" using inv by (simp add: bar_gen_inv_def)
  have L: "card (indices led ((tasks S)[k := t'])) = completed ?a"
    using indices_same [OF k, of led t'] led by (simp add: abs_bar_def)
  have "gen_ok n (completed ?a) t'"
    using bar_gen_act [OF inv k step] set_update_memI [OF k] by (simp add: bar_gen_inv_def L)
  with ret(1) obtain j where "j < completed ?a" "g = of_nat j" by (auto simp: gen_ok_def)
  with abs_gen(2) [OF bi few] ret(2) have j: "tickets ?a k = Some j" "j < completed ?a"
    by (simp_all add: abs_members(1) [OF k] unat_of_nat)
  have "abs_bar ?S' = ?a\<lparr>returned := insert k (returned ?a)\<rparr>"
    using ret(1) tick led j abs_members(1,2) [OF k]
    by (cases "led t'") (auto simp: abs_bar_act [OF k] fun_upd_idem insert_absorb intro: abs_barrier.equality)
  with abs_bar_step.return [OF j] show ?thesis by simp
qed

lemma abs_bar_refines:
  assumes inv: "bar_crowd_inv n S" and few: "length (tasks S) < 2 ^ 64" and k: "k < length (tasks S)"
    and step: "bar_step ev i (shared S) (tasks S ! k) = Next (b', t')"
  shows "abs_bar \<lparr>shared = b', tasks = (tasks S)[k := t']\<rparr> = abs_bar S \<or>
    abs_bar_step (max 1 (unat n)) (abs_bar S) (abs_bar \<lparr>shared = b', tasks = (tasks S)[k := t']\<rparr>)"
proof -
  let ?b = "shared S" and ?t = "tasks S ! k" and ?S' = "\<lparr>shared = b', tasks = (tasks S)[k := t']\<rparr>"
  let ?a = "abs_bar S"
  from inv have gi: "bar_gen_inv n S" and bi: "bar_inv n S" by (simp_all add: bar_crowd_inv_def bar_gen_inv_def)
  with k have wf: "bar_wf ?t" and loc: "bar_local ?b ?t" and n: "bn ?b = n"
    by (simp_all add: bar_inv_def client_ok_def)
  note tick = bar_step_ticket [OF step wf] and mem = abs_members [OF k] and gen = abs_gen [OF bi few]
  from bar_step_move(1) [OF step wf loc] show ?thesis
  proof cases
    case quiet
    then have t': "ticket t' = ticket ?t" using tick(1) by auto
    show ?thesis
    proof (cases "(ret_gen t' = None) = (ret_gen ?t = None)")
      case True
      from abs_bar_same [OF k t' quiet(3) this] show ?thesis ..
    next
      case False
      with tick(2) have "ret_gen t' = ticket ?t" "ret_gen t' \<noteq> None" by auto
      with abs_release [OF gi few k step t' quiet(3)] show ?thesis by auto
    qed
  next
    case (wait h)
    then have "h = of_nat (completed ?a)" using loc gen(1) by (simp add: bar_local_def)
    with gen(2) wait mem have "abs_bar ?S' = ?a\<lparr>tickets := (tickets ?a)(k \<mapsto> completed ?a)\<rparr>"
      by (auto simp: abs_bar_act [OF k] unat_of_nat intro: abs_barrier.equality)
    moreover have "card (crowd ?a) + 1 < max 1 (unat n)"
      using wait crowd_card [OF inv few k] n by (simp add: lock_owner_def word_less_nat_alt)
    ultimately show ?thesis using abs_bar_step.arrive [of k ?a] wait mem by (simp add: domIff)
  next
    case bump
    then have "abs_bar ?S' = ?a\<lparr>completed := Suc (completed ?a), leaders := insert k (leaders ?a)\<rparr>"
      using mem by (auto simp: abs_bar_act [OF k] fun_upd_idem intro: abs_barrier.equality)
    moreover have "card (crowd ?a) + 1 = max 1 (unat n)"
      using bump crowd_card [OF inv few k] loc n by (simp add: lock_owner_def bar_local_def bar_size_def)
    ultimately show ?thesis using abs_bar_step.complete [of k ?a] bump mem by (simp add: domIff)
  qed (use tick in \<open>simp_all add: abs_bar_same [OF k]\<close>)
qed

subsection \<open>The property\<close>

text \<open>
  C31: the barrier implements the abstract barrier, for groups of \<open>n\<close> tasks (of one, if \<open>n\<close> is 0):
  with fewer than \<open>2 ^ 64\<close> tasks, every step of any task either changes nothing of the abstract state,
  or lets a task arrive in a group that it does not complete, or completes the current group and
  makes the task its leader, or releases a task whose group is complete.
\<close>

theorem barrier_refines_abstract:
  assumes reach: "bar_reachable ev new_event n S" and few: "length (tasks S) < 2 ^ 64"
    and step: "sys_step (bar_step ev) bar_fresh S S'"
  shows "abs_bar S' = abs_bar S \<or> abs_bar_step (max 1 (unat n)) (abs_bar S) (abs_bar S')"
  using step
proof (rule sys_stepE)
  fix t assume "bar_fresh t" and "S' = S\<lparr>tasks := tasks S @ [t]\<rparr>"
  then show ?thesis
    by (auto simp: abs_bar_def fun_eq_iff bar_fresh_def wait_future_def indices_snoc nth_append)
next
  fix k i b' t'
  assume "S' = \<lparr>shared = b', tasks = (tasks S)[k := t']\<rparr>" and "k < length (tasks S)"
    and "bar_step ev i (shared S) (tasks S ! k) = Next (b', t')"
  with abs_bar_refines [OF bar_crowd.reachable_inv [OF reach] few] show ?thesis by simp
qed

text \<open>The sleeper of \<open>demo_met\<close> has been polled and has the guard again; it is released next.\<close>

definition demo_leaving :: "(qevent barrier, nat barrier_wait) sys" where
  "demo_leaving =
     \<lparr>shared = \<lparr>bn = 2, bstate = \<lparr>mstate = 1, lock_ops = [], mdata = \<lparr>bcount = 0, generation_id = 1\<rparr>\<rparr>,
        bevent = [None]\<rparr>,
      tasks = [BGuard (WReacquiring 0), BDone WInitial True]\<rparr>"

lemma demo_leaving_reachable: "bar_reachable queue_events (fresh_event queue_view) 2 demo_leaving"
proof (rule exec_reachable [OF _ demo_met_reachable])
  show "exec (bar_step queue_events) bar_fresh [Act 0 (BaPoll 0), Act 0 (BaRun 0), Act 0 (BaRun 0)] demo_met =
      Next demo_leaving"
    by (simp add: bar_run_simps demo_met_def demo_leaving_def)
qed

theorem barrier_refines_abstract_witness:
  "\<exists>S'. sys_step (bar_step queue_events) bar_fresh demo_leaving S' \<and> returned (abs_bar S') = {0} \<and>
     abs_bar_step 2 (abs_bar demo_leaving) (abs_bar S')"
proof -
  let ?S' = "demo_leaving\<lparr>tasks := (tasks demo_leaving)[0 := BUnlock (Ret (WReacquiring 0) False)]\<rparr>"
  have step: "sys_step (bar_step queue_events) bar_fresh demo_leaving ?S'"
    using sys_step.act [of 0 demo_leaving "bar_step queue_events" "BaRun 0"]
    by (simp add: demo_leaving_def bar_run_simps)
  have ret: "returned (abs_bar ?S') = {0}" "returned (abs_bar demo_leaving) = {}"
    by (auto simp: demo_leaving_def abs_bar_def indices_def less_Suc_eq nth_Cons' split: if_splits)
  have "length (tasks demo_leaving) < 2 ^ 64" by (simp add: demo_leaving_def)
  from barrier_refines_abstract [OF demo_leaving_reachable this step] ret
  have "abs_bar_step (max 1 (unat (2::usize))) (abs_bar demo_leaving) (abs_bar ?S')" by fastforce
  moreover have "max 1 (unat (2::usize)) = 2" by simp
  ultimately have "abs_bar_step 2 (abs_bar demo_leaving) (abs_bar ?S')" by metis
  with step ret(1) show ?thesis by blast
qed

end
