(* ===== verification/Formatting.thy ===== *)
theory Formatting
  imports Mutex_Arc_Props RawRwLock_Solo RwLock_Props OnceCell_Wakeup Barrier_Props Semaphore
begin

text \<open>
  The \<open>Debug\<close> and \<open>Display\<close> impls. Those of \<open>Mutex\<close>, \<open>RwLock\<close> and \<open>Barrier\<close> are not pure: they
  take the lock with \<open>try_lock\<close> or \<open>try_read\<close> and drop the guard again; that of \<open>OnceCell\<close> reads the
  memory of the value unchecked. Here such a call runs alone, and it performs actions that any
  client may perform. How a value, a number or an event is printed is a parameter.
\<close>

subsection \<open>Formatters of \<open>std\<close>\<close>

text \<open>
  \<open>debug_struct(name).field(field, v) \<dots> .finish()\<close> and \<open>debug_tuple(name).field(v).finish()\<close>, not
  in the alternate form. A struct without fields is printed as its name.
\<close>

fun fields :: "(string \<times> string) list \<Rightarrow> string" where
  "fields [] = []"
| "fields [(f, v)] = f @ '': '' @ v"
| "fields ((f, v) # fs) = f @ '': '' @ v @ '', '' @ fields fs"

definition debug_struct :: "string \<Rightarrow> (string \<times> string) list \<Rightarrow> string" where
  "debug_struct name fs = (if fs = [] then name else name @ '' { '' @ fields fs @ '' }'')"

definition debug_tuple :: "string \<Rightarrow> string \<Rightarrow> string" where
  "debug_tuple name v = name @ ''('' @ v @ '')''"

lemma debug_struct_inject [simp]:
  "debug_struct name [(f, v)] = debug_struct name [(f, w)] \<longleftrightarrow> v = w"
  by (simp add: debug_struct_def)

subsection \<open>\<open>Mutex\<close>\<close>

definition mutex_debug ::
    "('e, 'l) event_ops \<Rightarrow> ('a \<Rightarrow> string) \<Rightarrow> ('e, 'a) mutex \<Rightarrow> string \<times> ('e, 'a) mutex" where
  "mutex_debug ev show_data m = (case try_lock m of (ok, m') \<Rightarrow>
     if ok then (debug_struct ''Mutex'' [(''data'', show_data (mdata m'))], unlock_unchecked ev m')
     else (debug_struct ''Mutex'' [(''data'', ''<locked>'')], m'))"

lemma mutex_debug_word:
  "mutex_debug ev show_data m =
     (if mstate m = 0
      then (debug_struct ''Mutex'' [(''data'', show_data (mdata m))], m\<lparr>lock_ops := ev_notify ev 1 (lock_ops m)\<rparr>)
      else (debug_struct ''Mutex'' [(''data'', ''<locked>'')], m))"
  by (simp add: mutex_debug_def try_lock_eq unlock_unchecked_def unlock_sub_def unlock_notify_def fetch_sub_def)

text \<open>Its actions are those of a \<open>try_lock\<close> whose guard is dropped.\<close>

lemma mutex_debug_actions:
  fixes S :: "(('e, 'a) mutex, 'l lock) sys"
  shows "\<exists>js. exec (lock_step ev) lock_fresh js S =
    Next \<lparr>shared = snd (mutex_debug ev show_data (shared S)), tasks = tasks S @ [LDone None]\<rparr>"
proof -
  let ?k = "length (tasks S)"
  define js :: "('a lock_in, 'l lock) sched list" where
    "js = (if mstate (shared S) = 0 then [Act ?k Unlock, Act ?k (Run 0)] else [])"
  have "exec (lock_step ev) lock_fresh (Spawn LTryLock # Act ?k (Run 0) # js) S =
      Next \<lparr>shared = snd (mutex_debug ev show_data (shared S)), tasks = tasks S @ [LDone None]\<rparr>"
    by (simp add: mutex_debug_word js_def mutex_run_simps)
  then show ?thesis by blast
qed

subsection \<open>\<open>RwLock\<close>\<close>

text \<open>A call of the raw lock that runs alone, and the drop of the guard it has given.\<close>

definition raw_alone ::
    "('e, 'l) event_ops \<Rightarrow> nat \<Rightarrow> 'l rw \<Rightarrow> 'e raw_rwlock \<Rightarrow> ('e raw_rwlock, 'l rw) sys outcome" where
  "raw_alone ev n t s = solo (rw_step ev) rw_busy 0 (replicate n (RwRun 0)) \<lparr>shared = s, tasks = [t]\<rparr>"

definition rwlock_debug ::
    "('e, 'l) event_ops \<Rightarrow> ('a \<Rightarrow> string) \<Rightarrow> ('e, 'a) rwlock \<Rightarrow> (string \<times> ('e, 'a) rwlock) outcome" where
  "rwlock_debug ev show_value l = (case raw_alone ev 2 RTryRead (raw l) of
     Next S \<Rightarrow> (case tasks S ! 0 of
         RReader lo \<Rightarrow> (case read_unlock (shared S) lo of (s', t') \<Rightarrow>
           map_outcome (\<lambda>S'. (debug_struct ''RwLock'' [(''value'', show_value (rvalue l))], l\<lparr>raw := shared S'\<rparr>))
             (raw_alone ev 1 t' s'))
       | _ \<Rightarrow> Next (debug_struct ''RwLock'' [(''value'', ''<locked>'')], l\<lparr>raw := shared S\<rparr>))
   | Abort \<Rightarrow> Abort | Panic \<Rightarrow> Panic | Disabled \<Rightarrow> Disabled)"

text \<open>The drop of the guard, in the state \<open>try_read\<close> leaves: it takes its reader away again.\<close>

lemma read_alone:
  assumes "rstate s \<le> isize_MAX" and "even (unat (rstate s))"
  shows "read_unlock (s\<lparr>rstate := rstate s + ONE_READER\<rparr>) lo =
    (s, if rstate s = 0 then RReadUnlockNotify lo else RDone lo)"
proof -
  have "unat (rstate s + 2) = unat (rstate s) + 2"
    using assms(1) by (simp add: unat_add_no_wrap le_isize_MAX_iff)
  with assms(2) have "(rstate s + 2) AND NOT 1 = 2 \<longleftrightarrow> rstate s = 0"
    unfolding usize_eq_iff unat_and_not_1 by auto
  then show ?thesis by (simp add: read_unlock_def fetch_sub_def rw_consts)
qed

lemma rwlock_debug_word:
  assumes small: "rstate (raw l) \<le> isize_MAX"
  shows "rwlock_debug ev show_value l = Next
    (if even (unat (rstate (raw l)))
     then (debug_struct ''RwLock'' [(''value'', show_value (rvalue l))],
       l\<lparr>raw := if rstate (raw l) = 0 then notify_no_readers ev (raw l) else raw l\<rparr>)
     else (debug_struct ''RwLock'' [(''value'', ''<locked>'')], l))"
proof (cases "even (unat (rstate (raw l)))")
  case True
  then have "raw_alone ev 2 RTryRead (raw l) =
      Next \<lparr>shared = (raw l)\<lparr>rstate := rstate (raw l) + ONE_READER\<rparr>, tasks = [RReader []]\<rparr>"
    using small
    by (auto simp: raw_alone_def numeral_2_eq_2 rw_step_def run_only_def try_read_load_def try_read_head_def
        stay_def try_read_cas_def compare_exchange_def WRITER_BIT_and)
  moreover have "raw_alone ev 1 (if b then RReadUnlockNotify lo else RDone lo) (raw l) =
      Next \<lparr>shared = if b then notify_no_readers ev (raw l) else raw l, tasks = [RDone lo]\<rparr>" for b lo
    by (simp add: raw_alone_def rw_step_def run_only_def)
  ultimately show ?thesis using True by (simp add: rwlock_debug_def read_alone [OF small True])
next
  case False
  then show ?thesis
    by (simp add: rwlock_debug_def raw_alone_def numeral_2_eq_2 rw_step_def run_only_def try_read_load_def
        try_read_head_def stay_def WRITER_BIT_and)
qed

subsection \<open>\<open>OnceCell\<close>\<close>

text \<open>The load of the state; in state \<open>Initialized\<close>, \<open>get_unchecked\<close>. \<open>None\<close>: uninitialised memory is printed.\<close>

definition once_debug :: "('a \<Rightarrow> string) \<Rightarrow> ('e, 'a) once_cell \<Rightarrow> string option outcome" where
  "once_debug show_value c = (case state_from (ostate c) of
     None \<Rightarrow> Panic
   | Some Uninitialized \<Rightarrow> Next (Some (debug_tuple ''OnceCell'' ''<uninitialized>''))
   | Some Initializing \<Rightarrow> Next (Some (debug_tuple ''OnceCell'' ''<initializing>''))
   | Some Initialized \<Rightarrow> Next (map_option (\<lambda>v. debug_tuple ''OnceCell'' (show_value v)) (get_unchecked c)))"

subsection \<open>Derived impls\<close>

text \<open>
  \<open>#[derive(Debug)]\<close> prints the fields in order: a number by \<open>show_num\<close>, an event by \<open>show_event\<close>.
  That of \<open>Barrier\<close> prints a \<open>Mutex\<close>, so it takes the lock of the barrier.
\<close>

definition semaphore_debug :: "(usize \<Rightarrow> string) \<Rightarrow> ('e \<Rightarrow> string) \<Rightarrow> 'e semaphore \<Rightarrow> string" where
  "semaphore_debug show_num show_event s =
     debug_struct ''Semaphore'' [(''count'', show_num (scount s)), (''event'', show_event (sevent s))]"

definition barrier_state_debug :: "(usize \<Rightarrow> string) \<Rightarrow> barrier_state \<Rightarrow> string" where
  "barrier_state_debug show_num st = debug_struct ''State''
     [(''count'', show_num (bcount st)), (''generation_id'', show_num (generation_id st))]"

definition barrier_debug ::
    "('e, 'l) event_ops \<Rightarrow> (usize \<Rightarrow> string) \<Rightarrow> ('e \<Rightarrow> string) \<Rightarrow> 'e barrier \<Rightarrow> string \<times> 'e barrier" where
  "barrier_debug ev show_num show_event b =
     (case mutex_debug ev (barrier_state_debug show_num) (bstate b) of (st, m) \<Rightarrow>
       (debug_struct ''Barrier'' [(''n'', show_num (bn b)), (''state'', st), (''event'', show_event (bevent b))],
        b\<lparr>bstate := m\<rparr>))"

definition barrier_result_debug :: "bool \<Rightarrow> string" where
  "barrier_result_debug leader =
     debug_struct ''BarrierWaitResult'' [(''is_leader'', if leader then ''true'' else ''false'')]"

subsection \<open>Guards\<close>

text \<open>\<open>Debug\<close> and \<open>Display\<close> of a guard forward to the value it protects; \<open>fmt\<close> is the formatter of the value.\<close>

definition mutex_guard_fmt :: "('a \<Rightarrow> string) \<Rightarrow> ('e, 'a) mutex \<Rightarrow> string" where
  [simp]: "mutex_guard_fmt fmt m = fmt (mutex_guard_deref m)"

definition mutex_guard_arc_fmt :: "('a \<Rightarrow> string) \<Rightarrow> ('e, 'a) mutex arc \<Rightarrow> string" where
  [simp]: "mutex_guard_arc_fmt fmt s = fmt (mutex_guard_arc_deref s)"

definition read_guard_fmt :: "('a \<Rightarrow> string) \<Rightarrow> ('e, 'a) rwlock arc \<Rightarrow> string" where
  [simp]: "read_guard_fmt fmt s = fmt (read_guard_deref s)"

definition read_guard_arc_fmt :: "('a \<Rightarrow> string) \<Rightarrow> ('e, 'a) rwlock arc \<Rightarrow> string" where
  [simp]: "read_guard_arc_fmt fmt s = fmt (read_guard_arc_deref s)"

definition upgradable_guard_fmt :: "('a \<Rightarrow> string) \<Rightarrow> ('e, 'a) rwlock arc \<Rightarrow> string" where
  [simp]: "upgradable_guard_fmt fmt s = fmt (upgradable_guard_deref s)"

definition upgradable_guard_arc_fmt :: "('a \<Rightarrow> string) \<Rightarrow> ('e, 'a) rwlock arc \<Rightarrow> string" where
  [simp]: "upgradable_guard_arc_fmt fmt s = fmt (upgradable_guard_arc_deref s)"

definition write_guard_fmt :: "('a \<Rightarrow> string) \<Rightarrow> ('e, 'a) rwlock arc \<Rightarrow> string" where
  [simp]: "write_guard_fmt fmt s = fmt (write_guard_deref s)"

definition write_guard_arc_fmt :: "('a \<Rightarrow> string) \<Rightarrow> ('e, 'a) rwlock arc \<Rightarrow> string" where
  [simp]: "write_guard_arc_fmt fmt s = fmt (write_guard_arc_deref s)"

subsection \<open>Futures\<close>

text \<open>The futures print a constant.\<close>

definition lock_future_debug :: string where
  "lock_future_debug = ''Lock { .. }''"

definition lock_arc_future_debug :: string where
  "lock_arc_future_debug = ''LockArc { .. }''"

definition acquire_future_debug :: string where
  "acquire_future_debug = ''Acquire { .. }''"

definition acquire_arc_future_debug :: string where
  "acquire_arc_future_debug = ''AcquireArc { .. }''"

definition read_future_debug :: string where
  "read_future_debug = ''Read { .. }''"

definition read_arc_future_debug :: string where
  "read_arc_future_debug = ''ReadArc { .. }''"

definition upgradable_read_future_debug :: string where
  "upgradable_read_future_debug = ''UpgradableRead { .. }''"

definition upgradable_read_arc_future_debug :: string where
  "upgradable_read_arc_future_debug = ''UpgradableReadArc { .. }''"

definition write_future_debug :: string where
  "write_future_debug = ''Write { .. }''"

definition write_arc_future_debug :: string where
  "write_arc_future_debug = ''WriteArc { .. }''"

definition barrier_wait_future_debug :: string where
  "barrier_wait_future_debug = ''BarrierWait { .. }''"

definition upgrade_future_debug :: string where
  "upgrade_future_debug = debug_struct ''Upgrade'' []"

definition upgrade_arc_future_debug :: string where
  "upgrade_arc_future_debug = debug_struct ''ArcUpgrade'' []"

subsection \<open>Properties\<close>

text \<open>
  Formatting a mutex does not disturb it, and what it prints. In any reachable state, \<open>Debug\<close>
  prints the data exactly if nobody has the mutex and no lock operation is starved, and \<open><locked>\<close>
  otherwise (so also for an unlocked mutex, when somebody is starved); the state word and the data
  are afterwards as before, and the state of the mutex is one that lock operations reach.
\<close>

theorem mutex_debug_exact:
  assumes "mutex_reachable ev new_event S"
  shows "fst (mutex_debug ev show_data (shared S)) = debug_struct ''Mutex'' [(''data'',
      if mutex_owners (tasks S) = {} \<and> indices (\<lambda>l. lock_starved l = 1) (tasks S) = {}
      then show_data (mdata (shared S)) else ''<locked>'')] \<and>
    mstate (snd (mutex_debug ev show_data (shared S))) = mstate (shared S) \<and>
    mdata (snd (mutex_debug ev show_data (shared S))) = mdata (shared S) \<and>
    mutex_reachable ev new_event
      \<lparr>shared = snd (mutex_debug ev show_data (shared S)), tasks = tasks S @ [LDone None]\<rparr>"
proof -
  obtain js where "exec (lock_step ev) lock_fresh js S =
      Next \<lparr>shared = snd (mutex_debug ev show_data (shared S)), tasks = tasks S @ [LDone None]\<rparr>"
    using mutex_debug_actions by blast
  from exec_reachable [OF this assms] mutex_word_0 [OF assms] show ?thesis
    by (simp add: mutex_debug_word)
qed

text \<open>The mutex of \<open>demo_starved\<close> is unlocked.\<close>

theorem mutex_debug_exact_witness:
  "mutex_debug queue_events (\<lambda>n. ''9'') (shared demo_starved) =
     (''Mutex { data: <locked> }'', shared demo_starved) \<and> even (unat (mstate (shared demo_starved)))"
proof -
  have "indices (\<lambda>l. lock_starved l = 1) (tasks demo_starved) \<noteq> {}"
    by (simp add: demo_starved_def indices_empty_iff lock_starved_def)
  with mutex_debug_exact [OF demo_starved_reachable, of "\<lambda>n. ''9''"]
  have "fst (mutex_debug queue_events (\<lambda>n. ''9'') (shared demo_starved)) = ''Mutex { data: <locked> }''"
    by (simp add: debug_struct_def)
  moreover have "snd (mutex_debug queue_events (\<lambda>n. ''9'') (shared demo_starved)) = shared demo_starved"
    by (simp add: mutex_debug_word demo_starved_def)
  ultimately show ?thesis by (simp add: prod_eq_iff demo_starved_def)
qed

text \<open>
  Formatting a reader-writer lock prints the value exactly if no writer has the lock or waits for
  the readers, and leaves the state word and the value as they are.
\<close>

theorem rwlock_debug_exact:
  assumes "rw_reachable ev new_event \<lparr>shared = raw l, tasks = ts\<rparr>" and "length ts < 2 ^ 62"
  shows "\<exists>l'. rwlock_debug ev show_value l = Next (debug_struct ''RwLock'' [(''value'',
      if in_role Wt ts = {} \<and> in_role Exc ts = {} then show_value (rvalue l) else ''<locked>'')], l') \<and>
    rstate (raw l') = rstate (raw l) \<and> rvalue l' = rvalue l"
proof -
  note ok = reachable_rw_ok [OF assms(1)]
  have good: "rw_good (raw l) (totals rw_wt ts)" using rw.reachable_good [OF assms(1)] by simp
  have "even (unat (rstate (raw l))) \<longleftrightarrow> in_role Wt ts = {} \<and> in_role Exc ts = {}"
  proof -
    have fin: "finite (in_role ro ts)" for ro by (simp add: in_role_def indices_def)
    have "card (in_role Wt ts) + card (in_role Exc ts) \<le> 1"
      using rw_ok_own [OF ok] by (simp add: card_in_role)
    moreover have "even (unat (rstate (raw l))) \<longleftrightarrow> even (card (in_role Wt ts) + card (in_role Exc ts))"
      using ok by (simp add: rw_ok_def card_in_role)
    ultimately have "even (unat (rstate (raw l))) \<longleftrightarrow> card (in_role Wt ts) + card (in_role Exc ts) = 0"
      by presburger
    then show ?thesis by (simp add: fin)
  qed
  with rwlock_debug_word [OF few_small [OF good assms(2)], of ev show_value] show ?thesis
    by (auto simp: notify_no_readers_def)
qed

text \<open>
  Formatting a barrier prints its state unless a task has the guard or is starved on the mutex inside,
  and leaves count, generation and state word as they are.
\<close>

theorem barrier_debug_exact:
  assumes "bar_reachable ev new_event n S"
  shows "fst (barrier_debug ev show_num show_event (shared S)) = debug_struct ''Barrier''
      [(''n'', show_num (bn (shared S))),
       (''state'', debug_struct ''Mutex'' [(''data'',
         if mutex_owners (map bar_lock (tasks S)) = {} \<and>
           indices (\<lambda>l. lock_starved l = 1) (map bar_lock (tasks S)) = {}
         then barrier_state_debug show_num (bar_data (shared S)) else ''<locked>'')]),
       (''event'', show_event (bevent (shared S)))] \<and>
    bar_data (snd (barrier_debug ev show_num show_event (shared S))) = bar_data (shared S) \<and>
    mstate (bstate (snd (barrier_debug ev show_num show_event (shared S)))) = mstate (bstate (shared S))"
proof -
  have "mutex_good (bstate (shared S)) (totals lock_wt (map bar_lock (tasks S)))"
    using bar_inv.reachable_inv [OF assms] by (simp add: bar_inv_def client_ok_def counting_inv_def)
  from good_word_0 [OF this] show ?thesis
    by (simp add: barrier_debug_def mutex_debug_word bar_data_def)
qed

text \<open>Task 0 of \<open>demo_stuck_lock\<close> sleeps, task 1 waits for the mutex, which is free.\<close>

theorem barrier_debug_exact_witness:
  "fst (barrier_debug queue_events (\<lambda>k. if k = 0 then ''0'' else if k = 1 then ''1'' else ''2'') (\<lambda>e. ''Event'')
     (shared demo_stuck_lock)) =
   ''Barrier { n: 2, state: Mutex { data: State { count: 1, generation_id: 0 } }, event: Event }''"
proof -
  have free: "mutex_owners (map bar_lock (tasks demo_stuck_lock)) = {}"
    "indices (\<lambda>l. lock_starved l = 1) (map bar_lock (tasks demo_stuck_lock)) = {}"
    by (simp_all add: demo_stuck_lock_def mutex_owners_def indices_empty_iff lock_owner_def lock_starved_def)
  show ?thesis
    unfolding barrier_debug_exact [OF demo_stuck_lock_reachable, THEN conjunct1] free
    by (simp add: demo_stuck_lock_def debug_struct_def barrier_state_debug_def bar_data_def)
qed

text \<open>
  Formatting a cell never prints uninitialised memory and never panics, in any reachable state.
\<close>

theorem once_debug_defined:
  assumes "once_reachable ev dbg new_event S"
  shows "\<exists>out. once_debug show_value (shared S) = Next (Some out)"
  using once.reachable_good [OF assms]
  by (auto simp: once_debug_def once_good_def state_from_def get_unchecked_def)

end
