(* ===== verification/Overflow.thy ===== *)
theory Overflow
  imports RawRwLock_Solo Barrier_Props Semaphore_Props OnceCell_Props
begin

text \<open>
  The overflow checks. A mutex counts its starved operations and a reader-writer lock its readers in
  one machine word, and the process is aborted before a counter overflows. With fewer than \<open>2 ^ 62\<close>
  tasks that does not happen. A reader loads the state before its first poll, so the bound must
  hold of the loaded state as well.
\<close>

subsection \<open>The reader-writer lock\<close>

definition loaded_ok :: "'l rw \<Rightarrow> bool" where
  "loaded_ok t = (case t of RRead pc r \<Rightarrow> pc = RdIdle \<longrightarrow> rd_state r \<le> isize_MAX | _ \<Rightarrow> True)"

lemma head_loaded:
  "read_head r = Next t \<Longrightarrow> loaded_ok t" "try_read_head st = Next t \<Longrightarrow> loaded_ok t"
  by (auto simp: read_head_def try_read_head_def loaded_ok_def split: if_splits)

lemma read_step_loaded: "read_step ev pc s r = Next (s', t') \<Longrightarrow> loaded_ok t'"
  by (cases pc)
     (auto simp: stay_Next Let_def head_loaded loaded_ok_def [of "RRead _ _"] loaded_ok_def [of "RReader _"]
       split: prod.splits sum.splits option.splits if_splits)

lemma drain_step_loaded:
  "write_step ev pc s nr = Next (s', t') \<Longrightarrow> loaded_ok t'"
  "upgrade_step ev pc s nr lo = Next (s', t') \<Longrightarrow> loaded_ok t'"
  by (cases pc; auto simp: loaded_ok_def split: prod.splits option.splits if_splits)+

lemma lock_into_loaded:
  "loaded_ok (case l of LHeld lo \<Rightarrow> RUpLoad lo | _ \<Rightarrow> RUpLock l)"
  "loaded_ok (case l of LHeld lo \<Rightarrow> RWriteOr lo | _ \<Rightarrow> RWriteLock l)"
  by (cases l; simp add: loaded_ok_def)+

lemma rw_step_loaded:
  assumes step: "rw_step ev i s t = Next (s', t')" and small: "rstate s \<le> isize_MAX" and ok: "loaded_ok t"
  shows "loaded_ok t'"
proof (cases t)
  case (RRead pc r)
  with step show ?thesis
    by (auto simp: rw_step_def run_only_Next stay_Next loaded_ok_def [of "RDone _"]
        dest: head_loaded read_step_loaded split: rw_in.splits if_splits)
next
  case (RUpLock l)
  with step show ?thesis
    by (auto simp: rw_step_def up_lock_step_def map_outcome_Next_iff lock_into_loaded split: option.splits)
next
  case (RWriteLock l)
  with step show ?thesis
    by (auto simp: rw_step_def write_lock_step_def map_outcome_Next_iff lock_into_loaded split: option.splits)
next
  case (RWrite pc nr)
  with step show ?thesis
    by (auto simp: rw_step_def run_only_Next write_unlock_def loaded_ok_def [of "RWrite _ _"]
        loaded_ok_def [of "RWriteUnlockNotify _"] dest: drain_step_loaded split: rw_in.splits if_splits)
next
  case (RUpgrade pc nr lo)
  with step show ?thesis
    by (auto simp: rw_step_def run_only_Next write_unlock_def drop_left_def loaded_ok_def [of "RUpgrade _ _ _"]
        loaded_ok_def [of "RWriteUnlockNotify _"] dest: drain_step_loaded split: rw_in.splits if_splits)
qed (use step small in \<open>auto simp: rw_step_def run_only_Next stay_Next Let_def reader_step_def
      upgradable_step_def writer_step_def rw_op_defs drop_left_def loaded_ok_def read_new_def
      split: rw_in.splits if_splits prod.splits sum.splits option.splits write_state.splits\<close>)

definition bounds_inv :: "('e raw_rwlock, 'l rw) sys \<Rightarrow> bool" where
  "bounds_inv S \<longleftrightarrow> counting_inv rw_wt rw_wf rw_good S \<and>
     (length (tasks S) < 2 ^ 62 \<longrightarrow> (\<forall>t \<in> set (tasks S). loaded_ok t))"

interpretation rw_bounds: inv_system "rw_step ev" rw_fresh "rw_start new_event" bounds_inv
  for ev :: "('e, 'l) event_ops" and new_event
proof
  fix s :: "'e raw_rwlock"
  assume "rw_start new_event s"
  from rw.inv_init [OF this] show "bounds_inv (\<lparr>shared = s, tasks = []\<rparr> :: ('e raw_rwlock, 'l rw) sys)"
    by (simp add: bounds_inv_def)
next
  fix S :: "('e raw_rwlock, 'l rw) sys" and t :: "'l rw"
  assume inv: "bounds_inv S" and t: "rw_fresh t"
  have "loaded_ok t" using t by (auto simp: rw_fresh_def loaded_ok_def)
  with inv rw.inv_spawn [OF _ t, of S] show "bounds_inv (S\<lparr>tasks := tasks S @ [t]\<rparr>)"
    by (simp add: bounds_inv_def)
next
  fix S :: "('e raw_rwlock, 'l rw) sys" and k i s' t'
  assume inv: "bounds_inv S" and k: "k < length (tasks S)"
    and step: "rw_step ev i (shared S) (tasks S ! k) = Next (s', t')"
  from inv have cnt: "counting_inv rw_wt rw_wf rw_good S" by (simp add: bounds_inv_def)
  then have good: "rw_good (shared S) (totals rw_wt (tasks S))" by (simp add: counting_inv_def)
  from rw.inv_act [OF cnt k step] inv k rw_step_loaded [OF step few_small [OF good]]
  show "bounds_inv \<lparr>shared = s', tasks = (tasks S)[k := t']\<rparr>"
    by (auto simp: bounds_inv_def dest!: set_update_subset_insert [THEN subsetD])
qed

lemma head_no_abort:
  "rd_state r AND WRITER_BIT = 0 \<longrightarrow> rd_state r \<le> isize_MAX \<Longrightarrow> read_head r \<noteq> Abort"
  "st \<le> isize_MAX \<Longrightarrow> try_read_head st \<noteq> Abort"
  by (auto simp: read_head_def try_read_head_def)

lemma rw_step_no_abort:
  assumes wf: "rw_wf t" and small: "rstate s \<le> isize_MAX" and ok: "loaded_ok t"
    and lock: "\<And>j. lock_step ev j (rmutex s) (rw_lock t) \<noteq> Abort"
  shows "rw_step ev i s t \<noteq> Abort"
proof (cases t)
  case (RRead pc r)
  with wf ok small show ?thesis
    by (cases pc) (auto simp: rw_step_def run_only_def stay_def Let_def loaded_ok_def head_no_abort
          compare_exchange_def
        split: rw_in.splits prod.splits sum.splits option.splits outcome.splits if_splits)
next
  case (RUpLock l)
  with lock show ?thesis
    by (auto simp: rw_step_def up_lock_step_def rw_lock_def split: option.splits)
next
  case (RWriteLock l)
  with lock show ?thesis
    by (auto simp: rw_step_def write_lock_step_def rw_lock_def split: option.splits)
next
  case (RWrite pc nr)
  then show ?thesis
    by (cases pc) (auto simp: rw_step_def run_only_def Let_def split: rw_in.splits prod.splits option.splits)
next
  case (RUpgrade pc nr lo)
  then show ?thesis
    by (cases pc) (auto simp: rw_step_def run_only_def Let_def drop_left_def
        split: rw_in.splits prod.splits option.splits)
qed (use small in \<open>auto simp: rw_step_def run_only_def stay_def Let_def head_no_abort
      compare_exchange_def reader_step_def
      upgradable_step_def writer_step_def rw_op_defs drop_left_def
      split: rw_in.splits if_splits prod.splits sum.splits option.splits outcome.splits\<close>)

lemma rw_reachable_no_abort:
  assumes reach: "rw_reachable ev new_event S" and k: "k < length (tasks S)"
    and few: "length (tasks S) < 2 ^ 62"
  shows "rw_step ev i (shared S) (tasks S ! k) \<noteq> Abort"
proof (rule rw_step_no_abort)
  from rw_bounds.reachable_inv [OF reach] have "bounds_inv S" .
  with few k show "loaded_ok (tasks S ! k)" by (simp add: bounds_inv_def)
  show "rw_wf (tasks S ! k)" by (rule rw.reachable_wf [OF reach k])
  show "rstate (shared S) \<le> isize_MAX" by (rule few_small [OF rw.reachable_good [OF reach] few])
  show "lock_step ev j (rmutex (shared S)) (rw_lock (tasks S ! k)) \<noteq> Abort" for j
    by (rule client_no_abort [OF rw_client.client.reachable_inv [OF reach] k]) (use few in simp)
qed

subsection \<open>The barrier\<close>

lemma bar_step_no_abort:
  assumes "\<And>j. lock_step ev j (bstate b) (bar_lock t) \<noteq> Abort"
  shows "bar_step ev i b t \<noteq> Abort"
  using assms
  by (cases t) (auto simp: bar_step_def bar_lock_step_def bar_run_def bar_guard_def bar_incr_def
      split: bar_in.splits wait_state.splits)

lemma barrier_no_abort:
  assumes reach: "bar_reachable ev new_event n S" and k: "k < length (tasks S)"
    and few: "length (tasks S) < 2 ^ 62"
  shows "bar_step ev i (shared S) (tasks S ! k) \<noteq> Abort"
  by (rule bar_step_no_abort, rule client_no_abort [OF bar.client.reachable_inv [OF reach] k])
     (use few in simp)

subsection \<open>The semaphore\<close>

lemma sem_step_no_abort: "sem_step ev i s t \<noteq> Abort"
  by (auto simp: sem_step_def sem_drop_listener_def Let_def
      split: acquire.split sem_in.split option.split prod.split)

subsection \<open>All the primitives\<close>

text \<open>
  C12: no counter overflows. While a mutex, a reader-writer lock or a barrier has fewer than
  \<open>2 ^ 62\<close> tasks, no action of any of them aborts the process: neither the count of starved lock
  operations nor the count of readers reaches its limit, and no reader goes on with a loaded state
  beyond it. Semaphores have no such check.
\<close>

theorem no_call_aborts:
  "(mutex_reachable ev new_event M \<and> k < length (tasks M) \<and> length (tasks M) < 2 ^ 62 \<longrightarrow>
      lock_step ev i (shared M) (tasks M ! k) \<noteq> Abort) \<and>
   (rw_reachable ev new_event R \<and> k < length (tasks R) \<and> length (tasks R) < 2 ^ 62 \<longrightarrow>
      rw_step ev i1 (shared R) (tasks R ! k) \<noteq> Abort) \<and>
   (bar_reachable ev new_event n B \<and> k < length (tasks B) \<and> length (tasks B) < 2 ^ 62 \<longrightarrow>
      bar_step ev i2 (shared B) (tasks B ! k) \<noteq> Abort) \<and>
   sem_step ev i3 s t \<noteq> Abort"
  using mutex_never_aborts [OF _ _ less_imp_le] rw_reachable_no_abort barrier_no_abort sem_step_no_abort by blast

theorem no_call_aborts_witness:
  "lock_step queue_events (Run 0) (shared demo_starved) (tasks demo_starved ! 3) \<noteq> Abort \<and>
   rw_step queue_events (RwPoll 0) (shared demo_writer) (tasks demo_writer ! 3) \<noteq> Abort \<and>
   bar_step queue_events (BaPoll 0) (shared demo_stuck_lock) (tasks demo_stuck_lock ! 1) \<noteq> Abort"
  using no_call_aborts [of queue_events "fresh_event queue_view" demo_starved 3 "Run 0", THEN conjunct1]
    no_call_aborts [where ev = queue_events and new_event = "fresh_event queue_view" and R = demo_writer and k = 3
      and ?i1.0 = "RwPoll 0", THEN conjunct2, THEN conjunct1]
    no_call_aborts [where ev = queue_events and new_event = "fresh_event queue_view" and B = demo_stuck_lock and k = 1
      and n = 2 and ?i2.0 = "BaPoll 0", THEN conjunct2, THEN conjunct2, THEN conjunct1]
    demo_starved_reachable demo_writer_reachable demo_stuck_lock_reachable
  by (simp add: demo_starved_def demo_writer_def demo_stuck_lock_def)

end
