(* ===== verification/Spec2Isabelle.thy ===== *)
theory Spec2Isabelle
  imports Blocking_Calls Mutex_Solo Mutex_Arc_Props Semaphore_Solo Semaphore_Arc_Props RawRwLock_Solo
    OnceCell_Solo Barrier_Solo Barrier_Spec RwLock_Props Formatting Overflow
begin

text \<open>
  Verification of the crate \<open>async-lock\<close>: asynchronous locks for Rust.

  \<^bold>\<open>The program.\<close> Six primitives, each a value in shared memory with methods that make futures:
  \<^item> \<open>Mutex<T>\<close> (\<^verbatim>\<open>src/mutex.rs\<close>): a state word (bit 0 is the lock, the rest counts starved operations),
    an event on which lock operations wait, the value. A lock operation tries to lock, then goes to
    its slow path, where it gets tired after 0.5 ms and then makes newcomers wait.
  \<^item> \<open>Semaphore\<close> (\<^verbatim>\<open>src/semaphore.rs\<close>): a counter of permits and an event.
  \<^item> \<open>RawRwLock\<close> (\<^verbatim>\<open>src/rwlock/raw.rs\<close>): a state word (bit 0 is the writer, the rest counts readers), a
    \<open>Mutex<()>\<close> that writers and upgradable readers hold, two events. \<open>RwLock<T>\<close>
    (\<^verbatim>\<open>src/rwlock.rs\<close>, \<^verbatim>\<open>src/rwlock/futures.rs\<close>) adds the value, six kinds of guards with their
    conversions, and the variants that own an \<open>Arc\<close> of the lock.
  \<^item> \<open>OnceCell<T>\<close> (\<^verbatim>\<open>src/once_cell.rs\<close>): a state of three values, an event for those who may
    initialise, one for those who only wait, and memory for the value.
  \<^item> \<open>Barrier\<close> (\<^verbatim>\<open>src/barrier.rs\<close>): a \<open>Mutex\<close> around a count and a generation, and an event.

  The primitives interact through the mutex, which is a field of \<open>RawRwLock\<close> and of \<open>Barrier\<close>, whose
  futures contain its lock futures; through \<open>Arc\<close>, which owned guards and futures clone and drop;
  and all of them wait through the crates \<open>event-listener\<close> and \<open>event-listener-strategy\<close>.

  \<^bold>\<open>How it is modelled.\<close>
  A \<^emph>\<open>task\<close> is one use of a primitive: a future together with the guard it yields, or one call. It is
  a value of a datatype with a constructor per program point, at which its local variables are
  arguments. The step function of a primitive performs the next indivisible action of a task (at most
  one access to shared memory) and says where the task is afterwards; its input tells what the
  client does (poll, drop, unlock \<dots>) or what the action reads from outside: the clock, a spurious
  failure of a weak compare-exchange. Panics and process aborts are outcomes of a step (\<open>outcome\<close> in
  \<open>Prelude\<close>); an action the program cannot perform is \<open>Disabled\<close>. \<open>Interleaving\<close> lets any task move
  next and any number of tasks be created: \<open>reachable\<close> covers all interleavings and all cancellations,
  \<open>exec\<close> is the same along a given schedule and serves the witnesses. Machine words are 64-bit words
  whose arithmetic wraps where the code's does.

  The event crate is a parameter: a record \<open>event_ops\<close> of its functions over an unknown type
  (\<open>Event_Interface\<close>). Safety is proved for every such record. What wake-ups need is
  \<open>event_laws\<close>, which states the documented behaviour (a new listener is registered and not notified;
  \<open>notify(n)\<close> sees to it that \<open>n\<close> listeners are notified, counting those that are already, and takes no
  notification back; a poll is ready exactly if the listener is notified, and uses it up; dropping a
  notified listener passes its notification on). \<open>Event_Queue\<close> gives an implementation
  that satisfies the laws; it serves the witnesses only.

  \<^bold>\<open>Theories.\<close>
  \<^item> \<open>Prelude\<close>: machine types, atomic operations of \<open>std\<close>, outcomes, weighted sums over lists.
  \<^item> \<open>Interleaving\<close>: systems of tasks. Locales \<open>inv_system\<close> (an invariant holds in every reachable
    state), \<open>counting_system\<close> (invariants of a lock word: what the tasks contribute adds up to it),
    \<open>refinement_system\<close> (every step is a step of an abstract specification or none) and
    \<open>component_system\<close> (a system that contains another one inherits its properties).
  \<^item> \<open>Event_Interface\<close>, \<open>Event_Queue\<close>; \<open>Event_Ownership\<close> and \<open>Event_Shares\<close>: the registered listeners
    are exactly those that tasks own, one or several each. Locales \<open>wakeup_duty\<close> (in \<open>Wakeup_Duty\<close>, one
    listener each) and \<open>share_duty\<close> (in \<open>Event_Shares\<close>, several): the argument that no wake-up is
    lost: some listener is notified, or some task will notify or look at the state again.
  \<^item> \<open>Mutex\<close>: \<open>mutex\<close> is \<open>Mutex<T>\<close>, \<open>lock\<close> is \<open>Lock\<close> with its guard, \<open>acquire_slow\<close> is
    \<open>AcquireSlow\<close>; \<open>hot_step\<close> and \<open>fair_step\<close> are the two loops of its \<open>poll_with_strategy\<close>,
    \<open>lock_step\<close> all actions. \<open>Mutex_Safety\<close>, \<open>Mutex_Wakeup\<close>, \<open>Mutex_Solo\<close>: mutual exclusion,
    the exact state word, the refinement of an abstract lock, fairness, no panic or abort; no lost
    wake-up; every call that runs alone returns.
  \<^item> \<open>Lock_Embedded\<close>, \<open>Lock_Client\<close>: a primitive that contains a mutex. Locale \<open>lock_client\<close>: each task
    uses it through one lock future; then the mutex invariants and wake-ups hold inside.
  \<^item> \<open>Arc_Clients\<close>: a primitive in an \<open>Arc\<close>, with handles, borrows and operations that own clones.
    Locales \<open>arc_clients\<close> (the count is exact, nothing is used after it is freed) and \<open>arc_component\<close>.
    \<open>Mutex_Arc\<close>, \<open>Mutex_Arc_Props\<close>: \<open>LockArc\<close> and \<open>MutexGuardArc\<close>. \<open>Semaphore_Arc\<close>,
    \<open>Semaphore_Arc_Props\<close>: \<open>AcquireArc\<close> and \<open>SemaphoreGuardArc\<close>.
  \<^item> \<open>Semaphore\<close>: \<open>acquire\<close> is the future with its guard, \<open>sem_step\<close> its actions. \<open>Semaphore_Props\<close>:
    permits are conserved, the refinement of a counting semaphore with labelled steps, \<open>try_acquire\<close> against its
    sequential specification. \<open>Semaphore_Wakeup\<close>: when a wake-up is passed on, and a run where it is not.
    \<open>Semaphore_Solo\<close>: every call that runs alone returns.
  \<^item> \<open>RawRwLock\<close>: \<open>rw\<close> is the datatype of tasks, \<open>rw_step\<close> their actions. \<open>RawRwLock_Inv\<close>: the role of a
    task, and what one action can do to roles and state (\<open>rw_move\<close>). \<open>RawRwLock_Count\<close>,
    \<open>RawRwLock_Props\<close>: exclusion, the exact state word, refinement, no panic.
    \<open>RawRwLock_Wakeup\<close>: the last reader wakes the writer. \<open>RawRwLock_Mutex\<close>: the lock is a \<open>lock_client\<close>, so
    a writer wakes the next one. \<open>RawRwLock_Readers\<close>: a writer wakes the readers, if \<open>downgrade_to_upgradable\<close>
    is not used (with it a reader can be stranded, \<open>rwlock_reader_stuck\<close>). \<open>RawRwLock_Solo\<close>: every call that
    runs alone returns. \<open>RawRwLock_Blocking\<close>: the three wake-ups together: callers do not deadlock.
  \<^item> \<open>RwLock\<close>: the lock with its value, the futures, the guards and their methods, \<open>Deref\<close>, the \<open>Arc\<close>s.
    \<open>RwLock_Props\<close>: a reader sees a snapshot; the count is exact and a freed lock is unlocked.
  \<^item> \<open>OnceCell\<close>: \<open>once\<close> is the datatype of calls, \<open>once_step\<close> their actions, with panicking and failing
    initialisers. \<open>OnceCell_Inv\<close>, \<open>OnceCell_Props\<close>, \<open>OnceCell_Wakeup\<close>: the write-once cell, one
    initialiser at a time, stable value, \<open>take\<close> and \<open>Drop\<close>; no panic, no read of uninitialised memory; wake-ups.
    \<open>OnceCell_Solo\<close>: every call that runs alone returns or awaits.
  \<^item> \<open>Barrier\<close>: \<open>barrier_wait\<close> is \<open>BarrierWaitInner\<close>, \<open>bar_step\<close> its actions. \<open>Barrier_Inv\<close>,
    \<open>Barrier_Props\<close>: it is a \<open>lock_client\<close>; arrivals, leaders and generations; nobody returns early;
    everybody is woken. \<open>Barrier_Spec\<close>: the refinement of an abstract barrier. \<open>Barrier_Solo\<close>: every
    poll that runs alone returns.
  \<^item> \<open>Blocking\<close>: threads that park where a future would return \<open>Pending\<close>. Locale \<open>blocking_system\<close>: with them the
    primitive goes through no new state. \<open>Mutex_Blocking\<close>: threads do not deadlock on the mutex.
    \<open>Blocking_Calls\<close>: the blocking methods of all primitives.
  \<^item> \<open>Formatting\<close>: the \<open>Debug\<close> and \<open>Display\<close> impls; what those print that take a lock or read the value, and that
    they leave the primitive as it was.
  \<^item> \<open>Overflow\<close>: no counter overflows, so no call aborts; the states readers have loaded are bounded as well.
  \<^item> \<open>Solo_Run\<close>: locale \<open>solo_system\<close>, termination of a call by a rank; \<open>retry_system\<close>, with actions that fail and are
    repeated.

  Every locale is interpreted on the model of the code: \<open>counting_system\<close> as \<open>mtx\<close>, \<open>sem\<close>, \<open>rw\<close>, \<open>once\<close>; \<open>inv_system\<close> as \<open>rw_bounds\<close>;
  \<open>refinement_system\<close> as \<open>mtx_abs\<close>, \<open>sem_abs\<close>, \<open>rw_abs\<close>, \<open>once_abs\<close>; \<open>wakeup_duty\<close>, \<open>share_duty\<close> (\<open>rw_duty\<close>, \<open>rw_read_duty\<close>) and
  \<open>inv_system\<close> for the wake-ups; \<open>lock_client\<close> as \<open>bar\<close> and \<open>rw_client\<close>; \<open>arc_component\<close> as \<open>mta\<close>, \<open>sma\<close>, \<open>rwl\<close>;
  \<open>solo_system\<close> as \<open>mtx_solo\<close>, \<open>rw_solo\<close>, \<open>once_solo\<close>, \<open>bar_solo\<close>; \<open>retry_system\<close> as \<open>sem_solo\<close>; \<open>blocking_system\<close> as \<open>mtx_blocking\<close>, \<open>rw_blocking\<close>, \<open>mta_blocking\<close>,
  \<open>sma_blocking\<close>, \<open>rwl_blocking\<close>, \<open>once_blocking\<close>, \<open>bar_blocking\<close>.

  \<^bold>\<open>Bounds.\<close> The target has 64-bit words. The code aborts the process before the
  starvation counter of a mutex or the reader count overflows; with fewer than \<open>2 ^ 62\<close> tasks no
  check fires (\<open>Overflow\<close>); \<open>notify(usize::MAX)\<close> reaches every listener of fewer than \<open>2 ^ 64\<close>
  tasks. A call that runs alone returns within 10 actions on the mutex, 6 on the semaphore (spurious failures not counted), 19 on
  the reader-writer lock, 11 on the cell and 23 on the barrier, because a listener that the call registers
  itself is not notified before it waits; the ranks in the \<open>_Solo\<close> theories count the actions. Nothing else
  needs fuel: the loops of the code are cycles of the step functions.

  The theorem of this theory puts the primitives together, with their reference-counted variants: no call panics.

  \<^bold>\<open>Not modelled.\<close>
  \<^item> Memory orderings: the atomic accesses are sequentially consistent.
  \<^item> \<^verbatim>\<open>src/lib.rs\<close>: re-exports, the \<open>const_fn\<close> macro, the choice of the atomics; \<open>abort()\<close> is the
    outcome \<open>Abort\<close>, merged with the atomic access whose result leads to it.
  \<^item> The \<open>Send\<close> and \<open>Sync\<close> impls, which have no run-time content; \<open>source\<close> on guards, which returns the lock itself
    (a client may get a handle whenever there is one).
  \<^item> The configurations \<open>no_std\<close>, wasm and \<open>loom\<close>: without \<open>std\<close> the mutex has no clock.
  \<^item> Wakers and the inside of the strategies: a suspended task is polled when the client likes; whether it is
    going to be polled is told by the notified listeners. A poll of a listener is one action.
  \<^item> A poll of a future that has completed: the contract of \<open>Future\<close> rules it out, and here it is \<open>Disabled\<close>. The code
    then panics (the slow paths of \<open>Lock\<close> and \<open>LockArc\<close>, \<open>mutex.rs\<close> lines 420, 438 and 529; \<open>RawWrite\<close> and \<open>RawUpgrade\<close>,
    \<open>raw.rs\<close> lines 500 and 543) or starts over (the fast path of \<open>Lock\<close>, \<open>Acquire\<close>, \<open>RawRead\<close>).
  \<^item> Options that are emptied only by the method that consumes the value, so that their \<open>unwrap\<close> has no state in
    which it fails: the \<open>Arc\<close> of a \<open>SemaphoreGuardArc\<close> (\<open>semaphore.rs\<close> line 407), the value that \<open>set\<close> gives to its closure
    (\<open>once_cell.rs\<close> lines 549 and 625). Raw pointers of the reader-writer guards, which are taken to be what they are
    made from (the \<open>NonNull\<close> in \<open>rwlock.rs\<close> line 792). The steps of the semaphore have no panic.
  \<^item> The overflow abort inside \<open>Arc\<close>; weak references. Memory is freed when the count is zero.
  \<^item> References that guards give out: a guard reads and writes the value in single actions.
\<close>

text \<open>
  C37: no call panics, as long as clients do not poll a future that has completed. In every reachable state, no
  action of a client of a mutex (with \<open>Lock\<close>, \<open>LockArc\<close> and both guards), of a reader-writer lock (with
  all its futures and guards, borrowed and reference-counted), of a cell (with the blocking initialisers,
  which go through \<open>now_or_never\<close>) or of a barrier panics. So \<open>take_mutex().unwrap()\<close>, \<open>strategy.poll\<close> without a
  listener, the \<open>expect\<close>s and \<open>unwrap\<close>s of the lock futures inside, the \<open>unreachable!\<close> of the state
  conversion and of \<open>now_or_never\<close>, the taken closure, the debug assertions and the overflow check of
  the barrier's count never fire.
\<close>

theorem no_call_panics:
  assumes laws: "event_laws ev vw"
  shows "(mta_reachable ev (fresh_event vw) M \<and> k < length (tasks M) \<longrightarrow>
      mutex_step ev i (shared M) (tasks M ! k) \<noteq> Panic) \<and>
    (rwl_reachable ev (fresh_event vw) R \<and> k < length (tasks R) \<longrightarrow>
      rwlock_step ev i2 (shared R) (tasks R ! k) \<noteq> Panic) \<and>
    (once_reachable ev dbg (fresh_event vw) C \<and> k < length (tasks C) \<longrightarrow>
      once_step ev dbg i3 (shared C) (tasks C ! k) \<noteq> Panic \<and>
      now_or_never ev dbg i3 (shared C) (tasks C ! k) \<noteq> Panic) \<and>
    (bar_reachable ev (fresh_event vw) n B \<and> k < length (tasks B) \<longrightarrow>
      bar_step ev i4 (shared B) (tasks B ! k) \<noteq> Panic)"
proof -
  have once: "once_step ev dbg i3 (shared C) (tasks C ! k) \<noteq> Panic"
    if "once_reachable ev dbg (fresh_event vw) C" "k < length (tasks C)"
    using once_never_panics [OF laws that] by blast
  then show ?thesis
    by (intro conjI impI; elim conjE)
       (rule mutex_step_no_panic rwlock_step_no_panic now_or_never_no_panic barrier_never_panics;
        assumption | simp)+
qed

theorem no_call_panics_witness:
  "mutex_step queue_events (Do (OnLock (Poll 0))) (shared demo_arc_wait) (tasks demo_arc_wait ! 1) \<noteq> Panic \<and>
   rwlock_step queue_events (Do (OnRaw (RwPoll 0))) (shared demo_kept) (tasks demo_kept ! 1) \<noteq> Panic \<and>
   now_or_never queue_events True OcRun (shared demo_taking) (tasks demo_taking ! 2) \<noteq> Panic \<and>
   bar_step queue_events (BaPoll 0) (shared demo_stuck_lock) (tasks demo_stuck_lock ! 1) \<noteq> Panic"
  using no_call_panics [OF queue_events_laws, of demo_arc_wait 1 "Do (OnLock (Poll 0))", THEN conjunct1]
    no_call_panics [OF queue_events_laws, where R = demo_kept and k = 1 and ?i2.0 = "Do (OnRaw (RwPoll 0))",
      THEN conjunct2, THEN conjunct1]
    no_call_panics [OF queue_events_laws, where C = demo_taking and k = 2 and dbg = True and ?i3.0 = OcRun,
      THEN conjunct2, THEN conjunct2, THEN conjunct1]
    no_call_panics [OF queue_events_laws, where B = demo_stuck_lock and k = 1 and n = 2 and ?i4.0 = "BaPoll 0",
      THEN conjunct2, THEN conjunct2, THEN conjunct2]
    demo_arc_wait_reachable demo_kept_reachable demo_taking_reachable demo_stuck_lock_reachable
  by (simp add: demo_arc_wait_def demo_kept_def demo_taking_def demo_failed_def demo_stuck_lock_def)

end
